(* ===== verification/Prelude.thy ===== *)
theory Prelude
  imports Main "HOL-Library.Word" "HOL-Library.Monad_Syntax"
begin

text \<open>
  Shared vocabulary of the development.  The C code is modelled on buffers and arrays given as
  lists; \<open>'a res\<close> is the result of an operation, where \<open>None\<close> means that the C program has
  no defined outcome there: a read or write outside an object, or a failed assertion (which
  aborts the server).  \<open>'a ptr\<close> is a pointer that may be NULL.  \<open>rd\<close>, \<open>wr\<close> and \<open>chk\<close>
  are the checked read, the checked write and \<open>assert\<close>.
\<close>

subsection \<open>Types\<close>

type_synonym u8 = "8 word"
type_synonym u16 = "16 word"
type_synonym u32 = "32 word"
type_synonym u64 = "64 word"
type_synonym 'a ptr = "'a option"
type_synonym 'a res = "'a option"

subsection \<open>Checked access\<close>

definition rd :: "'a list \<Rightarrow> nat \<Rightarrow> 'a res" where
  "rd xs i = (if i < length xs then Some (xs ! i) else None)"

definition wr :: "'a list \<Rightarrow> nat \<Rightarrow> 'a \<Rightarrow> 'a list res" where
  "wr xs i v = (if i < length xs then Some (xs[i := v]) else None)"

definition chk :: "bool \<Rightarrow> unit res" where
  "chk b = (if b then Some () else None)"

text \<open>Runs of cells: \<open>rd_n\<close> and \<open>wr_n\<close> read and write \<open>n\<close> consecutive cells (\<open>memcpy\<close>),
  \<open>mem_move\<close> is \<open>memmove\<close> inside one buffer, and \<open>re_alloc\<close> is \<open>zrealloc\<close> to \<open>n\<close> cells:
  the old prefix followed by whatever the allocator left there (\<open>junk\<close>).\<close>

definition rd_n :: "'a list \<Rightarrow> nat \<Rightarrow> nat \<Rightarrow> 'a list res" where
  "rd_n xs off n = (if off + n \<le> length xs then Some (take n (drop off xs)) else None)"

definition wr_n :: "'a list \<Rightarrow> nat \<Rightarrow> 'a list \<Rightarrow> 'a list res" where
  "wr_n xs off ys =
     (if off + length ys \<le> length xs then Some (take off xs @ ys @ drop (off + length ys) xs) else None)"

definition mem_move :: "'a list \<Rightarrow> nat \<Rightarrow> nat \<Rightarrow> nat \<Rightarrow> 'a list res" where
  "mem_move xs dst src n = do { ys \<leftarrow> rd_n xs src n; wr_n xs dst ys }"

definition re_alloc :: "(nat \<Rightarrow> 'a) \<Rightarrow> nat \<Rightarrow> 'a list \<Rightarrow> 'a list" where
  "re_alloc junk n xs = take n xs @ map junk [length xs..<n]"

subsection \<open>Little-endian integers\<close>

text \<open>The \<open>n\<close> low bytes of an integer in two's complement, lowest first, and their values as an
  unsigned and as a signed integer.\<close>

fun le_bytes :: "nat \<Rightarrow> int \<Rightarrow> u8 list" where
  "le_bytes 0 v = []"
| "le_bytes (Suc n) v = word_of_int v # le_bytes n (v div 256)"

fun le_uint :: "u8 list \<Rightarrow> int" where
  "le_uint [] = 0"
| "le_uint (b # bs) = uint b + 256 * le_uint bs"

definition le_sint :: "u8 list \<Rightarrow> int" where
  "le_sint bs = (let x = le_uint bs; w = 8 * length bs in if x < 2 ^ (w - 1) then x else x - 2 ^ w)"

subsection \<open>Shared lemmas\<close>

lemma rd_eq_Some [simp]: "rd xs i = Some v \<longleftrightarrow> i < length xs \<and> xs ! i = v"
  by (auto simp: rd_def)

lemma chk_eq_Some [simp]: "chk b = Some u \<longleftrightarrow> b"
  by (auto simp: chk_def)

lemma ex_bool [simp]: "\<exists>a. a" "Ex Not"
  by (rule exI [of _ True], simp) (rule exI [of _ False], simp)

lemma chk_True [simp]: "chk True = Some ()"
  by (simp add: chk_def)

lemma unat_less_64: "unat (w :: u64) < 2 ^ 64"
  using unsigned_less [of w] by simp

lemma int_unat_less_64: "int (unat (w :: u64)) < 2 ^ 64"
  using unsigned_less [of w] by simp

lemma unat_of_int_64: "0 \<le> k \<Longrightarrow> k < 2 ^ 64 \<Longrightarrow> unat (word_of_int k :: u64) = nat k"
  by (simp add: unsigned_of_int take_bit_int_eq_self)

lemma find_upto_first:
  assumes "i < j" "j \<le> n" "P j" "\<forall>k. i < k \<and> k < j \<longrightarrow> \<not> P k"
  shows "List.find P [i + 1..n] = Some j"
proof -
  let ?k = "nat (j - i - 1)"
  have "?k < length [i + 1..n]" "[i + 1..n] ! ?k = j" using assms(1,2) by (auto simp: nth_upto)
  moreover have "\<not> P ([i + 1..n] ! l)" if "l < ?k" for l
    using that assms(1,2,4) by (simp add: nth_upto)
  ultimately show ?thesis using assms(3) by (subst find_Some_iff) (metis (no_types))
qed

lemma wr_n_eq_Some:
  "wr_n xs off ys = Some zs \<longleftrightarrow> off + length ys \<le> length xs \<and> zs = take off xs @ ys @ drop (off + length ys) xs"
  by (auto simp: wr_n_def)

lemma wr_n_length: "wr_n xs off ys = Some zs \<Longrightarrow> length zs = length xs"
  by (auto simp: wr_n_def split: if_splits)

lemma wr_n_nth:
  "wr_n xs off ys = Some zs \<Longrightarrow> i < length xs \<Longrightarrow>
     zs ! i = (if off \<le> i \<and> i < off + length ys then ys ! (i - off) else xs ! i)"
  by (auto simp: wr_n_def nth_append split: if_splits)

lemma rd_n_eq_Some:
  "rd_n xs off n = Some ys \<longleftrightarrow> off + n \<le> length xs \<and> length ys = n \<and> (\<forall>i < n. ys ! i = xs ! (off + i))"
  by (auto simp: rd_n_def list_eq_iff_nth_eq)

lemma rd_n_cong:
  "off + n \<le> length xs \<Longrightarrow> off' + n \<le> length ys \<Longrightarrow> (\<And>j. j < n \<Longrightarrow> xs ! (off + j) = ys ! (off' + j)) \<Longrightarrow>
    rd_n xs off n = rd_n ys off' n"
  by (auto simp: rd_n_def intro!: nth_equalityI)

lemma rd_n_wr_n_same: "wr_n xs off ys = Some zs \<Longrightarrow> n = length ys \<Longrightarrow> rd_n zs off n = Some ys"
  by (auto simp: rd_n_def wr_n_def split: if_splits)

lemma rd_n_wr_n_disjoint:
  assumes "wr_n xs off ys = Some zs" "o' + n \<le> off \<or> off + length ys \<le> o'"
  shows "rd_n zs o' n = rd_n xs o' n"
  using assms(2) wr_n_length [OF assms(1)] wr_n_nth [OF assms(1)]
  by (auto simp: rd_n_def list_eq_iff_nth_eq)

lemma length_re_alloc [simp]: "length (re_alloc junk n xs) = n"
  by (simp add: re_alloc_def)

lemma rd_n_re_alloc: "o' + n \<le> length xs \<Longrightarrow> o' + n \<le> m \<Longrightarrow> rd_n (re_alloc junk m xs) o' n = rd_n xs o' n"
  by (auto simp: rd_n_def re_alloc_def list_eq_iff_nth_eq nth_append)

lemma mem_move_length: "mem_move xs dst src n = Some zs \<Longrightarrow> length zs = length xs"
  by (auto simp: mem_move_def wr_n_length split: Option.bind_splits)

lemma mem_move_eq_Some:
  assumes "src + n \<le> length xs" "dst + n \<le> length xs"
  obtains zs where "mem_move xs dst src n = Some zs" "length zs = length xs"
    "\<And>i. i < length xs \<Longrightarrow> zs ! i = (if dst \<le> i \<and> i < dst + n then xs ! (src + (i - dst)) else xs ! i)"
proof -
  define ys where "ys = take n (drop src xs)"
  have ys: "rd_n xs src n = Some ys" "length ys = n" "\<And>i. i < n \<Longrightarrow> ys ! i = xs ! (src + i)"
    using assms(1) by (auto simp: ys_def rd_n_def)
  obtain zs where zs: "wr_n xs dst ys = Some zs" using assms(2) ys(2) by (auto simp: wr_n_def)
  show thesis
  proof (rule that [of zs])
    show "mem_move xs dst src n = Some zs" using ys zs by (simp add: mem_move_def)
  qed (use zs ys wr_n_length [OF zs] wr_n_nth [OF zs] in auto)
qed

lemma length_le_bytes [simp]: "length (le_bytes n v) = n"
  by (induction n arbitrary: v) auto

lemma uint_word_of_int_8: "uint (word_of_int v :: u8) = v mod 256"
  by (simp add: unsigned_of_int take_bit_eq_mod)

lemma le_uint_le_bytes: "le_uint (le_bytes n v) = v mod 256 ^ n"
proof (induction n arbitrary: v)
  case (Suc n)
  have "v mod (256 * 256 ^ n) = v mod 256 + 256 * (v div 256 mod 256 ^ n)"
    by (simp add: zmod_zmult2_eq)
  with Suc show ?case by (simp add: uint_word_of_int_8)
qed simp

lemma le_uint_bounds: "0 \<le> le_uint bs \<and> le_uint bs < 256 ^ length bs"
proof (induction bs)
  case (Cons b bs)
  have "uint b < 256" using uint_lt2p [of b] by simp
  with Cons show ?case by auto
qed simp

lemma le_bytes_le_uint: "le_bytes (length bs) (le_uint bs) = bs"
proof (induction bs)
  case (Cons b bs)
  have "0 \<le> uint b" "uint b < 256" using uint_lt2p [of b] by simp_all
  then have "(uint b + 256 * le_uint bs) div 256 = le_uint bs" by simp
  moreover have "word_of_int (uint b + 256 * le_uint bs) = b"
    using \<open>0 \<le> uint b\<close> \<open>uint b < 256\<close> by (intro word_uint_eqI) (simp only: uint_word_of_int_8, simp)
  ultimately show ?case using Cons by simp
qed simp

lemma le_sint_le_bytes:
  assumes "0 < n" "- (2 ^ (8 * n - 1)) \<le> v" "v < 2 ^ (8 * n - 1)"
  shows "le_sint (le_bytes n v) = v"
proof -
  have q: "(256::int) ^ n = 2 ^ (8 * n)" by (simp add: power_mult)
  have "8 * n = Suc (8 * n - 1)" using assms(1) by simp
  then have p: "(256::int) ^ n = 2 * 2 ^ (8 * n - 1)" unfolding q by (metis power_Suc)
  have "v mod 256 ^ n = (if 0 \<le> v then v else v + 256 ^ n)"
  proof (cases "0 \<le> v")
    case True
    with assms p show ?thesis by simp
  next
    case False
    have "(v + 256 ^ n) mod 256 ^ n = v + 256 ^ n" using False assms p by (intro mod_pos_pos_trivial) auto
    with False show ?thesis by simp
  qed
  with q assms p show ?thesis by (auto simp: le_sint_def le_uint_le_bytes Let_def)
qed



subsection \<open>Implementing an abstract machine\<close>

text \<open>Operations \<open>step\<close> on a detailed state implement operations \<open>spec\<close> on its abstract view when they never fail on a
  well-formed state, keep it well-formed, and give the results and the view that \<open>spec\<close> gives. A run of any
  operations then gives the results of the abstract run. In \<open>bounded_impl\<close> the state is well-formed up to a number of
  steps, for counters that must not overflow, and only some operations are allowed.\<close>

fun run_steps :: "('o \<Rightarrow> 'd \<Rightarrow> ('d \<times> 'r) res) \<Rightarrow> 'o list \<Rightarrow> 'd \<Rightarrow> ('d \<times> 'r list) res" where
  "run_steps step [] d = Some (d, [])"
| "run_steps step (opr # oprs) d = do {
     (d, r) \<leftarrow> step opr d;
     (d, rs) \<leftarrow> run_steps step oprs d;
     Some (d, r # rs) }"

fun run_spec :: "('o \<Rightarrow> 'a \<Rightarrow> 'a \<times> 'r) \<Rightarrow> 'o list \<Rightarrow> 'a \<Rightarrow> 'a \<times> 'r list" where
  "run_spec spec [] a = (a, [])"
| "run_spec spec (opr # oprs) a = (let (a, r) = spec opr a; (a, rs) = run_spec spec oprs a in (a, r # rs))"

locale bounded_impl =
  fixes bound :: nat
    and allowed :: "'o \<Rightarrow> bool"
    and ok :: "nat \<Rightarrow> 'd \<Rightarrow> bool"
    and view :: "'d \<Rightarrow> 'a"
    and step :: "'o \<Rightarrow> 'd \<Rightarrow> ('d \<times> 'r) option"
    and spec :: "'o \<Rightarrow> 'a \<Rightarrow> 'a \<times> 'r"
  assumes bounded_step: "ok n d \<Longrightarrow> n < bound \<Longrightarrow> allowed opr \<Longrightarrow>
    \<exists>d' r. step opr d = Some (d', r) \<and> ok (Suc n) d' \<and> spec opr (view d) = (view d', r)"
begin

lemma bounded_run:
  "ok n d \<Longrightarrow> n + length oprs \<le> bound \<Longrightarrow> list_all allowed oprs \<Longrightarrow>
   \<exists>d' rs. run_steps step oprs d = Some (d', rs) \<and> ok (n + length oprs) d' \<and> run_spec spec oprs (view d) = (view d', rs)"
proof (induction oprs arbitrary: n d)
  case (Cons opr oprs)
  obtain d1 r where 1: "step opr d = Some (d1, r)" "ok (Suc n) d1" "spec opr (view d) = (view d1, r)"
    using bounded_step [OF Cons.prems(1), of opr] Cons.prems(2,3) by auto
  obtain d2 rs where "run_steps step oprs d1 = Some (d2, rs)" "ok (Suc n + length oprs) d2" "run_spec spec oprs (view d1) = (view d2, rs)"
    using Cons.IH [OF 1(2)] Cons.prems(2,3) by auto
  then show ?case using 1 by simp
qed simp

end

locale implements =
  fixes ok :: "'d \<Rightarrow> bool"
    and view :: "'d \<Rightarrow> 'a"
    and step :: "'o \<Rightarrow> 'd \<Rightarrow> ('d \<times> 'r) option"
    and spec :: "'o \<Rightarrow> 'a \<Rightarrow> 'a \<times> 'r"
  assumes step_ok: "ok d \<Longrightarrow> \<exists>d' r. step opr d = Some (d', r) \<and> ok d' \<and> spec opr (view d) = (view d', r)"

sublocale implements \<subseteq> bnd: bounded_impl b "\<lambda>_. True" "\<lambda>_. ok" view step spec for b
  by unfold_locales (rule step_ok)

context implements
begin

lemma run_ok: "ok d \<Longrightarrow> \<exists>d' rs. run_steps step oprs d = Some (d', rs) \<and> ok d' \<and> run_spec spec oprs (view d) = (view d', rs)"
  using bnd.bounded_run [of d 0 oprs "length oprs"] by (simp add: list_all_iff)

end

end
