(* ===== verification/Fwtree.thy ===== *)
theory Fwtree
  imports Prelude
begin

text \<open>
  The Fenwick tree of \<^verbatim>\<open>fwtree.c\<close>: the index over the sizes of the dictionaries of a
  key-value store (\<^verbatim>\<open>kvstore.c\<close>) that finds the dictionary holding the n-th key and the next
  non-empty dictionary.  \<open>tree\<close> is the 1-based array of unsigned 64-bit partial sums, of
  \<open>size + 1\<close> cells; a read or write outside it, and a failed \<open>assert\<close>, make the operation
  return \<open>None\<close>.  A NULL tree is \<open>None\<close> of the \<open>ptr\<close> type.  Indices are unbounded integers:
  they never pass \<open>2 * size\<close>, so C's \<open>int\<close> does not overflow for the at most \<open>2 ^ 16\<close>
  dictionaries a key-value store has; neither does the \<open>1 << sizeBits\<close> of \<open>fwTreeCreate\<close>.

  The cells are related to the element counts by \<open>fw_sums\<close>; \<open>fw_valid\<close> is the invariant, and
  the locale \<open>slot_index\<close> is what the key-value store relies on.
\<close>

unbundle bit_operations_syntax

subsection \<open>State and operations\<close>

record fenwickTree =
  ft_tree :: "u64 list"
  ft_size_bits :: nat
  ft_size :: int
  ft_total :: u64

definition fwTreeCreate :: "nat \<Rightarrow> fenwickTree" where
  "fwTreeCreate sizeBits =
     (let size = 2 ^ sizeBits
      in \<lparr>ft_tree = replicate (size + 1) 0, ft_size_bits = sizeBits, ft_size = int size, ft_total = 0\<rparr>)"

definition lowbit :: "int \<Rightarrow> int" where
  "lowbit i = i AND - i"

text \<open>\<open>idx & -idx\<close>, the lowest set bit; the facts the loops need to terminate.\<close>

lemma lowbit_double: "lowbit (2 * i) = 2 * lowbit i"
proof -
  have "- (2 * i) div 2 = - i" by simp
  then show ?thesis by (simp add: lowbit_def and_int_rec [of "2 * i" "- (2 * i)"])
qed

lemma lowbit_odd: "lowbit (2 * i + 1) = 1"
proof -
  have "(2 * i + 1) AND - (2 * i + 1) = 1 + 2 * (i AND (- i - 1))"
  proof -
    have "(2 * i + 1) div 2 = i" "(- (2 * i + 1)) div 2 = - i - 1" by linarith+
    then show ?thesis by (subst and_int_rec) simp
  qed
  moreover have "i AND (- i - 1) = 0"
  proof -
    have "- i - 1 = NOT i" by (simp add: not_int_def)
    then show ?thesis by (auto intro!: bit_eqI simp: bit_simps)
  qed
  ultimately show ?thesis by (simp add: lowbit_def)
qed

lemma lowbit_bounds: "0 < i \<Longrightarrow> 0 < lowbit i \<and> lowbit i \<le> i"
proof (induction "nat i" arbitrary: i rule: less_induct)
  case less
  show ?case
  proof (cases "even i")
    case True
    then obtain j where "i = 2 * j" by auto
    with less show ?thesis by (auto simp: lowbit_double)
  next
    case False
    then obtain j where "i = 2 * j + 1" by (auto elim: oddE)
    with less show ?thesis by (auto simp: lowbit_odd)
  qed
qed

function fwTreePrefixSum_loop :: "u64 list \<Rightarrow> int \<Rightarrow> u64 \<Rightarrow> u64 res" where
  "fwTreePrefixSum_loop tr idx acc =
     (if idx > 0 then do { v \<leftarrow> rd tr (nat idx); fwTreePrefixSum_loop tr (idx - lowbit idx) (acc + v) }
      else Some acc)"
  by pat_completeness auto
termination
  by (relation "measure (\<lambda>(tr, idx, acc). nat idx)") (auto dest: lowbit_bounds)

definition fwTreePrefixSum :: "fenwickTree ptr \<Rightarrow> int \<Rightarrow> u64 res" where
  "fwTreePrefixSum p idx =
     (case p of None \<Rightarrow> Some 0
      | Some ft \<Rightarrow> (if idx < 0 then Some 0
          else let idx = (if idx \<ge> ft_size ft then ft_size ft - 1 else idx)
               in fwTreePrefixSum_loop (ft_tree ft) (idx + 1) 0))"

function fwTreeUpdate_loop :: "u64 list \<Rightarrow> int \<Rightarrow> int \<Rightarrow> int \<Rightarrow> u64 list res" where
  "fwTreeUpdate_loop tr n idx delta =
     (if idx \<le> 0 then None
      else if idx \<le> n then
       do { v \<leftarrow> rd tr (nat idx);
            chk (delta < 0 \<longrightarrow> word_of_int (- delta) \<le> v);
            tr' \<leftarrow> wr tr (nat idx) (v + word_of_int delta);
            fwTreeUpdate_loop tr' n (idx + lowbit idx) delta }
      else Some tr)"
  by pat_completeness auto
termination
  by (relation "measure (\<lambda>(tr, n, idx, delta). nat (n + 1 - idx))") (use lowbit_bounds in \<open>force\<close>)+

definition fwTreeUpdate :: "fenwickTree ptr \<Rightarrow> int \<Rightarrow> int \<Rightarrow> fenwickTree ptr res" where
  "fwTreeUpdate p idx delta =
     (case p of None \<Rightarrow> Some None
      | Some ft \<Rightarrow> (if idx < 0 \<or> idx \<ge> ft_size ft then Some (Some ft)
          else do { tr \<leftarrow> fwTreeUpdate_loop (ft_tree ft) (ft_size ft) (idx + 1) delta;
                    Some (Some (ft\<lparr>ft_total := ft_total ft + word_of_int delta, ft_tree := tr\<rparr>)) }))"

fun fwTreeFindIndex_loop :: "u64 list \<Rightarrow> nat \<Rightarrow> nat \<Rightarrow> u64 \<Rightarrow> nat res" where
  "fwTreeFindIndex_loop tr i result target =
     (if i = 0 then Some result
      else do { let current = result + i;
                v \<leftarrow> rd tr current;
                if target > v then fwTreeFindIndex_loop tr (i div 2) current (target - v)
                else fwTreeFindIndex_loop tr (i div 2) result target })"

definition fwTreeFindIndex :: "fenwickTree \<Rightarrow> u64 \<Rightarrow> int res" where
  "fwTreeFindIndex ft target =
     (if target \<le> 0 then Some 0
      else do { r \<leftarrow> fwTreeFindIndex_loop (ft_tree ft) (2 ^ ft_size_bits ft) 0 target; Some (int r) })"

definition fwTreeFindFirstNonEmpty :: "fenwickTree \<Rightarrow> int res" where
  "fwTreeFindFirstNonEmpty ft = fwTreeFindIndex ft 1"

definition fwTreeFindNextNonEmpty :: "fenwickTree ptr \<Rightarrow> int \<Rightarrow> int res" where
  "fwTreeFindNextNonEmpty p idx =
     (case p of None \<Rightarrow> Some (- 1)
      | Some ft \<Rightarrow> (if idx < 0 \<or> idx \<ge> ft_size ft then Some (- 1)
          else do { s \<leftarrow> fwTreePrefixSum (Some ft) idx;
                    let next_sum = s + 1;
                    if next_sum \<le> ft_total ft then fwTreeFindIndex ft next_sum else Some (- 1) }))"

definition fwTreeClear :: "fenwickTree \<Rightarrow> fenwickTree" where
  "fwTreeClear ft = ft\<lparr>ft_tree := replicate (nat (ft_size ft) + 1) 0, ft_total := 0\<rparr>"

declare fwTreePrefixSum_loop.simps [simp del] fwTreeUpdate_loop.simps [simp del] fwTreeFindIndex_loop.simps [simp del]

subsection \<open>Cells and counts\<close>

text \<open>Cell \<open>k\<close> sums the elements \<open>k - lowbit k \<le> j < k\<close>; the update loop visits exactly the
  cells whose range holds the updated element.\<close>

definition covers :: "int \<Rightarrow> int \<Rightarrow> bool" where
  "covers k i \<longleftrightarrow> k - lowbit k < i \<and> i \<le> k"

lemma lowbit_even: "0 < i \<Longrightarrow> even i \<Longrightarrow> even (lowbit i)"
  by (auto elim!: evenE simp: lowbit_double)

lemma covers_next:
  assumes "0 < i" "i < k"
  shows "covers k i \<longleftrightarrow> covers k (i + lowbit i)"
  using assms
proof (induction "nat i" arbitrary: i k rule: less_induct)
  case less
  show ?case
  proof (cases "even k")
    case False
    then obtain k' where k: "k = 2 * k' + 1" by (auto elim: oddE)
    have "even (i + lowbit i)"
      using less.prems lowbit_even by (cases "even i") (auto elim!: oddE simp: lowbit_odd)
    with less.prems show ?thesis unfolding covers_def k lowbit_odd by presburger
  next
    case True
    then obtain k' where k: "k = 2 * k'" by auto
    show ?thesis
    proof (cases "even i")
      case True
      then obtain i' where i: "i = 2 * i'" by auto
      have "covers k' i' = covers k' (i' + lowbit i')"
        using less.prems less.hyps [of i' k'] i k by auto
      then show ?thesis by (auto simp: covers_def i k lowbit_double)
    next
      case False
      then obtain i' where i: "i = 2 * i' + 1" by (auto elim: oddE)
      show ?thesis using less.prems unfolding covers_def i k lowbit_odd lowbit_double by presburger
    qed
  qed
qed

definition fw_sums :: "u64 list \<Rightarrow> int \<Rightarrow> (int \<Rightarrow> u64) \<Rightarrow> bool" where
  "fw_sums tr n a \<longleftrightarrow> length tr = nat n + 1 \<and> 
     (\<forall>k. 0 < k \<and> k \<le> n \<longrightarrow> tr ! nat k = (\<Sum>j = k - lowbit k..<k. a j))"

definition fw_rep :: "fenwickTree \<Rightarrow> (int \<Rightarrow> u64) \<Rightarrow> bool" where
  "fw_rep ft a \<longleftrightarrow> ft_size ft = 2 ^ ft_size_bits ft \<and> fw_sums (ft_tree ft) (ft_size ft) a \<and>
     ft_total ft = (\<Sum>j = 0..<ft_size ft. a j)"

lemma sum_split_int: "(a::int) \<le> b \<Longrightarrow> b \<le> c \<Longrightarrow> (\<Sum>j = a..<b. f j) + (\<Sum>j = b..<c. f j) = (\<Sum>j = a..<c. f j :: u64)"
  by (subst sum.union_disjoint [symmetric]) (auto intro!: sum.cong)

lemma prefix_loop:
  assumes "fw_sums tr n a" "0 \<le> idx" "idx \<le> n"
  shows "fwTreePrefixSum_loop tr idx acc = Some (acc + (\<Sum>j = 0..<idx. a j))"
  using assms(2,3)
proof (induction "nat idx" arbitrary: idx acc rule: less_induct)
  case less
  show ?case
  proof (cases "idx = 0")
    case True
    then show ?thesis by (simp add: fwTreePrefixSum_loop.simps)
  next
    case False
    with less.prems have b: "0 < lowbit idx" "lowbit idx \<le> idx" using lowbit_bounds [of idx] by auto
    have v: "nat idx < length tr" "tr ! nat idx = (\<Sum>j = idx - lowbit idx..<idx. a j)"
      using assms(1) less.prems False by (auto simp: fw_sums_def)
    have "fwTreePrefixSum_loop tr (idx - lowbit idx) (acc + tr ! nat idx) =
        Some (acc + tr ! nat idx + (\<Sum>j = 0..<idx - lowbit idx. a j))"
      using less.hyps b less.prems False by auto
    moreover have "(\<Sum>j = 0..<idx - lowbit idx. a j) + tr ! nat idx = (\<Sum>j = 0..<idx. a j)"
      unfolding v by (rule sum_split_int) (use b in auto)
    ultimately show ?thesis
      using False less.prems v(1) by (subst fwTreePrefixSum_loop.simps) (simp add: rd_def algebra_simps)
  qed
qed


lemma covers_self: "0 < k \<Longrightarrow> covers k k"
  using lowbit_bounds [of k] by (simp add: covers_def)

lemma covers_step:
  assumes "0 < i" "0 < k"
  shows "covers k i \<longleftrightarrow> k = i \<or> covers k (i + lowbit i)"
proof (cases i k rule: linorder_cases)
  case less
  with assms covers_next [of i k] show ?thesis by auto
next
  case equal
  with assms show ?thesis by (simp add: covers_self)
next
  case greater
  with assms lowbit_bounds [of i] show ?thesis by (auto simp: covers_def)
qed

lemma update_loop:
  assumes "0 < idx" "length tr = nat n + 1"
    and "\<And>k. delta < 0 \<Longrightarrow> k \<le> n \<Longrightarrow> covers k idx \<Longrightarrow> word_of_int (- delta) \<le> tr ! nat k"
  shows "\<exists>tr'. fwTreeUpdate_loop tr n idx delta = Some tr' \<and> length tr' = length tr \<and>
    (\<forall>k. 0 < k \<and> k \<le> n \<longrightarrow> tr' ! nat k = tr ! nat k + (if covers k idx then word_of_int delta else 0))"
  using assms
proof (induction "nat (n + 1 - idx)" arbitrary: idx tr rule: less_induct)
  case less
  show ?case
  proof (cases "idx \<le> n")
    case False
    with less.prems(1) show ?thesis
      by (subst fwTreeUpdate_loop.simps) (auto simp: covers_def)
  next
    case True
    let ?v = "tr ! nat idx" and ?i = "idx + lowbit idx"
    let ?tr = "tr[nat idx := ?v + word_of_int delta]"
    have lb: "0 < lowbit idx" using less.prems(1) lowbit_bounds by blast
    have len: "nat idx < length tr" using True less.prems by simp
    have ok: "delta < 0 \<longrightarrow> word_of_int (- delta) \<le> ?v"
      using less.prems(3) [of idx] True less.prems(1) covers_self by auto
    have pre: "word_of_int (- delta) \<le> ?tr ! nat k"
      if "delta < 0" "k \<le> n" "covers k ?i" for k
    proof -
      have "idx < k" using that lb by (auto simp: covers_def)
      with that less.prems show ?thesis
        using covers_step [of idx k] by (auto simp: nth_list_update)
    qed
    obtain tr' where tr': "fwTreeUpdate_loop ?tr n ?i delta = Some tr'" "length tr' = length tr"
      "\<And>k. 0 < k \<Longrightarrow> k \<le> n \<Longrightarrow> tr' ! nat k = ?tr ! nat k + (if covers k ?i then word_of_int delta else 0)"
      using less.hyps [of ?i ?tr] lb True less.prems(1,2) pre by auto
    have "fwTreeUpdate_loop tr n idx delta = Some tr'"
      using less.prems(1) True len ok tr'(1)
      by (subst fwTreeUpdate_loop.simps) (simp add: rd_def wr_def)
    moreover have "\<not> covers idx ?i" using lb by (simp add: covers_def)
    ultimately show ?thesis
      using tr'(2,3) less.prems(1) len covers_step [of idx]
      by (auto simp: nth_list_update eq_nat_nat_iff)
  qed
qed

lemma lowbit_pow: "lowbit (2 ^ b * (2 * m + 1)) = 2 ^ b"
  by (induction b) (simp_all add: lowbit_odd lowbit_double mult.assoc)

lemma unat_sum:
  "finite A \<Longrightarrow> (\<Sum>j \<in> A. unat (a j)) < 2 ^ 64 \<Longrightarrow> unat (\<Sum>j \<in> A. a j :: u64) = (\<Sum>j \<in> A. unat (a j))"
  by (induction A rule: finite_induct) (auto simp: unat_word_ariths)

definition prefix :: "(int \<Rightarrow> u64) \<Rightarrow> int \<Rightarrow> nat" where
  "prefix a i = (\<Sum>j = 0..<i. unat (a j))"

lemma prefix_split: "0 \<le> i \<Longrightarrow> i \<le> k \<Longrightarrow> prefix a k = prefix a i + (\<Sum>j = i..<k. unat (a j))"
  unfolding prefix_def by (subst sum.union_disjoint [symmetric]) (auto intro!: sum.cong)

lemma prefix_mono: "i \<le> k \<Longrightarrow> prefix a i \<le> prefix a k"
  unfolding prefix_def by (rule sum_mono2) auto

lemma unat_node:
  assumes "fw_sums tr n a" "prefix a n < 2 ^ 64" "0 < k" "k \<le> n"
  shows "prefix a (k - lowbit k) + unat (tr ! nat k) = prefix a k"
proof -
  have b: "0 \<le> k - lowbit k" "k - lowbit k \<le> k" using lowbit_bounds [of k] assms by auto
  have "(\<Sum>j = k - lowbit k..<k. unat (a j)) < 2 ^ 64"
    using prefix_split [OF b, of a] prefix_mono [OF assms(4), of a] assms(2) by linarith
  with assms prefix_split [OF b, of a] show ?thesis
    by (simp add: fw_sums_def unat_sum)
qed

lemma find_loop_0 [simp]: "fwTreeFindIndex_loop tr 0 r t = Some r"
  by (simp add: fwTreeFindIndex_loop.simps)

lemma find_loop:
  assumes "fw_sums tr n a" "prefix a n < 2 ^ 64"
    and "result = 2 ^ (b + 1) * m" "int result + 2 ^ (b + 1) \<le> n"
    and "prefix a (int result) < T" "T \<le> prefix a (int result + 2 ^ (b + 1))"
    and "unat target = T - prefix a (int result)"
  shows "\<exists>r. fwTreeFindIndex_loop tr (2 ^ b) result target = Some r \<and> int r < n \<and>
    prefix a (int r) < T \<and> T \<le> prefix a (int r + 1)"
  using assms(3-7)
proof (induction b arbitrary: result m target)
  case (0 result m target)
  let ?c = "int result + 1"
  have lb: "lowbit ?c = 1" using lowbit_odd [of "int m"] 0(1) by simp
  have len: "result + 1 < length tr" using assms(1) 0(2) by (auto simp: fw_sums_def)
  have node: "prefix a (int result) + unat (tr ! (result + 1)) = prefix a ?c"
    using unat_node [OF assms(1,2), of ?c] 0(2) lb by (simp add: nat_add_distrib)
  have ge: "\<not> target > tr ! (result + 1) \<longleftrightarrow> T \<le> prefix a ?c"
    using node 0 by (auto simp: word_less_nat_alt not_less)
  show ?case
    using 0 len ge by (subst fwTreeFindIndex_loop.simps)
      (auto simp: rd_def find_loop_0 not_le algebra_simps)
next
  case (Suc b result m target)
  let ?c = "int result + 2 ^ Suc b"
  have c: "?c = 2 ^ Suc b * (2 * int m + 1)" using Suc.prems(1) by (simp add: algebra_simps)
  have lb: "lowbit ?c = 2 ^ Suc b" unfolding c by (rule lowbit_pow)
  have nc: "nat ?c = result + 2 ^ Suc b" by (simp add: nat_add_distrib nat_mult_distrib nat_power_eq)
  have cn: "?c \<le> n" using Suc.prems(2) zero_le_power [of "2::int" b] by (simp del: zero_le_power)
  have len: "result + 2 ^ Suc b < length tr"
    using assms(1) cn nc by (simp add: fw_sums_def)
  have node: "prefix a (int result) + unat (tr ! (result + 2 ^ Suc b)) = prefix a ?c"
    using unat_node [OF assms(1,2) _ cn] lb nc by (simp add: add_nonneg_pos)
  have hf: "(2::nat) ^ Suc b div 2 = 2 ^ b" by simp
  show ?case
  proof (cases "target > tr ! (result + 2 ^ Suc b)")
    case True
    then have tgt: "unat (target - tr ! (result + 2 ^ Suc b)) = T - prefix a ?c" "prefix a ?c < T"
      using node Suc.prems(3,5) by (auto simp: word_less_nat_alt unat_sub word_le_nat_alt)
    obtain r where "fwTreeFindIndex_loop tr (2 ^ b) (result + 2 ^ Suc b) (target - tr ! (result + 2 ^ Suc b)) = Some r"
      "int r < n" "prefix a (int r) < T" "T \<le> prefix a (int r + 1)"
      using Suc.IH [of "result + 2 ^ Suc b" "2 * m + 1"] Suc.prems tgt by (auto simp: algebra_simps)
    with True len hf show ?thesis by (subst fwTreeFindIndex_loop.simps) (auto simp: rd_def)
  next
    case False
    then have tgt: "T \<le> prefix a ?c"
      using node Suc.prems(3,5) by (auto simp: word_less_nat_alt)
    obtain r where "fwTreeFindIndex_loop tr (2 ^ b) result target = Some r"
      "int r < n" "prefix a (int r) < T" "T \<le> prefix a (int r + 1)"
      using Suc.IH [of result "2 * m"] Suc.prems tgt cn by (auto simp: algebra_simps)
    with False len hf show ?thesis by (subst fwTreeFindIndex_loop.simps) (auto simp: rd_def)
  qed
qed

lemma fw_rep_update:
  assumes "fw_rep ft a" "0 \<le> idx" "idx < ft_size ft"
    and "prefix a (ft_size ft) < 2 ^ 64" "- int (unat (a idx)) \<le> delta"
  shows "\<exists>ft'. fwTreeUpdate (Some ft) idx delta = Some (Some ft') \<and> 
     fw_rep ft' (a(idx := a idx + word_of_int delta)) \<and> ft_size ft' = ft_size ft"
proof -
  let ?n = "ft_size ft" and ?tr = "ft_tree ft" and ?a = "a(idx := a idx + word_of_int delta)"
  have rep: "fw_sums ?tr ?n a" "length ?tr = nat ?n + 1" using assms(1) by (auto simp: fw_rep_def fw_sums_def)
  have upd: "(\<Sum>j = l..<u. ?a j) = (\<Sum>j = l..<u. a j) + (if l \<le> idx \<and> idx < u then word_of_int delta else 0)" for l u
  proof (cases "l \<le> idx \<and> idx < u")
    case True
    then show ?thesis by (simp add: sum.remove [of _ idx] algebra_simps)
  next
    case False
    then show ?thesis by (auto intro!: sum.cong)
  qed
  have pre: "word_of_int (- delta) \<le> ?tr ! nat k" if "delta < 0" "k \<le> ?n" "covers k (idx + 1)" for k
  proof -
    have k: "0 < k" using that(3) assms(2) by (auto simp: covers_def)
    have in_k: "idx \<in> {k - lowbit k..<k}" using that(3) by (auto simp: covers_def)
    have "unat (a idx) \<le> (\<Sum>j = k - lowbit k..<k. unat (a j))"
      using in_k by (intro member_le_sum) auto
    also have "\<dots> = unat (?tr ! nat k)"
      using unat_node [OF rep(1) assms(4) k that(2)] prefix_split [of "k - lowbit k" k a] lowbit_bounds [OF k] by simp
    finally have "unat (a idx) \<le> unat (?tr ! nat k)" .
    moreover have "unat (word_of_int (- delta) :: u64) = nat (- delta)"
      using that(1) assms(5) int_unat_less_64 [of "a idx"] by (intro unat_of_int_64) linarith+
    moreover have "nat (- delta) \<le> unat (a idx)" using assms(5) by linarith
    ultimately show ?thesis by (simp add: word_le_nat_alt)
  qed
  obtain tr' where tr': "fwTreeUpdate_loop ?tr ?n (idx + 1) delta = Some tr'" "length tr' = length ?tr"
    "\<And>k. 0 < k \<Longrightarrow> k \<le> ?n \<Longrightarrow> tr' ! nat k = ?tr ! nat k + (if covers k (idx + 1) then word_of_int delta else 0)"
    using update_loop [of "idx + 1" ?tr ?n delta] rep(2) pre assms(2) by auto
  have "fw_sums tr' ?n ?a"
    using rep tr'(2,3) by (auto simp: fw_sums_def upd covers_def simp del: fun_upd_apply)
  with assms tr' show ?thesis
    by (auto simp: fwTreeUpdate_def fw_rep_def upd simp del: fun_upd_apply)
qed

definition fw_elem :: "fenwickTree \<Rightarrow> int \<Rightarrow> u64" where
  "fw_elem ft i = the (fwTreePrefixSum (Some ft) i) - the (fwTreePrefixSum (Some ft) (i - 1))"

definition fw_valid :: "fenwickTree \<Rightarrow> bool" where
  "fw_valid ft \<longleftrightarrow> fw_rep ft (fw_elem ft) \<and> Suc (prefix (fw_elem ft) (ft_size ft)) < 2 ^ 64"

lemma prefix_sum_rep:
  assumes "fw_rep ft a" "0 \<le> idx" "idx < ft_size ft"
  shows "fwTreePrefixSum (Some ft) idx = Some (\<Sum>j = 0..<idx + 1. a j)"
  using assms prefix_loop [of "ft_tree ft" "ft_size ft" a "idx + 1" 0]
  by (auto simp: fwTreePrefixSum_def fw_rep_def)

lemma fw_elem_rep:
  assumes "fw_rep ft a" "0 \<le> i" "i < ft_size ft"
  shows "fw_elem ft i = a i"
proof -
  have "the (fwTreePrefixSum (Some ft) (i - 1)) = (\<Sum>j = 0..<i. a j)"
  proof (cases "i = 0")
    case True
    then show ?thesis by (simp add: fwTreePrefixSum_def)
  next
    case False
    with assms prefix_sum_rep [of ft a "i - 1"] show ?thesis by simp
  qed
  moreover have "(\<Sum>j = 0..<i. a j) + (\<Sum>j = i..<i + 1. a j) = (\<Sum>j = 0..<i + 1. a j)"
    using assms(2) by (intro sum_split_int) auto
  moreover have "{i..<i + 1} = {i}" by auto
  ultimately show ?thesis
    using prefix_sum_rep [OF assms] by (simp add: fw_elem_def algebra_simps)
qed

lemma fw_sums_cong:
  assumes "\<And>i. 0 \<le> i \<Longrightarrow> i < n \<Longrightarrow> a i = b i"
  shows "fw_sums tr n a = fw_sums tr n b"
proof -
  have "(\<Sum>j = k - lowbit k..<k. a j) = (\<Sum>j = k - lowbit k..<k. b j)" if "0 < k" "k \<le> n" for k
    using that lowbit_bounds [of k] by (intro sum.cong) (auto intro!: assms)
  then show ?thesis by (simp add: fw_sums_def cong: conj_cong)
qed

lemma fw_rep_cong:
  assumes "\<And>i. 0 \<le> i \<Longrightarrow> i < ft_size ft \<Longrightarrow> a i = b i"
  shows "fw_rep ft a = fw_rep ft b"
  using fw_sums_cong [of "ft_size ft" a b "ft_tree ft"] assms
  by (simp add: fw_rep_def)

lemma prefix_cong: "(\<And>i. 0 \<le> i \<Longrightarrow> i < n \<Longrightarrow> a i = b i) \<Longrightarrow> prefix a n = prefix b n"
  by (simp add: prefix_def)

lemma fw_valid_rep: "fw_rep ft a \<Longrightarrow> Suc (prefix a (ft_size ft)) < 2 ^ 64 \<Longrightarrow> fw_valid ft"
  using fw_rep_cong [of ft "fw_elem ft" a] prefix_cong [of "ft_size ft" "fw_elem ft" a]
  by (simp add: fw_valid_def fw_elem_rep)

lemma fw_sums_zero: "0 \<le> n \<Longrightarrow> fw_sums (replicate (nat n + 1) 0) n (\<lambda>_. 0)"
  by (auto simp: fw_sums_def nth_append simp del: replicate_Suc)

lemma fwTreeCreate_rep: "fw_rep (fwTreeCreate b) (\<lambda>_. 0)"
  using fw_sums_zero [of "2 ^ b"] by (simp add: fw_rep_def fwTreeCreate_def Let_def nat_power_eq)

lemma unat_prefix_sum:
  assumes "prefix a n < 2 ^ 64" "i \<le> n"
  shows "unat (\<Sum>j = 0..<i. a j) = prefix a i"
  unfolding prefix_def using prefix_mono [OF assms(2), of a] assms(1)
  by (intro unat_sum) (auto simp: prefix_def)

lemma find_index_rep:
  assumes "fw_rep ft a" "prefix a (ft_size ft) < 2 ^ 64" "0 < target" "target \<le> ft_total ft"
  shows "\<exists>r. fwTreeFindIndex ft target = Some r \<and> 0 \<le> r \<and> r < ft_size ft \<and>
    prefix a r < unat target \<and> unat target \<le> prefix a (r + 1)"
proof -
  let ?b = "ft_size_bits ft" and ?tr = "ft_tree ft"
  have rep: "fw_sums ?tr (2 ^ ?b) a" "ft_size ft = 2 ^ ?b" "ft_total ft = (\<Sum>j = 0..<2 ^ ?b. a j)"
    using assms(1) by (auto simp: fw_rep_def)
  have tot: "unat target \<le> prefix a (2 ^ ?b)"
    using assms(2,4) rep(2,3) unat_prefix_sum [of a "2 ^ ?b" "2 ^ ?b"] by (simp add: word_le_nat_alt)
  have pos: "0 < unat target" using assms(3) by (simp add: word_less_nat_alt)
  have lb: "lowbit (2 ^ ?b) = 2 ^ ?b" using lowbit_pow [of ?b 0] by simp
  have len: "2 ^ ?b < length ?tr" using rep(1) by (simp add: fw_sums_def nat_power_eq)
  have node: "unat (?tr ! (2 ^ ?b)) = prefix a (2 ^ ?b)"
    using unat_node [OF rep(1), of "2 ^ ?b"] assms(2) rep(2) lb by (simp add: prefix_def nat_power_eq)
  have first: "fwTreeFindIndex_loop ?tr (2 ^ ?b) 0 target = fwTreeFindIndex_loop ?tr (2 ^ ?b div 2) 0 target"
    using len node tot by (subst fwTreeFindIndex_loop.simps) (auto simp: rd_def word_less_nat_alt)
  have "\<exists>r. fwTreeFindIndex_loop ?tr (2 ^ ?b) 0 target = Some r \<and> int r < 2 ^ ?b \<and>
    prefix a (int r) < unat target \<and> unat target \<le> prefix a (int r + 1)"
  proof (cases ?b)
    case 0
    with first tot pos show ?thesis by (auto simp: prefix_def)
  next
    case (Suc b)
    then show ?thesis
      using find_loop [OF rep(1), of 0 b 0 "unat target" target] first tot pos assms(2) rep(2)
      by (auto simp: prefix_def)
  qed
  with assms(3) rep(2) show ?thesis by (auto simp: fwTreeFindIndex_def)
qed

subsection \<open>A tree built by a history of updates\<close>

fun fwTreeRun :: "fenwickTree ptr \<Rightarrow> (int \<times> int) list \<Rightarrow> fenwickTree ptr res" where
  "fwTreeRun p [] = Some p"
| "fwTreeRun p ((idx, delta) # ops) = do { p' \<leftarrow> fwTreeUpdate p idx delta; fwTreeRun p' ops }"

definition count_of :: "(int \<times> int) list \<Rightarrow> int \<Rightarrow> int" where
  "count_of ops i = (\<Sum>(j, d) \<leftarrow> ops. if j = i then d else 0)"

definition counts_ok :: "int \<Rightarrow> (int \<times> int) list \<Rightarrow> bool" where
  "counts_ok n ops \<longleftrightarrow> (\<forall>i \<in> {0..<n}. 0 \<le> count_of ops i) \<and> (\<Sum>i = 0..<n. count_of ops i) < 2 ^ 64"

definition sane_ops :: "int \<Rightarrow> (int \<times> int) list \<Rightarrow> bool" where
  "sane_ops n ops \<longleftrightarrow> (\<forall>k \<in> {..length ops}. counts_ok n (take k ops))"

lemma sane_ops_snoc: "sane_ops n (ops @ [op]) \<longleftrightarrow> sane_ops n ops \<and> counts_ok n (ops @ [op])"
proof -
  have "{..length (ops @ [op])} = insert (length (ops @ [op])) {..length ops}" by auto
  then show ?thesis by (auto simp: sane_ops_def)
qed

lemma sane_ops_ok: "sane_ops n ops \<Longrightarrow> counts_ok n ops"
  unfolding sane_ops_def by (drule bspec [of _ _ "length ops"]) auto

lemma fwTreeRun_snoc:
  "fwTreeRun p (ops @ [(i, d)]) = do { p' \<leftarrow> fwTreeRun p ops; fwTreeUpdate p' i d }"
  by (induction p ops rule: fwTreeRun.induct) (auto split: Option.bind_splits)

lemma count_of_simps [simp]:
  "count_of [] i = 0"
  "count_of (ops @ [(j, d)]) i = count_of ops i + (if j = i then d else 0)"
  by (auto simp: count_of_def)

lemma prefix_count:
  assumes "\<And>i. 0 \<le> i \<Longrightarrow> i < n \<Longrightarrow> 0 \<le> c i" "(\<Sum>i = 0..<n. c i) < 2 ^ 64"
  shows "int (prefix (\<lambda>i. word_of_int (c i)) n) = (\<Sum>i = 0..<n. c i)"
proof -
  have "int (unat (word_of_int (c i) :: u64)) = c i" if "0 \<le> i" "i < n" for i
  proof -
    have "c i \<le> (\<Sum>i = 0..<n. c i)" using that assms(1) by (intro member_le_sum) auto
    with that assms show ?thesis by (subst unat_of_int_64) auto
  qed
  then show ?thesis by (simp add: prefix_def)
qed

lemma prefix_count_le:
  assumes "\<And>i. 0 \<le> i \<Longrightarrow> i < n \<Longrightarrow> 0 \<le> c i" "(\<Sum>i = 0..<n. c i) < 2 ^ 64" "k \<le> n"
  shows "int (prefix (\<lambda>i. word_of_int (c i)) k) = (\<Sum>i = 0..<k. c i)"
proof (rule prefix_count)
  have "(\<Sum>i = 0..<k. c i) \<le> (\<Sum>i = 0..<n. c i)" using assms by (intro sum_mono2) auto
  with assms(2) show "(\<Sum>i = 0..<k. c i) < 2 ^ 64" by simp
qed (use assms in auto)

lemma counts_ok_zero:
  assumes "counts_ok n ops" "0 \<le> k" "k < n"
  shows "word_of_int (count_of ops k) = (0 :: u64) \<longleftrightarrow> count_of ops k = 0"
proof -
  have "0 \<le> count_of ops k" "count_of ops k \<le> (\<Sum>i = 0..<n. count_of ops i)"
    using assms by (auto simp: counts_ok_def intro!: member_le_sum)
  with assms(1) have "unat (word_of_int (count_of ops k) :: u64) = nat (count_of ops k)"
    by (intro unat_of_int_64) (auto simp: counts_ok_def)
  moreover have "word_of_int (count_of ops k) = (0 :: u64) \<longleftrightarrow> unat (word_of_int (count_of ops k) :: u64) = 0"
    by (simp only: unat_eq_zero)
  ultimately show ?thesis using \<open>0 \<le> count_of ops k\<close> by simp
qed

lemma fwTreeRun_rep:
  "sane_ops (2 ^ b) ops \<Longrightarrow> \<exists>ft. fwTreeRun (Some (fwTreeCreate b)) ops = Some (Some ft) \<and>
     fw_rep ft (\<lambda>i. word_of_int (count_of ops i)) \<and> ft_size ft = 2 ^ b"
proof (induction ops rule: rev_induct)
  case Nil
  then show ?case using fwTreeCreate_rep [of b] by (simp add: fwTreeCreate_def Let_def)
next
  case (snoc op ops)
  obtain idx d where op: "op = (idx, d)" by force
  let ?c = "\<lambda>i. word_of_int (count_of ops i) :: u64" and ?c' = "\<lambda>i. word_of_int (count_of (ops @ [op]) i) :: u64"
  have sane: "sane_ops (2 ^ b) ops" "counts_ok (2 ^ b) ops" "counts_ok (2 ^ b) (ops @ [op])"
    using snoc.prems sane_ops_ok by (auto simp: sane_ops_snoc)
  obtain ft where ft: "fwTreeRun (Some (fwTreeCreate b)) ops = Some (Some ft)" "fw_rep ft ?c" "ft_size ft = 2 ^ b"
    using snoc.IH sane(1) by blast
  have cnt: "0 \<le> count_of ops i" if "0 \<le> i" "i < 2 ^ b" for i
    using sane(2) that by (simp add: counts_ok_def)
  have tot: "(\<Sum>i = 0..<2 ^ b. count_of ops i) < 2 ^ 64"
    using sane(2) by (simp add: counts_ok_def)
  show ?case
  proof (cases "0 \<le> idx \<and> idx < 2 ^ b")
    case False
    then have "fwTreeUpdate (Some ft) idx d = Some (Some ft)" using ft(3) by (auto simp: fwTreeUpdate_def)
    moreover have "fw_rep ft ?c'"
      using ft(2,3) False by (subst fw_rep_cong [of ft _ ?c]) (auto simp: op)
    ultimately show ?thesis using ft by (simp add: op fwTreeRun_snoc)
  next
    case True
    have cle: "count_of ops idx < 2 ^ 64"
    proof -
      have "count_of ops idx \<le> (\<Sum>i = 0..<2 ^ b. count_of ops i)"
        using True cnt by (intro member_le_sum) auto
      with tot show ?thesis by simp
    qed
    have "- int (unat (?c idx)) \<le> d"
      using sane(3) True cnt [of idx] cle by (auto simp: counts_ok_def op unat_of_int_64 dest: bspec [of _ _ idx])
    moreover have "prefix ?c (ft_size ft) < 2 ^ 64"
      using prefix_count [of "2 ^ b" "count_of ops"] cnt tot ft(3) by simp
    ultimately obtain ft' where "fwTreeUpdate (Some ft) idx d = Some (Some ft')"
      "fw_rep ft' (?c(idx := ?c idx + word_of_int d))" "ft_size ft' = ft_size ft"
      using fw_rep_update [OF ft(2), of idx d] True ft(3) by auto
    moreover have "?c(idx := ?c idx + word_of_int d) = ?c'" by (auto simp: op)
    ultimately show ?thesis using ft by (simp add: op fwTreeRun_snoc del: fun_upd_apply)
  qed
qed

lemma fw_valid_elem: "fw_valid ft \<Longrightarrow> fw_rep ft (fw_elem ft)"
  and fw_valid_total: "fw_valid ft \<Longrightarrow> Suc (prefix (fw_elem ft) (ft_size ft)) < 2 ^ 64"
  by (auto simp: fw_valid_def)

lemma prefix_Suc: "0 \<le> i \<Longrightarrow> prefix a (i + 1) = prefix a i + unat (a i)"
proof -
  assume "0 \<le> i"
  moreover have "{i..<i + 1} = {i}" by auto
  ultimately show ?thesis using prefix_split [of i "i + 1" a] by simp
qed

lemma prefix_eq_zero_between:
  assumes "prefix a i = prefix a k" "0 \<le> i" "i \<le> j" "j < k"
  shows "a j = 0"
proof -
  have "prefix a (j + 1) \<le> prefix a k" "prefix a i \<le> prefix a j"
    by (intro prefix_mono; use assms in linarith)+
  with assms prefix_Suc [of j a] have "unat (a j) = 0" by linarith
  then show ?thesis by (simp add: unat_eq_zero)
qed

lemma next_rep:
  assumes "fw_valid ft" "0 \<le> idx" "idx < ft_size ft"
  shows "(\<exists>j. fwTreeFindNextNonEmpty (Some ft) idx = Some j \<and> idx < j \<and> j < ft_size ft \<and>
            fw_elem ft j \<noteq> 0 \<and> (\<forall>k. idx < k \<and> k < j \<longrightarrow> fw_elem ft k = 0)) \<or>
         (fwTreeFindNextNonEmpty (Some ft) idx = Some (- 1) \<and> (\<forall>k. idx < k \<and> k < ft_size ft \<longrightarrow> fw_elem ft k = 0))"
proof -
  let ?a = "fw_elem ft" and ?n = "ft_size ft"
  let ?s = "\<Sum>j = 0..<idx + 1. ?a j"
  note rep = fw_valid_elem [OF assms(1)] and tot = fw_valid_total [OF assms(1)]
  have us: "unat ?s = prefix ?a (idx + 1)" using tot assms(3) by (intro unat_prefix_sum [of _ ?n]) auto
  have ut: "unat (ft_total ft) = prefix ?a ?n"
    using rep tot unat_prefix_sum [of ?a ?n ?n] by (auto simp: fw_rep_def)
  have le: "prefix ?a (idx + 1) \<le> prefix ?a ?n" using assms(3) by (intro prefix_mono) simp
  have sum: "fwTreePrefixSum (Some ft) idx = Some ?s" by (rule prefix_sum_rep [OF rep assms(2,3)])
  have s1: "unat (?s + 1) = Suc (prefix ?a (idx + 1))"
    using us le tot by (simp add: unat_word_ariths)
  show ?thesis
  proof (cases "?s + 1 \<le> ft_total ft")
    case True
    have pos: "0 < ?s + 1" using s1 by (simp add: word_less_nat_alt)
    have "prefix ?a ?n < 2 ^ 64" using tot by simp
    from find_index_rep [OF rep this pos True] obtain j where
      j: "fwTreeFindIndex ft (?s + 1) = Some j" "0 \<le> j" "j < ?n" "prefix ?a j \<le> prefix ?a (idx + 1)"
        "prefix ?a (idx + 1) < prefix ?a (j + 1)"
      unfolding s1 by (auto simp: less_Suc_eq_le)
    have gt: "idx < j" using j(5) prefix_mono [of "j + 1" "idx + 1" ?a] by linarith
    have eq: "prefix ?a (idx + 1) = prefix ?a j" using j(4) gt prefix_mono [of "idx + 1" j ?a] by linarith
    have "?a j \<noteq> 0" using j(2,5) eq prefix_Suc [of j ?a] by auto
    moreover have "\<forall>k. idx < k \<and> k < j \<longrightarrow> ?a k = 0"
      using prefix_eq_zero_between [OF eq] assms(2) by auto
    ultimately show ?thesis
      using True assms(2,3) sum j gt by (simp add: fwTreeFindNextNonEmpty_def)
  next
    case False
    then have "prefix ?a ?n \<le> prefix ?a (idx + 1)" using s1 ut by (simp add: word_le_nat_alt)
    with le have eq: "prefix ?a (idx + 1) = prefix ?a ?n" by simp
    then have "\<forall>k. idx < k \<and> k < ?n \<longrightarrow> ?a k = 0"
      using prefix_eq_zero_between [OF eq] assms(2) by auto
    with False assms(2,3) sum show ?thesis by (simp add: fwTreeFindNextNonEmpty_def)
  qed
qed

lemma fw_run_valid:
  assumes "sane_ops (2 ^ b) ops" "(\<Sum>i = 0..<2 ^ b. count_of ops i) < 2 ^ 64 - 1"
  shows "\<exists>ft. fwTreeRun (Some (fwTreeCreate b)) ops = Some (Some ft) \<and> fw_valid ft \<and> ft_size ft = 2 ^ b \<and>
    fw_rep ft (\<lambda>i. word_of_int (count_of ops i))"
proof -
  obtain ft where ft: "fwTreeRun (Some (fwTreeCreate b)) ops = Some (Some ft)"
    "fw_rep ft (\<lambda>i. word_of_int (count_of ops i))" "ft_size ft = 2 ^ b"
    using fwTreeRun_rep [OF assms(1)] by blast
  have "int (prefix (\<lambda>i. word_of_int (count_of ops i)) (2 ^ b)) = (\<Sum>i = 0..<2 ^ b. count_of ops i)"
    using sane_ops_ok [OF assms(1)] by (intro prefix_count) (auto simp: counts_ok_def)
  with assms(2) ft fw_valid_rep [OF ft(2)] show ?thesis by auto
qed

subsection \<open>The interface the key-value store uses\<close>

locale slot_index =
  fixes valid :: "'t \<Rightarrow> bool" and slots :: "'t \<Rightarrow> int" and count :: "'t \<Rightarrow> int \<Rightarrow> nat"
    and first :: "'t \<Rightarrow> int res" and next_slot :: "'t \<Rightarrow> int \<Rightarrow> int res"
  assumes first_ok: "valid t \<Longrightarrow> 0 \<le> i \<Longrightarrow> i < slots t \<Longrightarrow> 0 < count t i \<Longrightarrow>
      \<exists>j. first t = Some j \<and> 0 \<le> j \<and> j < slots t \<and> 0 < count t j \<and> (\<forall>k. 0 \<le> k \<and> k < j \<longrightarrow> count t k = 0)"
    and next_ok: "valid t \<Longrightarrow> 0 \<le> i \<Longrightarrow> i < slots t \<Longrightarrow>
      (\<exists>j. next_slot t i = Some j \<and> i < j \<and> j < slots t \<and> 0 < count t j \<and> (\<forall>k. i < k \<and> k < j \<longrightarrow> count t k = 0)) \<or>
      next_slot t i = Some (- 1) \<and> (\<forall>k. i < k \<and> k < slots t \<longrightarrow> count t k = 0)"
begin

lemma next_never_skips:
  assumes "valid t" "0 \<le> i" "i < k" "k < slots t" "0 < count t k"
  shows "\<exists>j. next_slot t i = Some j \<and> i < j \<and> j \<le> k"
  using next_ok [OF assms(1,2)] assms by (metis less_irrefl linorder_not_less order.strict_trans)

lemma next_total:
  "valid t \<Longrightarrow> 0 \<le> i \<Longrightarrow> i < slots t \<Longrightarrow> \<exists>j. next_slot t i = Some j \<and> (j = - 1 \<or> i < j \<and> j < slots t)"
  using next_ok by blast

end

lemma fw_first:
  assumes "fw_valid ft" "0 \<le> i" "i < ft_size ft" "0 < unat (fw_elem ft i)"
  shows "\<exists>j. fwTreeFindFirstNonEmpty ft = Some j \<and> 0 \<le> j \<and> j < ft_size ft \<and> 0 < unat (fw_elem ft j) \<and>
    (\<forall>k. 0 \<le> k \<and> k < j \<longrightarrow> unat (fw_elem ft k) = 0)"
proof -
  let ?a = "fw_elem ft" and ?n = "ft_size ft"
  note rep = fw_valid_elem [OF assms(1)]
  have tot: "prefix ?a ?n < 2 ^ 64" using fw_valid_total [OF assms(1)] by simp
  have ut: "unat (ft_total ft) = prefix ?a ?n"
    using rep tot unat_prefix_sum [of ?a ?n ?n] by (auto simp: fw_rep_def)
  have "0 < prefix ?a ?n"
    using prefix_Suc [of i ?a] prefix_mono [of "i + 1" ?n ?a] assms by linarith
  then have le: "(1 :: u64) \<le> ft_total ft" using ut by (simp add: word_le_nat_alt)
  obtain j where j: "fwTreeFindIndex ft 1 = Some j" "0 \<le> j" "j < ?n" "prefix ?a j = 0" "0 < prefix ?a (j + 1)"
    using find_index_rep [OF rep tot _ le] by auto
  have "prefix ?a 0 = prefix ?a j" using j(4) by (simp add: prefix_def)
  from prefix_eq_zero_between [OF this] j prefix_Suc [of j ?a] show ?thesis
    by (auto simp: fwTreeFindFirstNonEmpty_def)
qed

interpretation fwi: slot_index fw_valid ft_size "\<lambda>ft i. unat (fw_elem ft i)"
  fwTreeFindFirstNonEmpty "\<lambda>ft. fwTreeFindNextNonEmpty (Some ft)"
proof unfold_locales
  fix ft :: fenwickTree and i :: int
  assume *: "fw_valid ft" "0 \<le> i" "i < ft_size ft"
  from next_rep [OF *]
  show "(\<exists>j. fwTreeFindNextNonEmpty (Some ft) i = Some j \<and> i < j \<and> j < ft_size ft \<and> 0 < unat (fw_elem ft j) \<and>
      (\<forall>k. i < k \<and> k < j \<longrightarrow> unat (fw_elem ft k) = 0)) \<or>
    fwTreeFindNextNonEmpty (Some ft) i = Some (- 1) \<and> (\<forall>k. i < k \<and> k < ft_size ft \<longrightarrow> unat (fw_elem ft k) = 0)"
    by (auto simp: unat_gt_0)
qed (rule fw_first)

subsection \<open>Properties\<close>

text \<open>C15: a Fenwick tree built by any history of updates that keeps every count non-negative and
  the total below \<open>2 ^ 64\<close> never fails an assertion or leaves its array, and its prefix sums are
  the sums of the updates applied so far.\<close>

theorem fwTree_prefix_sum_correct:
  assumes "sane_ops (2 ^ b) ops" "0 \<le> idx" "idx < 2 ^ b"
  shows "\<exists>ft. fwTreeRun (Some (fwTreeCreate b)) ops = Some (Some ft) \<and>
    fwTreePrefixSum (Some ft) idx = Some (word_of_int (\<Sum>i = 0..<idx + 1. count_of ops i))"
proof -
  from fwTreeRun_rep [OF assms(1)] obtain ft where
    "fwTreeRun (Some (fwTreeCreate b)) ops = Some (Some ft)"
    "fw_rep ft (\<lambda>i. word_of_int (count_of ops i))" "ft_size ft = 2 ^ b" by blast
  with prefix_sum_rep [of ft _ idx] assms(2,3) show ?thesis by auto
qed

theorem fwTree_prefix_sum_witness:
  "\<exists>ft. fwTreeRun (Some (fwTreeCreate 2)) [(1, 5), (3, 2), (1, - 4)] = Some (Some ft) \<and>
    fwTreePrefixSum (Some ft) 2 = Some 1"
proof -
  have int4: "{0..<4 :: int} = {0, 1, 2, 3}" "{0..<3 :: int} = {0, 1, 2}" by auto
  then have "sane_ops (2 ^ 2) [(1, 5), (3, 2), (1, - 4)]"
    by (simp add: sane_ops_def counts_ok_def count_of_def atMost_Suc)
  from fwTree_prefix_sum_correct [OF this, of 2] show ?thesis
    by (simp add: int4 count_of_def)
qed

text \<open>C16: within the same histories, \<open>fwTreeFindIndex\<close> returns the index of the slot holding the
  \<open>target\<close>-th key: the keys before it are fewer than \<open>target\<close>, those up to it at least \<open>target\<close>.\<close>

theorem fwTree_find_index_correct:
  assumes "sane_ops (2 ^ b) ops" "0 < target" "int target \<le> (\<Sum>i = 0..<2 ^ b. count_of ops i)"
  shows "\<exists>ft r. fwTreeRun (Some (fwTreeCreate b)) ops = Some (Some ft) \<and>
    fwTreeFindIndex ft (of_nat target) = Some r \<and> 0 \<le> r \<and> r < 2 ^ b \<and>
    (\<Sum>i = 0..<r. count_of ops i) < int target \<and> int target \<le> (\<Sum>i = 0..<r + 1. count_of ops i)"
proof -
  let ?c = "\<lambda>i. word_of_int (count_of ops i) :: u64"
  obtain ft where ft: "fwTreeRun (Some (fwTreeCreate b)) ops = Some (Some ft)" "fw_rep ft ?c" "ft_size ft = 2 ^ b"
    using fwTreeRun_rep [OF assms(1)] by blast
  have ok: "counts_ok (2 ^ b) ops" by (rule sane_ops_ok [OF assms(1)])
  have pre: "int (prefix ?c k) = (\<Sum>i = 0..<k. count_of ops i)" if "k \<le> 2 ^ b" for k
    using ok that by (intro prefix_count_le) (auto simp: counts_ok_def)
  have tot: "prefix ?c (ft_size ft) < 2 ^ 64" using ft(3) pre [of "2 ^ b"] ok by (simp add: counts_ok_def)
  have ut: "unat (ft_total ft) = prefix ?c (2 ^ b)"
    using ft(2,3) tot unat_prefix_sum [of ?c "2 ^ b" "2 ^ b"] by (auto simp: fw_rep_def)
  have tgt: "unat (of_nat target :: u64) = target"
    using assms(3) ok by (simp add: counts_ok_def unat_of_nat)
  have "0 < (of_nat target :: u64)" "of_nat target \<le> ft_total ft"
    using tgt ut assms(2,3) pre [of "2 ^ b"] by (auto simp: word_less_nat_alt word_le_nat_alt)
  from find_index_rep [OF ft(2) tot this] tgt ft(3) obtain r where
    r: "fwTreeFindIndex ft (of_nat target) = Some r" "0 \<le> r" "r < 2 ^ b"
      "prefix ?c r < target" "target \<le> prefix ?c (r + 1)" by auto
  with ft(1) pre [of r] pre [of "r + 1"] show ?thesis by auto
qed

theorem fwTree_find_index_witness:
  "\<exists>ft r. fwTreeRun (Some (fwTreeCreate 1)) [(1, 2)] = Some (Some ft) \<and>
    fwTreeFindIndex ft (of_nat 2) = Some r \<and> r = 1"
proof -
  have int2: "{0..<2 :: int} = {0, 1}" "{0..<1 :: int} = {0}" by auto
  then have "sane_ops (2 ^ 1) [(1, 2)]" "int 2 \<le> (\<Sum>i = 0..<2 ^ 1. count_of [(1, 2)] i)"
    by (simp_all add: sane_ops_def counts_ok_def count_of_def atMost_Suc)
  from fwTree_find_index_correct [OF this(1) _ this(2)] obtain ft r where
    r: "fwTreeRun (Some (fwTreeCreate 1)) [(1, 2)] = Some (Some ft)" "fwTreeFindIndex ft (of_nat 2) = Some r"
       "0 \<le> r" "r < 2" "2 \<le> (\<Sum>i = 0..<r + 1. count_of [(1, 2)] i)" by auto
  from r(3,4) have "r = 0 \<or> r = 1" by auto
  with r int2 show ?thesis by (auto simp: count_of_def)
qed

text \<open>C17: after such a history \<open>fwTreeFindNextNonEmpty\<close> returns the first non-empty slot after
  \<open>idx\<close>, or -1 when every later slot is empty.  The total stays below \<open>2 ^ 64 - 1\<close> here: at
  that value \<open>next_sum\<close> would wrap to 0.\<close>

theorem fwTree_next_non_empty_correct:
  assumes "sane_ops (2 ^ b) ops" "(\<Sum>i = 0..<2 ^ b. count_of ops i) < 2 ^ 64 - 1" "0 \<le> idx" "idx < 2 ^ b"
  shows "\<exists>ft. fwTreeRun (Some (fwTreeCreate b)) ops = Some (Some ft) \<and>
    fwTreeFindNextNonEmpty (Some ft) idx =
      Some (case List.find (\<lambda>k. count_of ops k \<noteq> 0) [idx + 1..2 ^ b - 1] of None \<Rightarrow> - 1 | Some k \<Rightarrow> k)"
proof -
  let ?c = "\<lambda>i. word_of_int (count_of ops i) :: u64" and ?n = "(2::int) ^ b"
  obtain ft where ft: "fwTreeRun (Some (fwTreeCreate b)) ops = Some (Some ft)" "fw_valid ft"
    "ft_size ft = ?n" "fw_rep ft ?c" using fw_run_valid [OF assms(1,2)] by blast
  have elem: "unat (fw_elem ft k) = 0 \<longleftrightarrow> count_of ops k = 0" if "0 \<le> k" "k < ?n" for k
    using fw_elem_rep [OF ft(4)] ft(3) that counts_ok_zero [OF sane_ops_ok [OF assms(1)]] by (auto simp: unat_eq_zero)
  have "fwTreeFindNextNonEmpty (Some ft) idx =
    Some (case List.find (\<lambda>k. count_of ops k \<noteq> 0) [idx + 1..?n - 1] of None \<Rightarrow> - 1 | Some k \<Rightarrow> k)"
    using fwi.next_ok [OF ft(2) assms(3) assms(4) [folded ft(3)]] unfolding ft(3)
  proof (elim disjE exE conjE, goal_cases)
    case (1 j)
    then have "0 \<le> j" using assms(3) by linarith
    with 1 have "count_of ops j \<noteq> 0" using elem [of j] by simp
    moreover from 1 have "\<forall>k. idx < k \<and> k < j \<longrightarrow> count_of ops k = 0" using elem assms(3) by auto
    ultimately show ?case using 1 find_upto_first [of idx j "?n - 1" "\<lambda>k. count_of ops k \<noteq> 0"] by simp
  next
    case 2
    then have "List.find (\<lambda>k. count_of ops k \<noteq> 0) [idx + 1..?n - 1] = None"
      using elem assms(3) by (auto simp: find_None_iff)
    with 2 show ?case by simp
  qed
  with ft(1) show ?thesis by blast
qed

theorem fwTree_next_non_empty_witness:
  "\<exists>ft. fwTreeRun (Some (fwTreeCreate 2)) [(0, 1), (2, 3)] = Some (Some ft) \<and>
    fwTreeFindNextNonEmpty (Some ft) 0 = Some 2"
proof -
  have int4: "{0..<4 :: int} = {0, 1, 2, 3}" by auto
  then have "sane_ops (2 ^ 2) [(0, 1), (2, 3)]" "(\<Sum>i = 0..<2 ^ 2. count_of [(0, 1), (2, 3)] i) < 2 ^ 64 - 1"
    by (simp_all add: sane_ops_def counts_ok_def count_of_def atMost_Suc)
  from fwTree_next_non_empty_correct [OF this, of 0] show ?thesis by (simp add: count_of_def upto.simps)
qed

text \<open>C18: on a tree that holds nothing and has at least two slots, \<open>fwTreeFindFirstNonEmpty\<close> reads
  past the end of the \<open>tree\<close> array (its comment says an empty tree gives 0): callers must test
  for emptiness first, as \<open>kvstoreGetFirstNonEmptyDictIndex\<close> does.\<close>

theorem fwTree_find_first_empty_out_of_bounds:
  "fwTreeFindFirstNonEmpty (fwTreeCreate (Suc b)) = None"
proof -
  let ?n = "2 ^ Suc b :: nat" and ?tr = "replicate (2 ^ Suc b + 1) (0 :: u64)"
  have "fwTreeFindIndex_loop ?tr (2 ^ b) ?n 1 = None"
    by (subst fwTreeFindIndex_loop.simps) (simp add: rd_def)
  then have "fwTreeFindIndex_loop ?tr ?n 0 1 = None"
    by (subst fwTreeFindIndex_loop.simps) (simp add: rd_def nth_append del: replicate_Suc)
  then show ?thesis
    by (simp add: fwTreeFindFirstNonEmpty_def fwTreeFindIndex_def fwTreeCreate_def Let_def del: power_Suc replicate_Suc)
qed

end
