(* ===== verification/Intset.thy ===== *)
theory Intset
  imports Prelude
begin

text \<open>
  The integer sets of \<^verbatim>\<open>intset.c\<close>: a packed, sorted array of 16-, 32- or 64-bit signed integers
  in one byte buffer, little-endian (on a little-endian host, where the \<open>memrev*ifbe\<close> macros do
  nothing).  \<open>contents\<close> is the byte list after the header; every read and write goes through the
  checked accesses of \<open>Prelude\<close>.  \<open>junk\<close> gives the bytes the allocator leaves in a grown
  block.  The names \<open>_intsetGet\<close> and \<open>_intsetSet\<close> of the source are \<open>intset_Get\<close> and
  \<open>intset_Set\<close> here; out-parameters are part of the result.  Positions are \<open>int\<close> where the source has \<open>int\<close>;
  \<open>c_int\<close> is the conversion of a \<open>uint32_t\<close> to \<open>int\<close>, and an access at a negative position has no outcome.  Sums of two non-negative \<open>int\<close>
  indices below \<open>2 ^ 31\<close> do not wrap in the \<open>unsigned int\<close> the binary search computes them in.

  \<open>intset_rep is xs\<close> says that the buffer holds the elements \<open>xs\<close>; \<open>intset_valid\<close> adds that
  they are strictly ascending and that there are fewer than \<open>2 ^ 29\<close>, the bound under which the
  32-bit byte counts of \<open>intsetMoveTail\<close> do not wrap.  The locale \<open>int_set\<close> is the contract
  the set type relies on.
\<close>

subsection \<open>State and operations\<close>

record intset =
  is_encoding :: nat
  is_length :: nat
  is_contents :: "u8 list"

definition INTSET_ENC_INT16 :: nat where [simp]: "INTSET_ENC_INT16 = 2"

definition INTSET_ENC_INT32 :: nat where [simp]: "INTSET_ENC_INT32 = 4"

definition INTSET_ENC_INT64 :: nat where [simp]: "INTSET_ENC_INT64 = 8"


definition intsetValueEncoding :: "int \<Rightarrow> nat" where
  "intsetValueEncoding v =
     (if v < - (2 ^ 31) \<or> v > 2 ^ 31 - 1 then INTSET_ENC_INT64
      else if v < - (2 ^ 15) \<or> v > 2 ^ 15 - 1 then INTSET_ENC_INT32
      else INTSET_ENC_INT16)"

text \<open>The width of the C type each encoding selects: \<open>int64_t\<close>, \<open>int32_t\<close> or \<open>int16_t\<close>.\<close>

definition enc_width :: "nat \<Rightarrow> nat" where
  "enc_width enc = (if enc = INTSET_ENC_INT64 then 8 else if enc = INTSET_ENC_INT32 then 4 else 2)"

definition c_int :: "nat \<Rightarrow> int" where
  "c_int u = (if u < 2 ^ 31 then int u else int u - 2 ^ 32)"

definition intsetGetEncoded :: "intset \<Rightarrow> int \<Rightarrow> nat \<Rightarrow> int res" where
  "intsetGetEncoded is pos enc =
     (let size = enc_width enc
      in do { chk (0 \<le> pos); bs \<leftarrow> rd_n (is_contents is) (nat pos * size) size; Some (le_sint bs) })"

definition intset_Get :: "intset \<Rightarrow> int \<Rightarrow> int res" where
  "intset_Get is pos = intsetGetEncoded is pos (is_encoding is)"

definition intset_Set :: "intset \<Rightarrow> int \<Rightarrow> int \<Rightarrow> intset res" where
  "intset_Set is pos v =
     (let enc = is_encoding is;
          size = enc_width enc
      in do { chk (0 \<le> pos); buf \<leftarrow> wr_n (is_contents is) (nat pos * size) (le_bytes size v); Some (is\<lparr>is_contents := buf\<rparr>) })"

definition intsetNew :: intset where
  "intsetNew = \<lparr>is_encoding = INTSET_ENC_INT16, is_length = 0, is_contents = []\<rparr>"

definition intsetAllocSize :: "intset \<Rightarrow> nat res" where
  "intsetAllocSize is =
     (let size = is_length is * is_encoding is
      in do { chk (size \<le> 2 ^ 64 - 1 - 8); Some (8 + size) })"

definition intsetResize :: "(nat \<Rightarrow> u8) \<Rightarrow> intset \<Rightarrow> nat \<Rightarrow> intset res" where
  "intsetResize junk is len =
     (let size = len * is_encoding is
      in do { chk (size \<le> 2 ^ 64 - 1 - 8);
              Some (is\<lparr>is_contents := re_alloc junk size (is_contents is)\<rparr>) })"

function intsetSearch_loop :: "intset \<Rightarrow> int \<Rightarrow> int \<Rightarrow> int \<Rightarrow> int \<Rightarrow> int \<Rightarrow> (int \<times> int \<times> int) res" where
  "intsetSearch_loop is value mn mx mid cur =
     (if mx \<ge> mn then
        do { let mid = (mn + mx) div 2;
             cur \<leftarrow> intset_Get is mid;
             if value > cur then intsetSearch_loop is value (mid + 1) mx mid cur
             else if value < cur then intsetSearch_loop is value mn (mid - 1) mid cur
             else Some (mn, mid, cur) }
      else Some (mn, mid, cur))"
  by pat_completeness auto
termination
  by (relation "measure (\<lambda>(is, v, mn, mx, mid, cur). nat (mx + 1 - mn))") auto

declare intsetSearch_loop.simps [simp del]

definition intsetSearch :: "intset \<Rightarrow> int \<Rightarrow> (bool \<times> nat) res" where
  "intsetSearch is value =
     (if is_length is = 0 then Some (False, 0)
      else do {
        let mx = c_int (is_length is - 1);
        hi \<leftarrow> intset_Get is mx;
        if value > hi then Some (False, is_length is)
        else do {
          lo \<leftarrow> intset_Get is 0;
          if value < lo then Some (False, 0)
          else do {
            (mn, mid, cur) \<leftarrow> intsetSearch_loop is value 0 mx (- 1) (- 1);
            if value = cur then Some (True, nat mid) else Some (False, nat mn) }}})"

text \<open>The loop of \<open>intsetUpgradeAndAdd\<close> counts an \<open>int\<close> down to 0; from a negative one its first access is out of bounds.\<close>

fun intsetUpgrade_loop :: "intset \<Rightarrow> nat \<Rightarrow> nat \<Rightarrow> nat \<Rightarrow> intset res" where
  "intsetUpgrade_loop is 0 prepend curenc = Some is"
| "intsetUpgrade_loop is (Suc len) prepend curenc =
     do { v \<leftarrow> intsetGetEncoded is (int len) curenc;
          is' \<leftarrow> intset_Set is (int (len + prepend)) v;
          intsetUpgrade_loop is' len prepend curenc }"

definition intsetUpgradeAndAdd :: "(nat \<Rightarrow> u8) \<Rightarrow> intset \<Rightarrow> int \<Rightarrow> intset res" where
  "intsetUpgradeAndAdd junk is value =
     (let curenc = is_encoding is; newenc = intsetValueEncoding value;
          len = c_int (is_length is); prepend = (if value < 0 then 1 else 0);
          is = is\<lparr>is_encoding := newenc\<rparr>
      in do { is \<leftarrow> intsetResize junk is ((is_length is + 1) mod 2 ^ 32);
              chk (0 \<le> len);
              is \<leftarrow> intsetUpgrade_loop is (nat len) prepend curenc;
              is \<leftarrow> (if prepend \<noteq> 0 then intset_Set is 0 value else intset_Set is (c_int (is_length is)) value);
              Some (is\<lparr>is_length := (is_length is + 1) mod 2 ^ 32\<rparr>) })"

definition intsetMoveTail :: "intset \<Rightarrow> nat \<Rightarrow> nat \<Rightarrow> intset res" where
  "intsetMoveTail is from dest =
     (let enc = is_encoding is;
          size = enc_width enc;
          bytes = ((is_length is - from) * size) mod 2 ^ 32
      in do { buf \<leftarrow> mem_move (is_contents is) (dest * size) (from * size) bytes;
              Some (is\<lparr>is_contents := buf\<rparr>) })"

definition intsetAdd :: "(nat \<Rightarrow> u8) \<Rightarrow> intset \<Rightarrow> int \<Rightarrow> (intset \<times> bool) res" where
  "intsetAdd junk is value =
     (let valenc = intsetValueEncoding value
      in if valenc > is_encoding is
         then do { is \<leftarrow> intsetUpgradeAndAdd junk is value; Some (is, True) }
         else do {
           (found, pos) \<leftarrow> intsetSearch is value;
           if found then Some (is, False)
           else do {
             is \<leftarrow> intsetResize junk is ((is_length is + 1) mod 2 ^ 32);
             is \<leftarrow> (if pos < is_length is then intsetMoveTail is pos (pos + 1) else Some is);
             is \<leftarrow> intset_Set is (c_int pos) value;
             Some (is\<lparr>is_length := (is_length is + 1) mod 2 ^ 32\<rparr>, True) }})"

definition intsetRemove :: "(nat \<Rightarrow> u8) \<Rightarrow> intset \<Rightarrow> int \<Rightarrow> (intset \<times> bool) res" where
  "intsetRemove junk is value =
     (let valenc = intsetValueEncoding value
      in if valenc \<le> is_encoding is
         then do {
           (found, pos) \<leftarrow> intsetSearch is value;
           if found then do {
             let len = is_length is;
             is \<leftarrow> (if pos < len - 1 then intsetMoveTail is (pos + 1) pos else Some is);
             is \<leftarrow> intsetResize junk is (len - 1);
             Some (is\<lparr>is_length := len - 1\<rparr>, True) }
           else Some (is, False) }
         else Some (is, False))"

definition intsetFind :: "intset \<Rightarrow> int \<Rightarrow> bool res" where
  "intsetFind is value =
     (if intsetValueEncoding value \<le> is_encoding is
      then do { (found, pos) \<leftarrow> intsetSearch is value; Some found } else Some False)"

definition intsetGet :: "intset \<Rightarrow> nat \<Rightarrow> int option res" where
  "intsetGet is pos =
     (if pos < is_length is then do { v \<leftarrow> intset_Get is (c_int pos); Some (Some v) } else Some None)"

definition intsetRandom :: "nat \<Rightarrow> intset \<Rightarrow> int res" where
  "intsetRandom rnd is = do { chk (is_length is \<noteq> 0); intset_Get is (c_int (rnd mod is_length is)) }"

definition intsetMax :: "intset \<Rightarrow> int res" where
  "intsetMax is = intset_Get is (c_int ((is_length is + 2 ^ 32 - 1) mod 2 ^ 32))"

definition intsetMin :: "intset \<Rightarrow> int res" where
  "intsetMin is = intset_Get is 0"

definition intsetLen :: "intset \<Rightarrow> nat" where
  "intsetLen is = is_length is"

definition intsetBlobLen :: "intset \<Rightarrow> nat" where
  "intsetBlobLen is = 8 + is_length is * is_encoding is"

definition intset_of_blob :: "u8 list \<Rightarrow> intset" where
  "intset_of_blob p = \<lparr>is_encoding = nat (le_uint (take 4 p)), is_length = nat (le_uint (take 4 (drop 4 p))),
     is_contents = drop 8 p\<rparr>"

fun intsetValidate_loop :: "intset \<Rightarrow> nat \<Rightarrow> nat \<Rightarrow> int \<Rightarrow> bool res" where
  "intsetValidate_loop is i 0 prev = Some True"
| "intsetValidate_loop is i (Suc n) prev =
     do { cur \<leftarrow> intset_Get is (c_int i);
          if cur \<le> prev then Some False else intsetValidate_loop is (i + 1) n cur }"

definition intsetValidateIntegrity :: "u8 list \<Rightarrow> nat \<Rightarrow> bool \<Rightarrow> bool res" where
  "intsetValidateIntegrity p sz deep =
     (if sz < 8 then Some False
      else do {
        hdr \<leftarrow> rd_n p 0 8;
        let is = intset_of_blob p;
        let encoding = is_encoding is;
        if \<not> (encoding = INTSET_ENC_INT64 \<or> encoding = INTSET_ENC_INT32 \<or> encoding = INTSET_ENC_INT16) then Some False
        else do {
          let record_size = encoding;
          let count = is_length is;
          if 8 + count * record_size \<noteq> sz then Some False
          else if count = 0 then Some False
          else if \<not> deep then Some True
          else do { prev \<leftarrow> intset_Get is 0; intsetValidate_loop is 1 (count - 1) prev } } })"

subsection \<open>Representation\<close>

definition in_enc :: "nat \<Rightarrow> int \<Rightarrow> bool" where
  "in_enc enc v \<longleftrightarrow> - (2 ^ (8 * enc - 1)) \<le> v \<and> v < 2 ^ (8 * enc - 1)"

definition is_enc :: "nat \<Rightarrow> bool" where
  "is_enc enc \<longleftrightarrow> enc = INTSET_ENC_INT16 \<or> enc = INTSET_ENC_INT32 \<or> enc = INTSET_ENC_INT64"

definition cell :: "u8 list \<Rightarrow> nat \<Rightarrow> nat \<Rightarrow> int \<Rightarrow> bool" where
  "cell buf enc i v \<longleftrightarrow> rd_n buf (i * enc) enc = Some (le_bytes enc v)"

definition intset_rep :: "intset \<Rightarrow> int list \<Rightarrow> bool" where
  "intset_rep is xs \<longleftrightarrow> is_enc (is_encoding is) \<and> is_length is = length xs \<and>
     length (is_contents is) = length xs * is_encoding is \<and>
     (\<forall>i < length xs. cell (is_contents is) (is_encoding is) i (xs ! i) \<and> in_enc (is_encoding is) (xs ! i))"

definition intset_elems :: "intset \<Rightarrow> int list" where
  "intset_elems is =
     map (\<lambda>i. le_sint (take (is_encoding is) (drop (i * is_encoding is) (is_contents is)))) [0..<is_length is]"

definition intset_valid :: "intset \<Rightarrow> bool" where
  "intset_valid is \<longleftrightarrow> is_enc (is_encoding is) \<and> length (is_contents is) = is_length is * is_encoding is \<and>
     is_length is < 2 ^ 29 \<and> sorted_wrt (<) (intset_elems is)"

lemma enc_width [simp]: "is_enc enc \<Longrightarrow> enc_width enc = enc"
  by (auto simp: is_enc_def enc_width_def)

lemma is_enc_pos: "is_enc enc \<Longrightarrow> 0 < enc"
  by (auto simp: is_enc_def)

lemma block_index:
  fixes j e :: nat
  assumes "j < e"
  shows "i * e + j < m * e \<longleftrightarrow> i < m" "d * e \<le> i * e + j \<longleftrightarrow> d \<le> i"
proof -
  have *: "i * e + j < m * e \<longleftrightarrow> i < m" for i m
  proof
    assume "i < m"
    then have "Suc i * e \<le> m * e" by (intro mult_le_mono1) simp
    with assms show "i * e + j < m * e" by simp
  next
    assume "i * e + j < m * e"
    then show "i < m" by (metis add_lessD1 mult_less_cancel2)
  qed
  show "i * e + j < m * e \<longleftrightarrow> i < m" by (rule *)
  show "d * e \<le> i * e + j \<longleftrightarrow> d \<le> i" using * [of i d] by (simp add: not_less [symmetric])
qed

lemma byte_split:
  fixes a c x y :: int
  assumes "0 \<le> a" "a < 256" "0 \<le> c" "c < 256" "a + 256 * x = c + 256 * y"
  shows "a = c" "x = y"
proof -
  have "a = (a + 256 * x) mod 256" using assms(1,2) by simp
  also have "\<dots> = c" unfolding assms(5) using assms(3,4) by simp
  finally show "a = c" .
  with assms(5) show "x = y" by simp
qed

lemma le_uint_inj: "length bs = n \<Longrightarrow> le_uint bs mod 256 ^ n = v mod 256 ^ n \<Longrightarrow> le_bytes n v = bs"
proof (induction bs arbitrary: n v)
  case (Cons b bs)
  then obtain m where n: "n = Suc m" "length bs = m" by (cases n) auto
  have b: "0 \<le> uint b" "uint b < 256" using uint_lt2p [of b] by simp_all
  have split: "x mod (256 * 256 ^ m) = x mod 256 + 256 * (x div 256 mod 256 ^ m)" for x :: int
    by (simp add: zmod_zmult2_eq)
  have eq: "uint b + 256 * (le_uint bs mod 256 ^ m) = v mod 256 + 256 * (v div 256 mod 256 ^ m)"
    using Cons.prems(2) split [of v] split [of "uint b + 256 * le_uint bs"] b n by simp
  have "uint b = v mod 256" "le_uint bs mod 256 ^ m = v div 256 mod 256 ^ m"
    by (rule byte_split [OF b _ _ eq]; simp)+
  with Cons.IH [OF n(2)] n show ?case
    by (auto intro!: word_uint_eqI simp: uint_word_of_int_8)
qed simp

lemma le_bytes_le_sint: "length bs = n \<Longrightarrow> le_bytes n (le_sint bs) = bs"
proof (rule le_uint_inj)
  assume n: "length bs = n"
  have "(2::int) ^ (8 * n) = 256 ^ n" by (simp add: power_mult)
  then show "le_uint bs mod 256 ^ n = le_sint bs mod 256 ^ n"
    using n by (simp add: le_sint_def Let_def)
qed

lemma le_sint_bounds: "0 < length bs \<Longrightarrow> in_enc (length bs) (le_sint bs)"
proof -
  assume n: "0 < length bs"
  define k where "k = 8 * length bs - 1"
  have k: "8 * length bs = Suc k" using n by (simp add: k_def)
  then have "(256::int) ^ length bs = 2 ^ Suc k" by (simp add: power_mult flip: k)
  with le_uint_bounds [of bs] show ?thesis
    unfolding in_enc_def le_sint_def Let_def k by simp
qed

lemma intset_rep_elems: "intset_rep is xs \<Longrightarrow> intset_elems is = xs"
proof (rule nth_equalityI)
  assume rep: "intset_rep is xs"
  then show "length (intset_elems is) = length xs" by (simp add: intset_rep_def intset_elems_def)
  fix i assume "i < length (intset_elems is)"
  then have i: "i < length xs" using rep by (simp add: intset_rep_def intset_elems_def)
  with rep have "cell (is_contents is) (is_encoding is) i (xs ! i)" "in_enc (is_encoding is) (xs ! i)" "0 < is_encoding is"
    by (auto simp: intset_rep_def is_enc_pos)
  with i rep show "intset_elems is ! i = xs ! i"
    by (auto simp: intset_elems_def intset_rep_def cell_def rd_n_def in_enc_def le_sint_le_bytes split: if_splits)
qed

lemma struct_rep:
  assumes "is_enc (is_encoding is)" "length (is_contents is) = is_length is * is_encoding is"
  shows "intset_rep is (intset_elems is)"
proof -
  let ?e = "is_encoding is" and ?b = "is_contents is"
  have e: "0 < ?e" using assms(1) by (simp add: is_enc_pos)
  have "cell ?b ?e i (intset_elems is ! i) \<and> in_enc ?e (intset_elems is ! i)" if "i < is_length is" for i
  proof -
    have "Suc i * ?e \<le> is_length is * ?e" using that by (intro mult_le_mono1) simp
    then have len: "length (take ?e (drop (i * ?e) ?b)) = ?e" "i * ?e + ?e \<le> length ?b"
      using assms(2) by auto
    with that e le_sint_bounds [of "take ?e (drop (i * ?e) ?b)"] show ?thesis
      by (simp add: cell_def rd_n_def intset_elems_def le_bytes_le_sint)
  qed
  with assms show ?thesis by (auto simp: intset_rep_def intset_elems_def)
qed

lemma intset_valid_rep: "intset_valid is \<Longrightarrow> intset_rep is (intset_elems is)"
  by (rule struct_rep) (auto simp: intset_valid_def)

lemma intset_validI: "intset_rep is xs \<Longrightarrow> sorted_wrt (<) xs \<Longrightarrow> length xs < 2 ^ 29 \<Longrightarrow> intset_valid is"
  using intset_rep_elems by (auto simp: intset_rep_def intset_valid_def)


subsection \<open>Search\<close>

lemma c_int_small [simp]: "u < 2 ^ 31 \<Longrightarrow> c_int u = int u"
  by (simp add: c_int_def)

lemma c_int_negative: "2 ^ 31 \<le> u \<Longrightarrow> u < 2 ^ 32 \<Longrightarrow> c_int u < 0"
  by (simp add: c_int_def)

lemma intset_Get_negative: "pos < 0 \<Longrightarrow> intset_Get is pos = None"
  by (simp add: intset_Get_def intsetGetEncoded_def chk_def)

lemma intset_Get_rep: "intset_rep is xs \<Longrightarrow> i < length xs \<Longrightarrow> intset_Get is (int i) = Some (xs ! i)"
  by (auto simp: intset_rep_def intset_Get_def intsetGetEncoded_def cell_def in_enc_def le_sint_le_bytes is_enc_pos)

definition search_ok :: "int list \<Rightarrow> int \<Rightarrow> bool \<times> nat \<Rightarrow> bool" where
  "search_ok xs v r \<longleftrightarrow> (case r of
     (True, pos) \<Rightarrow> pos < length xs \<and> xs ! pos = v
   | (False, pos) \<Rightarrow> pos \<le> length xs \<and> (\<forall>j < pos. xs ! j < v) \<and> (\<forall>j. pos \<le> j \<and> j < length xs \<longrightarrow> v < xs ! j))"

lemma search_loop_step:
  "mn \<le> mx \<Longrightarrow> intset_Get is ((mn + mx) div 2) = Some c \<Longrightarrow>
    intsetSearch_loop is v mn mx mid cur =
     (if c < v then intsetSearch_loop is v ((mn + mx) div 2 + 1) mx ((mn + mx) div 2) c
      else if v < c then intsetSearch_loop is v mn ((mn + mx) div 2 - 1) ((mn + mx) div 2) c
      else Some (mn, (mn + mx) div 2, c))"
  by (subst intsetSearch_loop.simps) (simp add: Let_def)

lemma search_loop:
  assumes "intset_rep is xs" "sorted_wrt (<) xs"
    and "0 \<le> mn" "mx < int (length xs)" "mn \<le> mx + 1" "mn \<le> mx \<or> cur \<noteq> v"
    and "\<And>j. j < nat mn \<Longrightarrow> xs ! j < v" "\<And>j. mx < int j \<Longrightarrow> j < length xs \<Longrightarrow> v < xs ! j"
  shows "\<exists>mn' mid' cur'. intsetSearch_loop is v mn mx mid cur = Some (mn', mid', cur') \<and>
    search_ok xs v (if v = cur' then (True, nat mid') else (False, nat mn'))"
  using assms(3-)
proof (induction "nat (mx + 1 - mn)" arbitrary: mn mx mid cur rule: less_induct)
  case less
  show ?case
  proof (cases "mn \<le> mx")
    case False
    with less.prems show ?thesis
      by (subst intsetSearch_loop.simps) (auto simp: search_ok_def)
  next
    case True
    let ?mid = "(mn + mx) div 2"
    have m: "mn \<le> ?mid" "?mid \<le> mx" using True by auto
    then have im: "nat ?mid < length xs" "0 \<le> ?mid" using less.prems by linarith+
    let ?cur = "xs ! nat ?mid"
    have get: "intset_Get is ?mid = Some ?cur" using intset_Get_rep [OF assms(1) im(1)] im(2) by simp
    have mono: "xs ! i < xs ! j" if "i < j" "j < length xs" for i j
      using assms(2) that by (simp add: sorted_wrt_nth_less)
    consider (gt) "v > ?cur" | (lt) "v < ?cur" | (eq) "v = ?cur" by linarith
    then show ?thesis
    proof cases
      case gt
      have "xs ! j < v" if "j < nat (?mid + 1)" for j
      proof -
        have "j \<le> nat ?mid" using that im(2) by linarith
        then show ?thesis using gt mono [of j "nat ?mid"] im(1) by (cases "j = nat ?mid") auto
      qed
      then have "\<exists>mn' mid' cur'. intsetSearch_loop is v (?mid + 1) mx ?mid ?cur = Some (mn', mid', cur') \<and>
          search_ok xs v (if v = cur' then (True, nat mid') else (False, nat mn'))"
        using less.prems m less_imp_neq [OF gt] True by (intro less.hyps) auto
      moreover have "intsetSearch_loop is v mn mx mid cur = intsetSearch_loop is v (?mid + 1) mx ?mid ?cur"
        using gt by (simp add: search_loop_step [OF True get])
      ultimately show ?thesis by (simp only:)
    next
      case lt
      have "v < xs ! j" if "?mid - 1 < int j" "j < length xs" for j
      proof -
        have "nat ?mid \<le> j" using that(1) im(2) by linarith
        then show ?thesis using lt mono [of "nat ?mid" j] that(2) by (cases "j = nat ?mid") auto
      qed
      then have "\<exists>mn' mid' cur'. intsetSearch_loop is v mn (?mid - 1) ?mid ?cur = Some (mn', mid', cur') \<and>
          search_ok xs v (if v = cur' then (True, nat mid') else (False, nat mn'))"
        using less.prems m less_imp_neq [OF lt] True by (intro less.hyps) auto
      moreover have "intsetSearch_loop is v mn mx mid cur = intsetSearch_loop is v mn (?mid - 1) ?mid ?cur"
        using lt by (simp add: search_loop_step [OF True get])
      ultimately show ?thesis by (simp only:)
    next
      case eq
      with im show ?thesis by (simp add: search_loop_step [OF True get] search_ok_def)
    qed
  qed
qed

lemma intsetSearch_rep:
  assumes "intset_rep is xs" "sorted_wrt (<) xs" "length xs < 2 ^ 29"
  shows "\<exists>r. intsetSearch is v = Some r \<and> search_ok xs v r"
proof (cases "xs = []")
  case True
  with assms show ?thesis by (auto simp: intsetSearch_def intset_rep_def search_ok_def)
next
  case False
  let ?n = "length xs"
  have len: "is_length is = ?n" "0 < ?n" using assms(1) False by (auto simp: intset_rep_def)
  have mx: "c_int (?n - 1) = int (?n - 1)" using assms(3) by simp
  have get: "intset_Get is (int (?n - 1)) = Some (xs ! (?n - 1))" "intset_Get is 0 = Some (xs ! 0)"
    using intset_Get_rep [OF assms(1), of "?n - 1"] intset_Get_rep [OF assms(1), of 0] len(2) by (simp_all del: of_nat_diff)
  have mono: "xs ! i \<le> xs ! j" if "i \<le> j" "j < ?n" for i j
    using sorted_wrt_nth_less [OF assms(2), of i j] that by (cases "i = j") auto
  consider (hi) "v > xs ! (?n - 1)" | (lo) "v \<le> xs ! (?n - 1)" "v < xs ! 0" | (mid) "v \<le> xs ! (?n - 1)" "xs ! 0 \<le> v" by linarith
  then show ?thesis
  proof cases
    case hi
    have "xs ! j < v" if "j < ?n" for j using mono [of j "?n - 1"] that hi by linarith
    then have "search_ok xs v (False, ?n)" by (simp add: search_ok_def)
    with hi get len mx show ?thesis by (simp add: intsetSearch_def Let_def del: of_nat_diff c_int_small)
  next
    case lo
    then have "search_ok xs v (False, 0)"
      using mono [of 0] by (auto simp: search_ok_def intro: order.strict_trans2)
    with lo get len mx show ?thesis by (simp add: intsetSearch_def Let_def del: of_nat_diff c_int_small)
  next
    case mid
    obtain mn' mid' cur' where r: "intsetSearch_loop is v 0 (int (?n - 1)) (- 1) (- 1) = Some (mn', mid', cur')"
      "search_ok xs v (if v = cur' then (True, nat mid') else (False, nat mn'))"
      using search_loop [OF assms(1, 2), of 0 "int (?n - 1)" "- 1" v "- 1"] len(2) by auto
    with mid get len mx show ?thesis by (auto simp: intsetSearch_def Let_def split: if_splits simp del: of_nat_diff c_int_small)
  qed
qed

lemma search_ok_mem: "search_ok xs v (found, pos) \<Longrightarrow> found \<longleftrightarrow> v \<in> set xs"
  by (cases found) (auto simp: search_ok_def in_set_conv_nth dest: leI)


subsection \<open>Writing cells\<close>

lemma intset_Set_cell:
  assumes "is_enc (is_encoding is)" "pos * is_encoding is + is_encoding is \<le> length (is_contents is)"
  shows "\<exists>buf. intset_Set is (int pos) v = Some (is\<lparr>is_contents := buf\<rparr>) \<and> length buf = length (is_contents is) \<and>
     cell buf (is_encoding is) pos v \<and>
     (\<forall>off n. off + n \<le> pos * is_encoding is \<or> pos * is_encoding is + is_encoding is \<le> off \<longrightarrow>
        rd_n buf off n = rd_n (is_contents is) off n)"
proof -
  let ?e = "is_encoding is"
  obtain buf where w: "wr_n (is_contents is) (pos * ?e) (le_bytes ?e v) = Some buf"
    using assms(2) by (simp add: wr_n_def)
  then show ?thesis
    using assms rd_n_wr_n_same [OF w] rd_n_wr_n_disjoint [OF w] wr_n_length [OF w]
    by (intro exI [of _ buf]) (simp add: intset_Set_def cell_def)
qed

lemma cell_other:
  assumes "i \<noteq> pos" "\<forall>off n. off + n \<le> pos * e \<or> pos * e + e \<le> off \<longrightarrow> rd_n buf off n = rd_n buf0 off n"
  shows "cell buf e i v = cell buf0 e i v"
proof -
  have "i * e + e \<le> pos * e \<or> pos * e + e \<le> i * e"
    using assms(1) mult_le_mono1 [of "Suc i" pos e] mult_le_mono1 [of "Suc pos" i e] by (cases "i < pos") auto
  with assms(2) have "rd_n buf (i * e) e = rd_n buf0 (i * e) e" by blast
  then show ?thesis by (simp add: cell_def)
qed

lemma upgrade_loop:
  assumes "is_enc cur" "is_enc (is_encoding is)" "cur \<le> is_encoding is" "p \<le> 1"
    and "length (is_contents is) = m * is_encoding is" "n + p \<le> m"
    and "\<And>j. j < n \<Longrightarrow> cell (is_contents is) cur j (xs ! j) \<and> in_enc cur (xs ! j)"
  shows "\<exists>buf. intsetUpgrade_loop is n p cur = Some (is\<lparr>is_contents := buf\<rparr>) \<and> length buf = length (is_contents is) \<and>
    (\<forall>j < n. cell buf (is_encoding is) (j + p) (xs ! j)) \<and>
    (\<forall>off k. (n + p) * is_encoding is \<le> off \<longrightarrow> rd_n buf off k = rd_n (is_contents is) off k)"
  using assms(2,3,5-7)
proof (induction n arbitrary: "is")
  case 0
  then show ?case by (auto intro!: exI [of _ "is_contents is"])
next
  case (Suc n)
  let ?e = "is_encoding is"
  have get: "intsetGetEncoded is (int n) cur = Some (xs ! n)"
    using Suc.prems(5) [of n] assms(1) by (auto simp: intsetGetEncoded_def cell_def in_enc_def le_sint_le_bytes is_enc_pos)
  have fits: "(n + p) * ?e + ?e \<le> length (is_contents is)"
    using Suc.prems(3,4) mult_le_mono1 [of "Suc (n + p)" m ?e] by simp
  obtain b1 where b1: "intset_Set is (int (n + p)) (xs ! n) = Some (is\<lparr>is_contents := b1\<rparr>)"
    "length b1 = length (is_contents is)" "cell b1 ?e (n + p) (xs ! n)"
    "\<And>off k. off + k \<le> (n + p) * ?e \<or> (n + p) * ?e + ?e \<le> off \<Longrightarrow> rd_n b1 off k = rd_n (is_contents is) off k"
    using intset_Set_cell [OF Suc.prems(1) fits] by blast
  have keep: "cell b1 cur j (xs ! j) \<and> in_enc cur (xs ! j)" if "j < n" for j
  proof -
    have "j * cur + cur \<le> n * cur" using mult_le_mono1 [of "Suc j" n cur] that by simp
    also have "\<dots> \<le> (n + p) * ?e" using Suc.prems(2) by (intro mult_le_mono) auto
    finally have "rd_n b1 (j * cur) cur = rd_n (is_contents is) (j * cur) cur" by (intro b1(4)) simp
    with Suc.prems(5) [of j] that show ?thesis by (simp add: cell_def)
  qed
  obtain buf where buf: "intsetUpgrade_loop (is\<lparr>is_contents := b1\<rparr>) n p cur = Some (is\<lparr>is_contents := buf\<rparr>)"
    "length buf = length b1" "\<forall>j < n. cell buf ?e (j + p) (xs ! j)"
    "\<forall>off k. (n + p) * ?e \<le> off \<longrightarrow> rd_n buf off k = rd_n b1 off k"
    using Suc.IH [of "is\<lparr>is_contents := b1\<rparr>"] Suc.prems b1(2) keep by auto
  have "cell buf ?e (j + p) (xs ! j)" if "j < Suc n" for j
    using that buf(3,4) b1(3) by (cases "j = n") (auto simp: cell_def)
  moreover have "rd_n buf off k = rd_n (is_contents is) off k" if "(Suc n + p) * ?e \<le> off" for off k
    using that buf(4) b1(4) by simp
  ultimately show ?case using get b1(1,2) buf(1,2) by (simp add: exI [of _ buf])
qed


lemma in_enc_value: "in_enc 8 v \<Longrightarrow> in_enc (intsetValueEncoding v) v"
  by (auto simp: in_enc_def intsetValueEncoding_def)

lemma is_enc_value: "is_enc (intsetValueEncoding v)"
  by (simp add: is_enc_def intsetValueEncoding_def)

lemma in_enc_mono: "is_enc e \<Longrightarrow> is_enc e' \<Longrightarrow> e \<le> e' \<Longrightarrow> in_enc e v \<Longrightarrow> in_enc e' v"
  by (auto simp: is_enc_def in_enc_def)

lemma value_enc_less: "is_enc e \<Longrightarrow> e < intsetValueEncoding v \<Longrightarrow> \<not> in_enc e v"
  by (auto simp: is_enc_def in_enc_def intsetValueEncoding_def split: if_splits)

lemma value_enc_le: "is_enc e \<Longrightarrow> in_enc 8 v \<Longrightarrow> intsetValueEncoding v \<le> e \<longleftrightarrow> in_enc e v"
  by (auto simp: is_enc_def in_enc_def intsetValueEncoding_def split: if_splits)

lemma intsetResize_ok:
  "m * is_encoding is < 2 ^ 63 \<Longrightarrow>
    intsetResize junk is m = Some (is\<lparr>is_contents := re_alloc junk (m * is_encoding is) (is_contents is)\<rparr>)"
  by (simp add: intsetResize_def Let_def)

lemma upgrade_rep:
  assumes rep: "intset_rep is xs" and v: "in_enc 8 v" "is_encoding is < intsetValueEncoding v" and n: "length xs < 2 ^ 29"
  shows "\<exists>is'. intsetUpgradeAndAdd junk is v = Some is' \<and> intset_rep is' (if v < 0 then v # xs else xs @ [v])"
proof -
  let ?n = "length xs" and ?c = "is_encoding is" and ?e = "intsetValueEncoding v"
  define p :: nat where "p = (if v < 0 then 1 else 0)"
  have p: "p \<le> 1" by (simp add: p_def)
  have c: "is_enc ?c" "is_length is = ?n" "length (is_contents is) = ?n * ?c" using rep by (auto simp: intset_rep_def)
  have e: "is_enc ?e" "?e \<le> 8" by (rule is_enc_value) (simp add: intsetValueEncoding_def)
  define b0 where "b0 = re_alloc junk ((?n + 1) * ?e) (is_contents is)"
  define is0 where "is0 = is\<lparr>is_encoding := ?e, is_contents := b0\<rparr>"
  have "(?n + 1) * ?e \<le> 2 ^ 29 * 8" using n e(2) by (intro mult_le_mono) auto
  then have rs: "intsetResize junk (is\<lparr>is_encoding := ?e\<rparr>) ((is_length is + 1) mod 2 ^ 32) = Some is0"
    using n c(2) by (subst intsetResize_ok) (auto simp: is0_def b0_def)
  have is0: "is_encoding is0 = ?e" "is_contents is0 = b0" "length b0 = (?n + 1) * ?e"
    by (auto simp: is0_def b0_def)
  have cells: "cell (is_contents is0) ?c j (xs ! j) \<and> in_enc ?c (xs ! j)" if "j < ?n" for j
  proof -
    have "j * ?c + ?c \<le> ?n * ?c" using mult_le_mono1 [of "Suc j" ?n ?c] that by simp
    moreover have "?n * ?c \<le> (?n + 1) * ?e" using v(2) by (intro mult_le_mono) auto
    ultimately have "rd_n b0 (j * ?c) ?c = rd_n (is_contents is) (j * ?c) ?c"
      unfolding b0_def using c(3) by (intro rd_n_re_alloc) auto
    with rep that show ?thesis by (simp add: intset_rep_def is0_def cell_def)
  qed
  obtain b1 where b1: "intsetUpgrade_loop is0 ?n p ?c = Some (is0\<lparr>is_contents := b1\<rparr>)" "length b1 = (?n + 1) * ?e"
    "\<forall>j < ?n. cell b1 ?e (j + p) (xs ! j)"
    using upgrade_loop [of ?c is0 p "?n + 1" ?n xs] c(1) e(1) v(2) p cells is0 by auto
  let ?is1 = "is0\<lparr>is_contents := b1\<rparr>" and ?pos = "if v < 0 then 0 else ?n"
  have fit: "?pos * ?e + ?e \<le> length b1" using b1(2) by simp
  obtain b2 where b2: "intset_Set ?is1 (int ?pos) v = Some (is0\<lparr>is_contents := b2\<rparr>)" "length b2 = (?n + 1) * ?e"
    "cell b2 ?e ?pos v" "\<And>i w. i \<noteq> ?pos \<Longrightarrow> cell b2 ?e i w = cell b1 ?e i w"
  proof -
    have en: "is_encoding ?is1 = ?e" "is_contents ?is1 = b1" by (simp_all add: is0)
    from intset_Set_cell [of ?is1 ?pos v] fit e(1) b1(2) obtain b where
      "intset_Set ?is1 (int ?pos) v = Some (?is1\<lparr>is_contents := b\<rparr>)" "length b = (?n + 1) * ?e" "cell b ?e ?pos v"
      "\<forall>off n. off + n \<le> ?pos * ?e \<or> ?pos * ?e + ?e \<le> off \<longrightarrow> rd_n b off n = rd_n b1 off n"
      unfolding en by metis
    then show thesis using cell_other [of _ ?pos ?e b b1] by (intro that [of b]) auto
  qed
  let ?ys = "if v < 0 then v # xs else xs @ [v]"
  have "cell b2 ?e i (?ys ! i) \<and> in_enc ?e (?ys ! i)" if "i < ?n + 1" for i
  proof (cases "i = ?pos")
    case True
    then show ?thesis using b2(3) in_enc_value [OF v(1)] by auto
  next
    case False
    define j where "j = i - p"
    have j: "j < ?n" "i = j + p" "?ys ! i = xs ! j"
      using that False by (auto simp: j_def p_def nth_append split: if_splits)
    have "in_enc ?e (xs ! j)"
      using in_enc_mono [OF c(1) e(1)] v(2) rep j(1) by (auto simp: intset_rep_def)
    with b2(4) [OF False] b1(3) j show ?thesis by auto
  qed
  with b1(1) b2(1,2) rs n c(2) e(1) show ?thesis
    by (auto simp: intsetUpgradeAndAdd_def Let_def intset_rep_def is0_def p_def)
qed


subsection \<open>Insertion and removal\<close>

lemma move_cells:
  assumes "s + k \<le> m" "d + k \<le> m" "length buf = m * e"
  shows "\<exists>zs. mem_move buf (d * e) (s * e) (k * e) = Some zs \<and> length zs = length buf \<and>
    (\<forall>i < m. \<forall>v. cell zs e i v = cell buf e (if d \<le> i \<and> i < d + k then s + (i - d) else i) v)"
proof -
  have "(s + k) * e \<le> m * e" "(d + k) * e \<le> m * e" using assms(1,2) by (auto intro: mult_le_mono1)
  then have "s * e + k * e \<le> length buf" "d * e + k * e \<le> length buf"
    using assms(3) by (simp_all add: add_mult_distrib)
  from mem_move_eq_Some [OF this] obtain zs where zs: "mem_move buf (d * e) (s * e) (k * e) = Some zs"
    "length zs = length buf"
    "\<And>x. x < length buf \<Longrightarrow> zs ! x = (if d * e \<le> x \<and> x < d * e + k * e then buf ! (s * e + (x - d * e)) else buf ! x)"
    by blast
  have "rd_n zs (i * e) e = rd_n buf ((if d \<le> i \<and> i < d + k then s + (i - d) else i) * e) e" if i: "i < m" for i
  proof -
    let ?i = "if d \<le> i \<and> i < d + k then s + (i - d) else i"
    have "?i < m" using i assms(1) by auto
    then have fit: "i * e + e \<le> m * e" "?i * e + e \<le> m * e"
      using i mult_le_mono1 [of "Suc i" m e] mult_le_mono1 [of "Suc ?i" m e] by auto
    have "zs ! (i * e + j) = buf ! (?i * e + j)" if j: "j < e" for j
    proof -
      have "d * e \<le> i * e + j \<and> i * e + j < d * e + k * e \<longleftrightarrow> d \<le> i \<and> i < d + k"
        using block_index [OF j] by (simp add: add_mult_distrib [symmetric])
      moreover have "s * e + (i * e + j - d * e) = (s + (i - d)) * e + j" if "d \<le> i"
      proof -
        from that obtain t where "i = d + t" using le_Suc_ex by blast
        then show ?thesis by (simp add: add_mult_distrib)
      qed
      moreover have "i * e + j < length buf" using fit(1) j assms(3) by simp
      ultimately show ?thesis using zs(3) by auto
    qed
    with fit assms(3) zs(2) show ?thesis by (intro rd_n_cong) auto
  qed
  with zs(1,2) show ?thesis by (auto simp: cell_def)
qed

lemma intsetMoveTail_rep:
  assumes "is_enc (is_encoding is)" "is_length is < 2 ^ 29" "from \<le> is_length is"
    and "is_length is \<le> m" "dest + (is_length is - from) \<le> m" "length (is_contents is) = m * is_encoding is"
  shows "\<exists>zs. intsetMoveTail is from dest = Some (is\<lparr>is_contents := zs\<rparr>) \<and> length zs = length (is_contents is) \<and>
    (\<forall>i < m. \<forall>v. cell zs (is_encoding is) i v =
       cell (is_contents is) (is_encoding is)
         (if dest \<le> i \<and> i < dest + (is_length is - from) then from + (i - dest) else i) v)"
proof -
  let ?k = "is_length is - from" and ?e = "is_encoding is"
  have "?k * ?e \<le> (2 ^ 29 - 1) * 8" using assms(1,2) by (intro mult_le_mono) (auto simp: is_enc_def)
  then have "?k * ?e mod 2 ^ 32 = ?k * ?e" by simp
  then show ?thesis
    using move_cells [of "from" ?k m dest "is_contents is" ?e] assms
    by (auto simp: intsetMoveTail_def Let_def)
qed

lemma add_rep:
  assumes rep: "intset_rep is xs" and n: "length xs < 2 ^ 29 - 1" and pos: "pos \<le> length xs"
    and v: "in_enc (is_encoding is) v"
  shows "\<exists>is'. do { is \<leftarrow> intsetResize junk is ((is_length is + 1) mod 2 ^ 32);
             is \<leftarrow> (if pos < is_length is then intsetMoveTail is pos (pos + 1) else Some is);
             is \<leftarrow> intset_Set is (c_int pos) v;
             Some (is\<lparr>is_length := (is_length is + 1) mod 2 ^ 32\<rparr>, True) } = Some (is', True) \<and>
    intset_rep is' (take pos xs @ v # drop pos xs)"
proof -
  let ?n = "length xs" and ?e = "is_encoding is" and ?ys = "take pos xs @ v # drop pos xs"
  have e: "is_enc ?e" "?e \<le> 8" "is_length is = ?n" "length (is_contents is) = ?n * ?e"
    using rep by (auto simp: intset_rep_def is_enc_def)
  define b0 where "b0 = re_alloc junk ((?n + 1) * ?e) (is_contents is)"
  let ?is0 = "is\<lparr>is_contents := b0\<rparr>"
  have "(?n + 1) * ?e \<le> 2 ^ 29 * 8" using n e(2) by (intro mult_le_mono) auto
  then have rs: "intsetResize junk is ((is_length is + 1) mod 2 ^ 32) = Some ?is0"
    using n e(3) by (subst intsetResize_ok) (auto simp: b0_def)
  have b0: "length b0 = (?n + 1) * ?e" "\<And>j w. j < ?n \<Longrightarrow> cell b0 ?e j w = cell (is_contents is) ?e j w"
  proof -
    fix j w assume j: "j < ?n"
    then have "j * ?e + ?e \<le> ?n * ?e" using mult_le_mono1 [of "Suc j" ?n ?e] by simp
    then have "rd_n b0 (j * ?e) ?e = rd_n (is_contents is) (j * ?e) ?e"
      unfolding b0_def using e(4) j by (intro rd_n_re_alloc) auto
    then show "cell b0 ?e j w = cell (is_contents is) ?e j w" by (simp add: cell_def)
  qed (simp add: b0_def)
  obtain b1 where b1: "(if pos < ?n then intsetMoveTail ?is0 pos (pos + 1) else Some ?is0) = Some (is\<lparr>is_contents := b1\<rparr>)"
    "length b1 = (?n + 1) * ?e" "\<And>i w. i < ?n + 1 \<Longrightarrow> i \<noteq> pos \<Longrightarrow> cell b1 ?e i w = cell b0 ?e (if i < pos then i else i - 1) w"
  proof (cases "pos < ?n")
    case True
    with intsetMoveTail_rep [of ?is0 pos "?n + 1" "pos + 1"] e n b0(1) obtain b1 where
      "intsetMoveTail ?is0 pos (pos + 1) = Some (is\<lparr>is_contents := b1\<rparr>)" "length b1 = length b0"
      "\<forall>i < ?n + 1. \<forall>w. cell b1 ?e i w = cell b0 ?e (if pos + 1 \<le> i \<and> i < pos + 1 + (?n - pos) then pos + (i - (pos + 1)) else i) w"
      by auto
    with True b0(1) show thesis by (intro that [of b1]) auto
  next
    case False
    with pos b0(1) show thesis by (intro that [of b0]) auto
  qed
  have en: "is_encoding (is\<lparr>is_contents := b1\<rparr>) = ?e" "is_contents (is\<lparr>is_contents := b1\<rparr>) = b1" by simp_all
  have fit: "pos * ?e + ?e \<le> length b1" using pos b1(2) mult_le_mono1 [of "Suc pos" "Suc ?n" ?e] by simp
  obtain b2 where b2: "intset_Set (is\<lparr>is_contents := b1\<rparr>) (int pos) v = Some (is\<lparr>is_contents := b2\<rparr>)"
    "length b2 = (?n + 1) * ?e" "cell b2 ?e pos v" "\<And>i w. i \<noteq> pos \<Longrightarrow> cell b2 ?e i w = cell b1 ?e i w"
  proof -
    from intset_Set_cell [of "is\<lparr>is_contents := b1\<rparr>" pos v] fit e(1) b1(2) obtain b where
      "intset_Set (is\<lparr>is_contents := b1\<rparr>) (int pos) v = Some (is\<lparr>is_contents := b\<rparr>)" "length b = (?n + 1) * ?e" "cell b ?e pos v"
      "\<forall>off n. off + n \<le> pos * ?e \<or> pos * ?e + ?e \<le> off \<longrightarrow> rd_n b off n = rd_n b1 off n"
      unfolding en by auto
    then show thesis using cell_other [of _ pos ?e b b1] by (intro that [of b]) auto
  qed
  have "cell b2 ?e i (?ys ! i) \<and> in_enc ?e (?ys ! i)" if "i < ?n + 1" for i
  proof (cases "i = pos")
    case True
    then show ?thesis using b2(3) v pos by (simp add: nth_append)
  next
    case False
    let ?j = "if i < pos then i else i - 1"
    have j: "?j < ?n" "?ys ! i = xs ! ?j" using that False pos by (auto simp: nth_append nth_Cons')
    with b2(4) [OF False] b1(3) [OF that False] b0(2) [OF j(1)] rep show ?thesis
      by (auto simp: intset_rep_def)
  qed
  then have "intset_rep (is\<lparr>is_contents := b2, is_length := ?n + 1\<rparr>) ?ys"
    using e(1) b2(2) pos by (auto simp: intset_rep_def)
  moreover have "c_int pos = int pos" using n pos by simp
  ultimately show ?thesis using rs b1(1) b2(1) e(3) n by simp
qed

lemma remove_rep:
  assumes rep: "intset_rep is xs" and n: "length xs < 2 ^ 29" and pos: "pos < length xs"
  shows "\<exists>is'. do { is' \<leftarrow> (if pos < is_length is - 1 then intsetMoveTail is (pos + 1) pos else Some is);
             is' \<leftarrow> intsetResize junk is' (is_length is - 1);
             Some (is'\<lparr>is_length := is_length is - 1\<rparr>, True) } = Some (is', True) \<and>
    intset_rep is' (take pos xs @ drop (Suc pos) xs)"
proof -
  let ?n = "length xs" and ?e = "is_encoding is" and ?ys = "take pos xs @ drop (Suc pos) xs"
  have e: "is_enc ?e" "?e \<le> 8" "is_length is = ?n" "length (is_contents is) = ?n * ?e"
    using rep by (auto simp: intset_rep_def is_enc_def)
  obtain b1 where b1: "(if pos < ?n - 1 then intsetMoveTail is (pos + 1) pos else Some is) = Some (is\<lparr>is_contents := b1\<rparr>)"
    "length b1 = ?n * ?e" "\<And>i w. i < ?n - 1 \<Longrightarrow> cell b1 ?e i w = cell (is_contents is) ?e (if i < pos then i else i + 1) w"
  proof (cases "pos < ?n - 1")
    case True
    with intsetMoveTail_rep [of "is" "pos + 1" ?n pos] e n pos obtain b1 where
      "intsetMoveTail is (pos + 1) pos = Some (is\<lparr>is_contents := b1\<rparr>)" "length b1 = ?n * ?e"
      "\<forall>i < ?n. \<forall>w. cell b1 ?e i w = cell (is_contents is) ?e (if pos \<le> i \<and> i < pos + (?n - (pos + 1)) then pos + 1 + (i - pos) else i) w"
      by auto
    with True show thesis by (intro that [of b1]) auto
  next
    case False
    with pos e(4) show thesis by (intro that [of "is_contents is"]) auto
  qed
  define b2 where "b2 = re_alloc junk ((?n - 1) * ?e) b1"
  have "(?n - 1) * ?e \<le> 2 ^ 29 * 8" using n e(2) by (intro mult_le_mono) auto
  then have rs: "intsetResize junk (is\<lparr>is_contents := b1\<rparr>) (?n - 1) = Some (is\<lparr>is_contents := b2\<rparr>)"
    by (subst intsetResize_ok) (auto simp: b2_def)
  have b2: "length b2 = (?n - 1) * ?e" "\<And>j w. j < ?n - 1 \<Longrightarrow> cell b2 ?e j w = cell b1 ?e j w"
  proof -
    fix j w assume "j < ?n - 1"
    then have "j * ?e + ?e \<le> (?n - 1) * ?e" using mult_le_mono1 [of "Suc j" "?n - 1" ?e] by simp
    moreover have "(?n - 1) * ?e \<le> length b1" using b1(2) by simp
    ultimately have "rd_n b2 (j * ?e) ?e = rd_n b1 (j * ?e) ?e"
      unfolding b2_def by (intro rd_n_re_alloc) auto
    then show "cell b2 ?e j w = cell b1 ?e j w" by (simp add: cell_def)
  qed (simp add: b2_def)
  have "cell b2 ?e i (?ys ! i) \<and> in_enc ?e (?ys ! i)" if "i < ?n - 1" for i
  proof -
    let ?j = "if i < pos then i else i + 1"
    have j: "?j < ?n" "?ys ! i = xs ! ?j" using that pos by (auto simp: nth_append)
    with b2(2) [OF that] b1(3) [OF that] rep show ?thesis by (auto simp: intset_rep_def)
  qed
  then have "intset_rep (is\<lparr>is_contents := b2, is_length := ?n - 1\<rparr>) ?ys"
    using e(1) b2(1) pos by (auto simp: intset_rep_def)
  with rs b1(1) e(3) show ?thesis by simp
qed


lemma sorted_insert_pos:
  assumes "sorted_wrt (<) xs" "search_ok xs v (False, pos)"
  shows "sorted_wrt (<) (take pos xs @ v # drop pos xs)"
proof -
  have "\<forall>x \<in> set (take pos xs). x < v" "\<forall>x \<in> set (drop pos xs). v < x" "pos \<le> length xs"
    using assms(2) by (auto simp: search_ok_def in_set_conv_nth)
  moreover have "sorted_wrt (<) (take pos xs @ drop pos xs)" using assms(1) by simp
  ultimately show ?thesis by (auto simp: sorted_wrt_append simp del: append_take_drop_id)
qed

lemma set_insert_pos: "set (take pos xs @ v # drop pos xs) = insert v (set xs)"
  using set_append [of "take pos xs" "drop pos xs"] by auto

lemma remove_pos:
  fixes xs :: "int list"
  assumes "sorted_wrt (<) xs" "pos < length xs"
  shows "sorted_wrt (<) (take pos xs @ drop (Suc pos) xs)"
    "set (take pos xs @ drop (Suc pos) xs) = set xs - {xs ! pos}"
proof -
  have xs: "xs = take pos xs @ xs ! pos # drop (Suc pos) xs" by (rule id_take_nth_drop [OF assms(2)])
  then have "sorted_wrt (<) (take pos xs @ xs ! pos # drop (Suc pos) xs)" using assms(1) by simp
  then have s: "sorted_wrt (<) (take pos xs @ drop (Suc pos) xs)" "xs ! pos \<notin> set (take pos xs @ drop (Suc pos) xs)"
    using less_irrefl [of "xs ! pos"] by (auto simp: sorted_wrt_append)
  then show "sorted_wrt (<) (take pos xs @ drop (Suc pos) xs)" by simp
  have "set xs = insert (xs ! pos) (set (take pos xs @ drop (Suc pos) xs))"
    by (subst xs) simp
  with s(2) show "set (take pos xs @ drop (Suc pos) xs) = set xs - {xs ! pos}" by auto
qed

lemma sorted_list_of_set_unique: "sorted_wrt (<) ys \<Longrightarrow> set ys = A \<Longrightarrow> sorted_list_of_set A = (ys :: int list)"
  using sorted_list_of_set.idem_if_sorted_distinct [of ys] by (auto simp: strict_sorted_iff)

lemma upgrade_sorted:
  assumes "sorted_wrt (<) xs" "\<forall>x \<in> set xs. in_enc c x" "\<not> in_enc c v"
  shows "sorted_wrt (<) (if v < 0 then v # xs else xs @ [v])" "v \<notin> set xs"
proof -
  have "v < x" if "x \<in> set xs" "v < 0" for x
    using assms(2,3) that by (force simp: in_enc_def)
  moreover have "x < v" if "x \<in> set xs" "\<not> v < 0" for x
  proof -
    have "0 \<le> (2::int) ^ (8 * c - 1)" by simp
    then show ?thesis using assms(2,3) that by (force simp: in_enc_def)
  qed
  ultimately show "sorted_wrt (<) (if v < 0 then v # xs else xs @ [v])" using assms(1)
    by (auto simp: sorted_wrt_append)
  show "v \<notin> set xs" using assms(2,3) by auto
qed

lemma intsetAdd_valid:
  assumes "intset_valid is" "in_enc 8 v" "is_length is < 2 ^ 29 - 1"
  shows "\<exists>is'. intsetAdd junk is v = Some (is', v \<notin> set (intset_elems is)) \<and> intset_valid is' \<and>
    intset_elems is' = sorted_list_of_set (insert v (set (intset_elems is)))"
proof -
  let ?xs = "intset_elems is" and ?e = "is_encoding is"
  have rep: "intset_rep is ?xs" and srt: "sorted_wrt (<) ?xs" and e: "is_enc ?e" and n: "length ?xs < 2 ^ 29 - 1"
    using assms intset_valid_rep by (auto simp: intset_valid_def intset_elems_def)
  have in_e: "\<forall>x \<in> set ?xs. in_enc ?e x" using rep by (auto simp: intset_rep_def in_set_conv_nth)
  show ?thesis
  proof (cases "?e < intsetValueEncoding v")
    case True
    let ?ys = "if v < 0 then v # ?xs else ?xs @ [v]"
    note up = upgrade_sorted [OF srt in_e value_enc_less [OF e True]]
    obtain is' where is': "intsetUpgradeAndAdd junk is v = Some is'" "intset_rep is' ?ys"
      using upgrade_rep [OF rep assms(2) True, of junk] n by auto
    then have "intset_valid is'" "intset_elems is' = ?ys"
      using up(1) n intset_validI intset_rep_elems by auto
    moreover have "sorted_list_of_set (insert v (set ?xs)) = ?ys"
      by (rule sorted_list_of_set_unique [OF up(1)]) auto
    ultimately show ?thesis using is'(1) True up(2) by (simp add: intsetAdd_def)
  next
    case False
    then have ve: "in_enc ?e v" using value_enc_le [OF e assms(2)] by simp
    obtain found pos where sr: "intsetSearch is v = Some (found, pos)" "search_ok ?xs v (found, pos)"
      using intsetSearch_rep [OF rep srt, of v] n by auto
    note fm = search_ok_mem [OF sr(2)]
    show ?thesis
    proof (cases found)
      case True
      then have "intsetAdd junk is v = Some (is, False)" using sr(1) False by (simp add: intsetAdd_def)
      moreover have "sorted_list_of_set (insert v (set ?xs)) = ?xs"
        using True fm by (intro sorted_list_of_set_unique [OF srt]) auto
      ultimately show ?thesis using True fm assms(1) by simp
    next
      case nf: False
      let ?ys = "take pos ?xs @ v # drop pos ?xs"
      have s: "sorted_wrt (<) ?ys" "pos \<le> length ?xs"
        using sorted_insert_pos [OF srt] sr(2) nf by (auto simp: search_ok_def)
      obtain is' where is': "intsetAdd junk is v = Some (is', True)" "intset_rep is' ?ys"
        using add_rep [OF rep n s(2) ve, of junk] False nf sr(1) by (auto simp: intsetAdd_def)
      have "intset_valid is'" "intset_elems is' = ?ys"
        using is'(2) s n intset_validI [OF is'(2)] intset_rep_elems by auto
      moreover have "sorted_list_of_set (insert v (set ?xs)) = ?ys"
        by (rule sorted_list_of_set_unique [OF s(1) set_insert_pos])
      ultimately show ?thesis using is'(1) nf fm by simp
    qed
  qed
qed

lemma intsetRemove_valid:
  assumes "intset_valid is" "in_enc 8 v"
  shows "\<exists>is'. intsetRemove junk is v = Some (is', v \<in> set (intset_elems is)) \<and> intset_valid is' \<and>
    intset_elems is' = sorted_list_of_set (set (intset_elems is) - {v})"
proof -
  let ?xs = "intset_elems is" and ?e = "is_encoding is"
  have rep: "intset_rep is ?xs" and srt: "sorted_wrt (<) ?xs" and e: "is_enc ?e" and n: "length ?xs < 2 ^ 29"
    using assms intset_valid_rep by (auto simp: intset_valid_def intset_elems_def)
  have in_e: "\<forall>x \<in> set ?xs. in_enc ?e x" using rep by (auto simp: intset_rep_def in_set_conv_nth)
  have id: "sorted_list_of_set (set ?xs) = ?xs" by (rule sorted_list_of_set_unique [OF srt refl])
  show ?thesis
  proof (cases "intsetValueEncoding v \<le> ?e")
    case False
    then have "v \<notin> set ?xs" using value_enc_le [OF e assms(2)] in_e by auto
    with False assms(1) id show ?thesis by (simp add: intsetRemove_def)
  next
    case True
    obtain found pos where sr: "intsetSearch is v = Some (found, pos)" "search_ok ?xs v (found, pos)"
      using intsetSearch_rep [OF rep srt, of v] n by auto
    note fm = search_ok_mem [OF sr(2)]
    show ?thesis
    proof (cases found)
      case False
      with True sr(1) fm assms(1) id show ?thesis by (simp add: intsetRemove_def)
    next
      case f: True
      then have pos: "pos < length ?xs" "?xs ! pos = v" using sr(2) by (auto simp: search_ok_def)
      let ?ys = "take pos ?xs @ drop (Suc pos) ?xs"
      note rp = remove_pos [OF srt pos(1), unfolded pos(2)]
      obtain is' where is': "intsetRemove junk is v = Some (is', True)" "intset_rep is' ?ys"
        using remove_rep [OF rep n pos(1), of junk] True f sr(1) by (auto simp: intsetRemove_def)
      have "intset_valid is'" "intset_elems is' = ?ys"
        using intset_validI [OF is'(2) rp(1)] intset_rep_elems [OF is'(2)] n pos(1) by auto
      moreover have "sorted_list_of_set (set ?xs - {v}) = ?ys"
        by (rule sorted_list_of_set_unique [OF rp])
      ultimately show ?thesis using is'(1) f fm by simp
    qed
  qed
qed

lemma intsetFind_valid:
  assumes "intset_valid is" "in_enc 8 v"
  shows "intsetFind is v = Some (v \<in> set (intset_elems is))"
proof -
  let ?xs = "intset_elems is" and ?e = "is_encoding is"
  have rep: "intset_rep is ?xs" and srt: "sorted_wrt (<) ?xs" and e: "is_enc ?e" and n: "length ?xs < 2 ^ 29"
    using assms intset_valid_rep by (auto simp: intset_valid_def intset_elems_def)
  have in_e: "\<forall>x \<in> set ?xs. in_enc ?e x" using rep by (auto simp: intset_rep_def in_set_conv_nth)
  obtain found pos where "intsetSearch is v = Some (found, pos)" "search_ok ?xs v (found, pos)"
    using intsetSearch_rep [OF rep srt, of v] n by auto
  with value_enc_le [OF e assms(2)] in_e search_ok_mem show ?thesis
    by (auto simp: intsetFind_def)
qed

subsection \<open>The contract of an integer set\<close>

locale int_set =
  fixes invar :: "'s \<Rightarrow> bool" and members :: "'s \<Rightarrow> int set" and storable :: "int \<Rightarrow> bool" and room :: "'s \<Rightarrow> bool"
    and empty :: 's and add remove :: "'s \<Rightarrow> int \<Rightarrow> ('s \<times> bool) res" and find :: "'s \<Rightarrow> int \<Rightarrow> bool res"
  assumes empty_ok: "invar empty" "members empty = {}"
    and add_ok: "invar s \<Longrightarrow> storable v \<Longrightarrow> room s \<Longrightarrow>
      \<exists>s'. add s v = Some (s', v \<notin> members s) \<and> invar s' \<and> members s' = insert v (members s)"
    and remove_ok: "invar s \<Longrightarrow> storable v \<Longrightarrow>
      \<exists>s'. remove s v = Some (s', v \<in> members s) \<and> invar s' \<and> members s' = members s - {v}"
    and find_ok: "invar s \<Longrightarrow> storable v \<Longrightarrow> find s v = Some (v \<in> members s)"
begin

lemma find_after_add:
  assumes "invar s" "storable v" "room s" "storable w" "add s v = Some (s', b)"
  shows "find s' w = Some (w = v \<or> w \<in> members s)"
  using add_ok [OF assms(1-3)] assms(4,5) find_ok by auto

lemma find_after_remove:
  assumes "invar s" "storable v" "storable w" "remove s v = Some (s', b)"
  shows "find s' w = Some (w \<noteq> v \<and> w \<in> members s)"
  using remove_ok [OF assms(1,2)] assms(3,4) find_ok by auto

lemma add_remove:
  assumes "invar s" "storable v" "room s" "v \<notin> members s" "add s v = Some (s1, b)" "remove s1 v = Some (s2, c)"
  shows "members s2 = members s \<and> b \<and> c"
proof -
  have s1: "invar s1" "members s1 = insert v (members s)" "b" using add_ok [OF assms(1-3)] assms(4,5) by auto
  with remove_ok [OF s1(1) assms(2)] assms(4,6) show ?thesis by auto
qed

end

interpretation isx: int_set intset_valid "\<lambda>is. set (intset_elems is)" "in_enc 8" "\<lambda>is. is_length is < 2 ^ 29 - 1"
  intsetNew "intsetAdd junk" "intsetRemove junk" intsetFind for junk
proof unfold_locales
  show "intset_valid intsetNew" "set (intset_elems intsetNew) = {}"
    by (simp_all add: intset_valid_def intsetNew_def is_enc_def intset_elems_def)
next
  fix s v assume "intset_valid s" "in_enc 8 v" "is_length s < 2 ^ 29 - 1"
  from intsetAdd_valid [OF this, of junk]
  show "\<exists>s'. intsetAdd junk s v = Some (s', v \<notin> set (intset_elems s)) \<and> intset_valid s' \<and>
      set (intset_elems s') = insert v (set (intset_elems s))"
    by (metis List.finite_set finite_insert set_sorted_list_of_set)
next
  fix s v assume "intset_valid s" "in_enc 8 v"
  from intsetRemove_valid [OF this, of junk]
  show "\<exists>s'. intsetRemove junk s v = Some (s', v \<in> set (intset_elems s)) \<and> intset_valid s' \<and>
      set (intset_elems s') = set (intset_elems s) - {v}"
    by (metis List.finite_set finite_Diff set_sorted_list_of_set)
qed (rule intsetFind_valid)


subsection \<open>Integrity check of a serialized set\<close>

lemma sorted_two: "i < length xs \<Longrightarrow> 0 < i \<Longrightarrow> 1 < k \<Longrightarrow>
    sorted_wrt (<) (take k (drop (i - 1) xs)) \<longleftrightarrow> xs ! (i - 1) < xs ! i \<and> sorted_wrt (<) (take (k - 1) (drop i xs))"
  for xs :: "int list"
proof -
  assume *: "i < length xs" "0 < i" "1 < k"
  then obtain k' where k: "k = Suc (Suc k')" using less_iff_Suc_add by auto
  have "drop (i - 1) xs = xs ! (i - 1) # xs ! i # drop (Suc i) xs" "drop i xs = xs ! i # drop (Suc i) xs"
    using * Cons_nth_drop_Suc [of "i - 1" xs] Cons_nth_drop_Suc [of i xs] by auto
  then show ?thesis by (auto simp: k)
qed

text \<open>The validation counts the records in a \<open>uint32_t\<close>, but reads them at an \<open>int\<close> position.\<close>

lemma validate_loop:
  assumes rep: "intset_rep is xs" and len: "length xs < 2 ^ 32" and "i + n = length xs" "0 < i" "i \<le> 2 ^ 31"
  shows "intsetValidate_loop is i n (xs ! (i - 1)) =
    (if 2 ^ 31 < length xs \<and> sorted_wrt (<) (take (2 ^ 31 - (i - 1)) (drop (i - 1) xs)) then None
     else Some (sorted_wrt (<) (drop (i - 1) xs)))"
  using assms(3-5)
proof (induction n arbitrary: i)
  case 0
  then have "i = length xs" "0 < length xs" "\<not> 2 ^ 31 < length xs" by simp_all
  then have "length (drop (i - 1) xs) = 1" "\<not> 2 ^ 31 < length xs" by (simp_all add: Suc_leI)
  moreover from this(1) obtain a where "drop (i - 1) xs = [a]" by (auto simp only: length_Suc_conv One_nat_def length_0_conv)
  ultimately show ?case by simp
next
  case (Suc n)
  show ?case
  proof (cases "i = 2 ^ 31")
    case True
    have "intset_Get is (c_int i) = None" unfolding True by (rule intset_Get_negative [OF c_int_negative]) simp_all
    moreover have "2 ^ 31 - (i - 1) = 1" "2 ^ 31 < length xs" using True Suc.prems by simp_all
    moreover have "sorted_wrt (<) (take 1 ys)" for ys :: "int list" by (cases ys) auto
    ultimately show ?thesis by (simp del: One_nat_def)
  next
    case False
    then have i: "i < 2 ^ 31" "i < length xs" using Suc.prems by simp_all
    have get: "intset_Get is (c_int i) = Some (xs ! i)" using intset_Get_rep [OF rep i(2)] i(1) by simp
    have ih: "intsetValidate_loop is (i + 1) n (xs ! i) =
        (if 2 ^ 31 < length xs \<and> sorted_wrt (<) (take (2 ^ 31 - i) (drop i xs)) then None else Some (sorted_wrt (<) (drop i xs)))"
      using Suc.IH [of "i + 1"] Suc.prems i(1) by simp
    have k: "1 < 2 ^ 31 - (i - 1)" "2 ^ 31 - (i - 1) - 1 = 2 ^ 31 - i" using i(1) Suc.prems(2) by auto
    have s1: "sorted_wrt (<) (take (2 ^ 31 - (i - 1)) (drop (i - 1) xs)) \<longleftrightarrow> xs ! (i - 1) < xs ! i \<and> sorted_wrt (<) (take (2 ^ 31 - i) (drop i xs))"
      using sorted_two [OF i(2) Suc.prems(2) k(1)] unfolding k(2) .
    have s2: "sorted_wrt (<) (drop (i - 1) xs) \<longleftrightarrow> xs ! (i - 1) < xs ! i \<and> sorted_wrt (<) (drop i xs)"
      using sorted_two [OF i(2) Suc.prems(2), of "Suc (length xs)"] i(2) by (cases "xs = []") simp_all
    show ?thesis unfolding s1 s2 using get ih by auto
  qed
qed

definition blob_format :: "u8 list \<Rightarrow> bool" where
  "blob_format p \<longleftrightarrow> 8 \<le> length p \<and> is_enc (is_encoding (intset_of_blob p)) \<and>
     length p = 8 + is_length (intset_of_blob p) * is_encoding (intset_of_blob p) \<and> is_length (intset_of_blob p) \<noteq> 0"

definition blob_ok :: "u8 list \<Rightarrow> bool" where
  "blob_ok p \<longleftrightarrow> blob_format p \<and> sorted_wrt (<) (intset_elems (intset_of_blob p))"

text \<open>The blobs that make the validation read at a negative position.\<close>

definition blob_too_long :: "u8 list \<Rightarrow> bool" where
  "blob_too_long p \<longleftrightarrow> blob_format p \<and> 2 ^ 31 < is_length (intset_of_blob p) \<and> sorted_wrt (<) (take (2 ^ 31) (intset_elems (intset_of_blob p)))"

lemma validate_blob: "intsetValidateIntegrity p (length p) True = (if blob_too_long p then None else Some (blob_ok p))"
proof (cases "blob_format p")
  case False
  then show ?thesis
    by (auto simp: intsetValidateIntegrity_def blob_ok_def blob_too_long_def blob_format_def is_enc_def rd_n_def Let_def)
next
  case True
  let ?is = "intset_of_blob p"
  have len: "length (is_contents ?is) = length p - 8" by (simp add: intset_of_blob_def)
  have rep: "intset_rep ?is (intset_elems ?is)" using True len by (intro struct_rep) (auto simp: blob_format_def)
  let ?xs = "intset_elems ?is"
  have n: "length ?xs = is_length ?is" "0 < length ?xs" using True by (auto simp: intset_elems_def blob_format_def)
  have "length (take 4 (drop 4 p)) = 4" using True by (simp add: blob_format_def)
  then have l: "length ?xs < 2 ^ 32"
    using le_uint_bounds [of "take 4 (drop 4 p)"] unfolding n(1) by (simp add: intset_of_blob_def nat_less_iff)
  have "intset_Get ?is 0 = Some (?xs ! 0)" using intset_Get_rep [OF rep n(2)] by simp
  moreover have "intsetValidate_loop ?is 1 (is_length ?is - 1) (?xs ! 0) =
      (if 2 ^ 31 < is_length ?is \<and> sorted_wrt (<) (take (2 ^ 31) ?xs) then None else Some (sorted_wrt (<) ?xs))"
    using validate_loop [OF rep l, of 1 "is_length ?is - 1"] n by simp
  ultimately show ?thesis using True
    by (auto simp: intsetValidateIntegrity_def blob_ok_def blob_too_long_def blob_format_def is_enc_def rd_n_def Let_def)
qed

lemma concat_block:
  "\<forall>x. length (f x) = k \<Longrightarrow> i < length xs \<Longrightarrow> take k (drop (i * k) (concat (map f xs))) = f (xs ! i)"
proof (induction xs arbitrary: i)
  case (Cons x xs)
  then show ?case by (cases i) auto
qed simp

text \<open>The blob of 64-bit records that holds a list of integers.\<close>

definition blob_of :: "int list \<Rightarrow> u8 list" where
  "blob_of xs = le_bytes 4 8 @ le_bytes 4 (int (length xs)) @ concat (map (le_bytes 8) xs)"

lemma blob_of_rep:
  assumes "length xs < 2 ^ 32" "\<forall>x\<in>set xs. in_enc 8 x"
  shows "intset_rep (intset_of_blob (blob_of xs)) xs"
proof -
  have "length (concat (map (le_bytes 8) xs)) = length xs * 8" by (simp add: length_concat comp_def sum_list_triv)
  moreover have "rd_n (concat (map (le_bytes 8) xs)) (i * 8) 8 = Some (le_bytes 8 (xs ! i))" if "i < length xs" for i
    using that calculation concat_block [of "le_bytes 8" 8 i xs] by (simp add: rd_n_def)
  ultimately show ?thesis using assms
    by (auto simp: intset_rep_def intset_of_blob_def blob_of_def le_uint_le_bytes cell_def is_enc_def)
qed

lemma blob_too_long_exists: "blob_too_long (blob_of (map int [0..<2 ^ 31 + 1]))"
proof -
  let ?xs = "map int [0..<2 ^ 31 + 1]"
  have "\<forall>x\<in>set ?xs. in_enc 8 x" by (auto simp: in_enc_def)
  then have rep: "intset_rep (intset_of_blob (blob_of ?xs)) ?xs" by (intro blob_of_rep) simp_all
  moreover have "intset_elems (intset_of_blob (blob_of ?xs)) = ?xs" using rep by (rule intset_rep_elems)
  moreover have "sorted_wrt (<) ?xs" by (simp add: sorted_wrt_map del: upt_Suc)
  moreover have "length (blob_of ?xs) = 8 + length (is_contents (intset_of_blob (blob_of ?xs)))"
    by (simp add: blob_of_def intset_of_blob_def)
  ultimately show ?thesis
    by (auto simp: blob_too_long_def blob_format_def intset_rep_def sorted_wrt_take simp del: upt_Suc)
qed

lemma intsetValidateIntegrity_reads_before:
  "intsetValidateIntegrity (blob_of (map int [0..<2 ^ 31 + 1])) (length (blob_of (map int [0..<2 ^ 31 + 1]))) True = None"
  by (simp only: validate_blob blob_too_long_exists if_True)

subsection \<open>Properties\<close>

text \<open>C11: adding a 64-bit value to a valid intset with fewer than \<open>2 ^ 29 - 1\<close> elements never
  faults, reports whether the value was new, and yields a valid intset holding exactly the old
  elements and the value, in strictly ascending order; this covers the in-place upgrade to a wider
  encoding, whatever bytes the allocator left in the grown block.\<close>

theorem intsetAdd_correct:
  assumes "intset_valid is" "in_enc 8 v" "is_length is < 2 ^ 29 - 1"
  shows "\<exists>is'. intsetAdd junk is v = Some (is', v \<notin> set (intset_elems is)) \<and> intset_valid is' \<and>
    intset_elems is' = sorted_list_of_set (insert v (set (intset_elems is)))"
  by (rule intsetAdd_valid [OF assms])

theorem intsetAdd_correct_witness:
  "\<exists>is'. intsetAdd (\<lambda>_. 255) \<lparr>is_encoding = 2, is_length = 2, is_contents = [254, 255, 1, 0]\<rparr> 70000 = Some (is', True) \<and>
     intset_elems is' = [- 2, 1, 70000]"
proof -
  let ?is = "\<lparr>is_encoding = 2, is_length = 2, is_contents = [254, 255, 1, 0 :: u8]\<rparr>"
  have el: "intset_elems ?is = [- 2, 1]" by (simp add: intset_elems_def le_sint_def upt_rec)
  have "intset_valid ?is" using el by (simp add: intset_valid_def is_enc_def)
  moreover have "in_enc 8 70000" by (simp add: in_enc_def)
  ultimately show ?thesis using intsetAdd_correct [of ?is 70000 "\<lambda>_. 255"] el by auto
qed

text \<open>C19: removing a value never faults, reports whether it was a member, and yields a valid
  intset holding exactly the other elements in ascending order.\<close>

theorem intsetRemove_correct:
  assumes "intset_valid is" "in_enc 8 v"
  shows "\<exists>is'. intsetRemove junk is v = Some (is', v \<in> set (intset_elems is)) \<and> intset_valid is' \<and>
    intset_elems is' = sorted_list_of_set (set (intset_elems is) - {v})"
  by (rule intsetRemove_valid [OF assms])

theorem intsetRemove_correct_witness:
  "\<exists>is'. intsetRemove (\<lambda>_. 7) \<lparr>is_encoding = 2, is_length = 2, is_contents = [254, 255, 1, 0]\<rparr> (- 2) = Some (is', True) \<and>
     intset_elems is' = [1]"
proof -
  let ?is = "\<lparr>is_encoding = 2, is_length = 2, is_contents = [254, 255, 1, 0 :: u8]\<rparr>"
  have el: "intset_elems ?is = [- 2, 1]" by (simp add: intset_elems_def le_sint_def upt_rec)
  have "intset_valid ?is" using el by (simp add: intset_valid_def is_enc_def)
  moreover have "in_enc 8 (- 2)" by (simp add: in_enc_def)
  ultimately show ?thesis using intsetRemove_correct [of ?is "- 2" "\<lambda>_. 7"] el by auto
qed

text \<open>C20: what the deep integrity check of a serialized intset does on every byte string. It accepts exactly the blobs with a known
  encoding, a matching size, at least one element and strictly ascending elements, and never reads outside the blob, with one
  exception: the record number is a \<open>uint32_t\<close> that is passed as an \<open>int\<close>, so on a blob of the right size with more than
  \<open>2 ^ 31\<close> records of which the first \<open>2 ^ 31\<close> ascend, and on no other, it reads before the blob (such a blob is \<open>blob_of [0, 1, \<dots>]\<close>).\<close>

theorem intsetValidateIntegrity_exact:
  "intsetValidateIntegrity p (length p) True = (if blob_too_long p then None else Some (blob_ok p))"
  by (rule validate_blob)

text \<open>C21: \<open>intsetMoveTail\<close> computes the number of bytes to move in a \<open>uint32_t\<close>: for a tail of
  exactly \<open>2 ^ 29\<close> 64-bit elements the count wraps to 0 and nothing is moved, so an insertion
  before them overwrites an element.  The limit of \<open>2 ^ 30\<close> entries in \<^verbatim>\<open>t_set.c\<close> does not
  exclude such a set.\<close>

theorem intsetMoveTail_wraps:
  assumes "is_encoding is = INTSET_ENC_INT64" "is_length is = from + 2 ^ 29"
    "length (is_contents is) = (is_length is + 1) * 8"
  shows "intsetMoveTail is from (from + 1) = Some is"
  using assms by (simp add: intsetMoveTail_def enc_width_def mem_move_def rd_n_def wr_n_def)

theorem intsetMoveTail_wraps_witness:
  "intsetMoveTail \<lparr>is_encoding = 8, is_length = 2 ^ 29, is_contents = replicate ((2 ^ 29 + 1) * 8) 0\<rparr> 0 1 =
     Some \<lparr>is_encoding = 8, is_length = 2 ^ 29, is_contents = replicate ((2 ^ 29 + 1) * 8) 0\<rparr>"
proof -
  let ?is = "\<lparr>is_encoding = 8, is_length = 2 ^ 29, is_contents = replicate ((2 ^ 29 + 1) * 8) (0 :: u8)\<rparr>"
  have "is_encoding ?is = INTSET_ENC_INT64" "is_length ?is = 0 + 2 ^ 29" "length (is_contents ?is) = (is_length ?is + 1) * 8"
    by (simp_all only: intset.select_convs length_replicate INTSET_ENC_INT64_def)
  from intsetMoveTail_wraps [OF this] show ?thesis by (simp only: add_0)
qed

end
