(* ===== verification/Numconv.thy ===== *)
theory Numconv
  imports Prelude
begin

text \<open>
  Conversions between 64-bit integers and decimal or hexadecimal strings (\<open>util.c\<close>).

  Character buffers are lists of bytes accessed through the checked \<open>rd\<close> and \<open>wr\<close>, so every
  theorem that gives a \<open>Some\<close> result also excludes an access outside the buffer. The C integer
  types are kept as \<open>nat\<close> and \<open>int\<close> with the bounds and the 32-bit index arithmetic written out.
  The reference is the canonical decimal numeral \<open>dec\<close> and its signed form \<open>ll_str\<close>.
\<close>

subsection \<open>The conversions\<close>

abbreviation ULLONG_MAX :: nat where "ULLONG_MAX \<equiv> 2 ^ 64 - 1"
abbreviation LLONG_MAX :: int where "LLONG_MAX \<equiv> 2 ^ 63 - 1"
abbreviation LLONG_MIN :: int where "LLONG_MIN \<equiv> - (2 ^ 63)"

definition LONG_STR_SIZE :: nat where "LONG_STR_SIZE = 21"

fun digits10 :: "nat \<Rightarrow> nat" where
  "digits10 v =
     (if v < 10 then 1
      else if v < 100 then 2
      else if v < 1000 then 3
      else if v < 1000000000000 then
        (if v < 100000000 then
           (if v < 1000000 then
              (if v < 10000 then 4 else 5 + (if v \<ge> 100000 then 1 else 0))
            else 7 + (if v \<ge> 10000000 then 1 else 0))
         else if v < 10000000000 then 9 + (if v \<ge> 1000000000 then 1 else 0)
         else 11 + (if v \<ge> 100000000000 then 1 else 0))
      else 12 + digits10 (v div 1000000000000))"

definition sdigits10 :: "int \<Rightarrow> nat" where
  "sdigits10 v =
     (if v < 0 then
        let uv = (if v \<noteq> LLONG_MIN then nat (- v) else nat LLONG_MAX + 1) in digits10 uv + 1
      else digits10 (nat v))"

definition digits_table :: "u8 list" where
  "digits_table = map of_char
     (''0001020304050607080910111213141516171819'' @
      ''2021222324252627282930313233343536373839'' @
      ''4041424344454647484950515253545556575859'' @
      ''6061626364656667686970717273747576777879'' @
      ''8081828384858687888990919293949596979899'')"

definition sub32 :: "nat \<Rightarrow> nat \<Rightarrow> nat" where
  "sub32 a b = (a + 2 ^ 32 - b) mod 2 ^ 32"

fun ull2string_loop :: "u8 list \<Rightarrow> nat \<Rightarrow> nat \<Rightarrow> (u8 list \<times> nat \<times> nat) res" where
  "ull2string_loop dst nxt v =
     (if v \<ge> 100 then do {
        let i = (v mod 100) * 2;
        d1 \<leftarrow> rd digits_table (i + 1);
        dst \<leftarrow> wr dst nxt d1;
        d0 \<leftarrow> rd digits_table i;
        dst \<leftarrow> wr dst (sub32 nxt 1) d0;
        ull2string_loop dst (sub32 nxt 2) (v div 100) }
      else Some (dst, nxt, v))"

definition ull2string :: "u8 list \<Rightarrow> nat \<Rightarrow> (u8 list \<times> nat) res" where
  "ull2string dst v =
     (let len = digits10 v
      in if len \<ge> length dst
         then do { dst \<leftarrow> (if length dst > 0 then wr dst 0 0 else Some dst); Some (dst, 0) }
         else do {
           let nxt = len - 1;
           dst \<leftarrow> wr dst (nxt + 1) 0;
           (dst, nxt, v) \<leftarrow> ull2string_loop dst nxt v;
           dst \<leftarrow> (if v < 10 then wr dst nxt (48 + of_nat v)
                   else do { let i = v * 2;
                             d1 \<leftarrow> rd digits_table (i + 1);
                             dst \<leftarrow> wr dst nxt d1;
                             d0 \<leftarrow> rd digits_table i;
                             wr dst (sub32 nxt 1) d0 });
           Some (dst, len) })"

definition ll2string :: "u8 list \<Rightarrow> int \<Rightarrow> (u8 list \<times> nat) res" where
  "ll2string dst sv =
     (if sv < 0 then
        let v = (if sv \<noteq> LLONG_MIN then nat (- sv) else nat LLONG_MAX + 1)
        in if length dst < 2
           then do { dst \<leftarrow> (if length dst > 0 then wr dst 0 0 else Some dst); Some (dst, 0) }
           else do {
             dst \<leftarrow> wr dst 0 45;
             (rest, len) \<leftarrow> ull2string (tl dst) v;
             let dst = hd dst # rest;
             if len = 0 then Some (dst, 0) else Some (dst, len + 1) }
      else do {
        (dst, len) \<leftarrow> ull2string dst (nat sv);
        if len = 0 then Some (dst, 0) else Some (dst, len) })"

text \<open>The accumulator of the parser is an \<open>unsigned long long\<close>, whose sums and products wrap around; \<open>- 1\<close> is its
  largest value. \<open>*value = v\<close> and \<open>*value = -v\<close> convert it to \<open>long long\<close>.\<close>

fun string2ll_loop :: "u8 list \<Rightarrow> u64 \<Rightarrow> (u64 \<times> u8 list) option" where
  "string2ll_loop [] v = Some (v, [])"
| "string2ll_loop (c # p) v =
     (if 48 \<le> c \<and> c \<le> 57 then
        let d = ucast c - 48
        in if v > - 1 div 10 then None
           else if v * 10 > - 1 - d then None
           else string2ll_loop p (v * 10 + d)
      else Some (v, c # p))"

definition string2ll :: "u8 list \<Rightarrow> int option" where
  "string2ll s =
     (if length s = 0 \<or> length s \<ge> LONG_STR_SIZE then None
      else if s = [48] then Some 0
      else
        let negative = (hd s = 45); p = (if negative then tl s else s)
        in case p of [] \<Rightarrow> None
           | c # p \<Rightarrow>
             (if 49 \<le> c \<and> c \<le> 57 then
                (case string2ll_loop p (ucast c - 48) of None \<Rightarrow> None
                 | Some (v, rest) \<Rightarrow>
                     (if rest \<noteq> [] then None
                      else if negative then (if v > word_of_int (- (LLONG_MIN + 1)) + 1 then None else Some (sint (- v)))
                      else if v > word_of_int LLONG_MAX then None else Some (sint v)))
              else None))"

definition string2l :: "u8 list \<Rightarrow> int option" where
  "string2l s =
     (case string2ll s of None \<Rightarrow> None
      | Some ll \<Rightarrow> (if ll < LLONG_MIN \<or> ll > LLONG_MAX then None else Some ll))"

definition safe_is_c_in_range :: "u8 \<Rightarrow> u8 \<Rightarrow> u8 \<Rightarrow> bool" where
  "safe_is_c_in_range c start stop \<longleftrightarrow> sint c \<ge> sint start \<and> sint c \<le> sint stop"

definition base_16_char_type :: "u8 \<Rightarrow> int" where
  "base_16_char_type c =
     (if safe_is_c_in_range c 48 57 then 0
      else if safe_is_c_in_range c 97 102 then 1
      else if safe_is_c_in_range c 65 70 then 2
      else - 1)"

definition ascii_to_dec :: "int list" where
  "ascii_to_dec = [48, 97 - 10, 65 - 10]"

function string2ul_base16_loop :: "u8 list \<Rightarrow> nat \<Rightarrow> nat \<Rightarrow> nat \<Rightarrow> nat option res" where
  "string2ul_base16_loop src slen i r =
     do { c \<leftarrow> rd src i;
          let char_type = base_16_char_type c;
          if char_type \<noteq> - 1 \<and> i < slen then do {
            off \<leftarrow> rd ascii_to_dec (nat char_type);
            let curr_val = nat (sint c - off);
            if r > ULLONG_MAX div 16 \<or> r > (ULLONG_MAX - curr_val) div 16 then Some None
            else string2ul_base16_loop src slen (i + 1) (r * 16 + curr_val) }
          else Some (Some r) }"
  by pat_completeness auto
termination
  by (relation "measure (\<lambda>(src, slen, i, r). length src - i)") auto

definition string2ul_base16_async_signal_safe :: "u8 list \<Rightarrow> nat \<Rightarrow> nat option res" where
  "string2ul_base16_async_signal_safe src slen = string2ul_base16_loop src slen 0 0"

fun mempbrk :: "u8 list \<Rightarrow> u8 list \<Rightarrow> nat \<Rightarrow> nat option" where
  "mempbrk [] chars j = None"
| "mempbrk (c # s) chars j = (if c \<in> set chars then Some j else mempbrk s chars (j + 1))"

fun memmapchar :: "u8 \<Rightarrow> (u8 \<times> u8) list \<Rightarrow> u8" where
  "memmapchar c [] = c"
| "memmapchar c ((f, t) # ft) = (if c = f then t else memmapchar c ft)"

definition memmapchars :: "u8 list \<Rightarrow> u8 list \<Rightarrow> u8 list \<Rightarrow> u8 list" where
  "memmapchars s from to_set = map (\<lambda>c. memmapchar c (zip from to_set)) s"

declare digits10.simps [simp del] ull2string_loop.simps [simp del] string2ul_base16_loop.simps [simp del]


subsection \<open>Decimal numerals\<close>

fun dec :: "nat \<Rightarrow> u8 list" where
  "dec n = (if n < 10 then [48 + of_nat n] else dec (n div 10) @ [48 + of_nat (n mod 10)])"

definition ll_str :: "int \<Rightarrow> u8 list" where
  "ll_str v = (if v < 0 then 45 # dec (nat (- v)) else dec (nat v))"

declare dec.simps [simp del]

lemma dec_snoc: "0 < n \<Longrightarrow> d < 10 \<Longrightarrow> dec (n * 10 + d) = dec n @ [48 + of_nat d]"
  by (subst dec.simps) auto

lemma dec_small: "n < 10 \<Longrightarrow> dec n = [48 + of_nat n]"
  by (subst dec.simps) simp

lemma length_dec_pow: "10 ^ k \<le> n \<Longrightarrow> n < 10 ^ Suc k \<Longrightarrow> length (dec n) = Suc k"
proof (induction k arbitrary: n)
  case 0
  then show ?case by (simp add: dec_small)
next
  case (Suc k)
  have "10 \<le> n" using Suc.prems(1) order_trans [of 10 "10 ^ Suc k" n] by simp
  moreover have "length (dec (n div 10)) = Suc k" using Suc.prems by (intro Suc.IH) auto
  ultimately show ?case by (subst dec.simps) simp
qed

lemma length_dec_small: "n < 10 \<Longrightarrow> length (dec n) = 1"
  by (simp add: dec_small)

lemma length_dec_div: "10 ^ k \<le> n \<Longrightarrow> length (dec n) = k + length (dec (n div 10 ^ k))"
proof (induction k arbitrary: n)
  case (Suc k)
  have n: "10 \<le> n" using Suc.prems order_trans [of 10 "10 ^ Suc k" n] by simp
  have "10 ^ k \<le> n div 10" using Suc.prems by (simp add: less_eq_div_iff_mult_less_eq mult.commute)
  with Suc.IH have "length (dec (n div 10)) = k + length (dec (n div 10 div 10 ^ k))" by blast
  moreover have "n div 10 div 10 ^ k = n div 10 ^ Suc k" by (simp add: div_mult2_eq)
  ultimately show ?case using n by (subst dec.simps) simp
qed simp

lemma digits10_small:
  assumes "v < 1000000000000"
  shows "digits10 v = length (dec v)"
proof (cases "v = 0")
  case True
  then show ?thesis by (subst digits10.simps) (simp add: dec_small)
next
  case False
  obtain j where j: "10 ^ j \<le> v" "v < 10 ^ Suc j" using ex_power_ivl1 [of 10 v] False by auto
  have "(10::nat) ^ j < 10 ^ 12" using order.strict_trans1 [OF j(1)] assms by simp
  then have "j < 12" by (rule power_less_imp_less_exp [rotated]) simp
  then have "j \<in> {0,1,2,3,4,5,6,7,8,9,10,11}" unfolding insert_iff empty_iff by presburger
  then have "digits10 v = Suc j" using j
    by (elim insertE emptyE) (subst digits10.simps, simp)+
  then show ?thesis using length_dec_pow [OF j] by simp
qed

lemma digits10_eq: "digits10 v = length (dec v)"
proof (induction v rule: digits10.induct)
  case (1 v)
  show ?case
  proof (cases "v < 1000000000000")
    case False
    then have "length (dec v) = 12 + length (dec (v div 10 ^ 12))" by (intro length_dec_div) simp
    moreover have "digits10 v = 12 + digits10 (v div 1000000000000)" using False by (subst digits10.simps) simp
    ultimately show ?thesis using 1 False by simp
  qed (rule digits10_small)
qed

definition is_digit :: "u8 \<Rightarrow> bool" where
  "is_digit c \<longleftrightarrow> 48 \<le> c \<and> c \<le> 57"

definition dec_val :: "nat \<Rightarrow> u8 list \<Rightarrow> nat" where
  "dec_val v p = foldl (\<lambda>a c. a * 10 + (unat c - 48)) v p"

lemma is_digit_of_nat: "d < 10 \<Longrightarrow> is_digit (48 + of_nat d)" "d < 10 \<Longrightarrow> unat (48 + of_nat d :: u8) = 48 + d"
  by (auto simp: is_digit_def word_le_nat_alt unat_word_ariths unat_of_nat)

lemma digit_of_nat: "is_digit c \<Longrightarrow> \<exists>d < 10. c = 48 + of_nat d \<and> unat c - 48 = d"
proof -
  assume "is_digit c"
  then have "48 \<le> unat c" "unat c \<le> 57" by (auto simp: is_digit_def word_le_nat_alt)
  moreover have "c = 48 + of_nat (unat c - 48)"
    using calculation by (subst word_unat_eq_iff) (simp add: is_digit_of_nat(2))
  ultimately show ?thesis by (intro exI [of _ "unat c - 48"]) auto
qed

lemma dec_digits: "\<forall>c \<in> set (dec n). is_digit c"
proof (induction n rule: dec.induct)
  case (1 n)
  then show ?case by (subst dec.simps) (auto simp: is_digit_of_nat)
qed

lemma dec_val_snoc [simp]: "dec_val v (p @ [c]) = dec_val v p * 10 + (unat c - 48)"
  by (simp add: dec_val_def)

lemma dec_val_dec: "dec_val 0 (dec n) = n"
proof (induction n rule: dec.induct)
  case (1 n)
  then show ?case
    by (subst dec.simps) (auto simp: is_digit_of_nat dec_val_def)
qed

lemma dec_of_val:
  "p \<noteq> [] \<Longrightarrow> \<forall>c \<in> set p. is_digit c \<Longrightarrow> hd p \<noteq> 48 \<Longrightarrow> dec (dec_val 0 p) = p \<and> 0 < dec_val 0 p"
proof (induction p rule: rev_induct)
  case (snoc c p)
  have "is_digit c" using snoc.prems by simp
  then obtain d where d: "d < 10" "c = 48 + of_nat d" "unat c - 48 = d" using digit_of_nat by blast
  show ?case
  proof (cases "p = []")
    case True
    then have "d \<noteq> 0" using snoc.prems d(2) by (cases "d = 0") auto
    with True d show ?thesis by (simp add: dec_val_def dec_small)
  next
    case False
    with snoc have "dec (dec_val 0 p) = p" "0 < dec_val 0 p" by auto
    with d show ?thesis by (simp add: dec_snoc)
  qed
qed simp


subsection \<open>Parsing\<close>

lemma dec_val_Cons: "dec_val v (c # p) = dec_val (v * 10 + (unat c - 48)) p"
  by (simp add: dec_val_def)

lemma dec_val_ge: "v \<le> dec_val v p"
proof (induction p arbitrary: v)
  case (Cons c p)
  have "v \<le> v * 10 + (unat c - 48)" by simp
  also have "\<dots> \<le> dec_val (v * 10 + (unat c - 48)) p" by (rule Cons.IH)
  finally show ?case by (simp add: dec_val_Cons)
qed (simp add: dec_val_def)

lemma unat_u8_less: "unat (c :: u8) < 256"
proof -
  have "unat c < 2 ^ LENGTH(8)" by (rule unsigned_less)
  then show ?thesis by simp
qed

lemma unat_ucast_digit: "48 \<le> c \<Longrightarrow> c \<le> 57 \<Longrightarrow> unat (ucast (c :: u8) - 48 :: u64) = unat c - 48"
proof -
  assume c: "48 \<le> c" "c \<le> 57"
  have "unat (ucast c :: u64) = unat c" by (simp add: unsigned_ucast_eq take_bit_nat_eq_self unat_u8_less [THEN order.strict_trans])
  moreover from this have "48 \<le> (ucast c :: u64)" using c by (simp add: word_le_nat_alt)
  ultimately show ?thesis by (simp add: unat_sub)
qed

lemma unat_ull_max: "unat (- 1 :: u64) = ULLONG_MAX"
  by (simp add: unsigned_minus_1_eq_mask mask_eq_exp_minus_1)

lemma unat_of_nat_ull: "n \<le> ULLONG_MAX \<Longrightarrow> unat (of_nat n :: u64) = n"
  by (simp add: unsigned_of_nat take_bit_nat_eq_self)

lemma ull_step:
  fixes w D :: u64
  assumes "unat D = d" "d < 10"
  shows "w > - 1 div 10 \<or> w * 10 > - 1 - D \<longleftrightarrow> unat w * 10 + d > ULLONG_MAX"
    and "unat w * 10 + d \<le> ULLONG_MAX \<Longrightarrow> unat (w * 10 + D) = unat w * 10 + d"
proof -
  have a: "w > - 1 div 10 \<longleftrightarrow> unat w > ULLONG_MAX div 10"
    by (simp add: word_less_nat_alt unat_div_distrib unat_ull_max)
  have m: "unat (- 1 - D) = ULLONG_MAX - d"
    using assms by (simp add: unat_sub word_le_nat_alt unat_ull_max)
  have w10: "unat (w * 10) = unat w * 10" if "unat w \<le> ULLONG_MAX div 10"
    using that by (simp add: unat_word_ariths)
  show "w > - 1 div 10 \<or> w * 10 > - 1 - D \<longleftrightarrow> unat w * 10 + d > ULLONG_MAX"
    unfolding a using w10 m assms(2) by (cases "unat w \<le> ULLONG_MAX div 10") (auto simp: word_less_nat_alt)
  assume le: "unat w * 10 + d \<le> ULLONG_MAX"
  then have "unat (w * 10) = unat w * 10" by (intro w10) simp
  then show "unat (w * 10 + D) = unat w * 10 + d" using le assms(1) by (simp add: unat_word_ariths)
qed

lemma string2ll_loop_digits:
  "\<forall>c \<in> set p. is_digit c \<Longrightarrow>
    string2ll_loop p w = (if dec_val (unat w) p \<le> ULLONG_MAX then Some (of_nat (dec_val (unat w) p), []) else None)"
proof (induction p arbitrary: w)
  case Nil
  have "unat w \<le> ULLONG_MAX" using unat_less_64 [of w] by simp
  then show ?case by (simp add: dec_val_def)
next
  case (Cons c p)
  define D :: u64 where "D = ucast c - 48"
  obtain d where d: "d < 10" "unat c - 48 = d" using digit_of_nat Cons.prems(1) by auto
  have c: "48 \<le> c" "c \<le> 57" using Cons.prems(1) by (auto simp: is_digit_def)
  have D: "unat D = d" using unat_ucast_digit [OF c] d(2) by (simp add: D_def)
  note st = ull_step [OF D d(1), of w]
  show ?case
  proof (cases "unat w * 10 + d \<le> ULLONG_MAX")
    case True
    then have "\<not> (w > - 1 div 10 \<or> w * 10 > - 1 - D)" unfolding st(1) by simp
    then have "string2ll_loop (c # p) w = string2ll_loop p (w * 10 + D)" using c by (simp add: Let_def flip: D_def)
    then show ?thesis using Cons.IH [of "w * 10 + D"] Cons.prems(1) d(2) st(2) [OF True] by (simp add: dec_val_Cons)
  next
    case False
    then have "w > - 1 div 10 \<or> w * 10 > - 1 - D" unfolding st(1) by simp
    then have "string2ll_loop (c # p) w = None" using c by (auto simp: Let_def simp flip: D_def)
    moreover have "\<not> dec_val (unat w) (c # p) \<le> ULLONG_MAX"
      using False dec_val_ge [of "unat w * 10 + d" p] d by (simp add: dec_val_Cons)
    ultimately show ?thesis by simp
  qed
qed

lemma to_long_long:
  fixes w :: u64
  shows "w > word_of_int (- (LLONG_MIN + 1)) + 1 \<longleftrightarrow> unat w > 2 ^ 63" "w > word_of_int LLONG_MAX \<longleftrightarrow> unat w \<ge> 2 ^ 63"
    and "unat w \<le> 2 ^ 63 \<Longrightarrow> sint (- w) = - int (unat w)" "unat w < 2 ^ 63 \<Longrightarrow> sint w = int (unat w)"
proof -
  show "w > word_of_int (- (LLONG_MIN + 1)) + 1 \<longleftrightarrow> unat w > 2 ^ 63" "w > word_of_int LLONG_MAX \<longleftrightarrow> unat w \<ge> 2 ^ 63"
    by (simp_all add: word_less_nat_alt Suc_le_eq less_eq_Suc_le)
  have k: "sint (word_of_int k :: u64) = k" if "- (2 ^ 63) \<le> k" "k < 2 ^ 63" for k
    using that by (simp add: signed_of_int signed_take_bit_int_eq_self)
  have z: "0 \<le> int (unat w)" "(0 :: int) < 2 ^ 63" by simp_all
  show "sint (- w) = - int (unat w)" if "unat w \<le> 2 ^ 63"
  proof -
    have "int (unat w) \<le> int (2 ^ 63)" using that by (simp only: of_nat_le_iff)
    then have "int (unat w) \<le> 2 ^ 63" by (simp only: of_nat_power of_nat_numeral)
    then have "sint (word_of_int (- int (unat w)) :: u64) = - int (unat w)" using z by (intro k) linarith+
    then show ?thesis by simp
  qed
  show "sint w = int (unat w)" if "unat w < 2 ^ 63"
  proof -
    have "int (unat w) < int (2 ^ 63)" using that by (simp only: of_nat_less_iff)
    then have "int (unat w) < 2 ^ 63" by (simp only: of_nat_power of_nat_numeral)
    then have "sint (word_of_int (int (unat w)) :: u64) = int (unat w)" using z by (intro k) linarith+
    then show ?thesis by simp
  qed
qed

lemma string2ll_loop_all_digits:
  "string2ll_loop p v = Some (r, []) \<Longrightarrow> \<forall>c \<in> set p. is_digit c"
proof (induction p arbitrary: v)
  case (Cons c p)
  then have c: "48 \<le> c \<and> c \<le> 57" by (simp split: if_split_asm)
  then obtain v' where "string2ll_loop p v' = Some (r, [])"
    using Cons.prems unfolding string2ll_loop.simps Let_def if_P [OF c] by (metis option.distinct(1))
  with Cons.IH c show ?case by (simp add: is_digit_def)
qed simp

lemma length_dec_bound: "n < 10 ^ k \<Longrightarrow> 0 < k \<Longrightarrow> length (dec n) \<le> k"
proof (cases "n = 0")
  case False
  assume n: "n < 10 ^ k"
  obtain j where j: "10 ^ j \<le> n" "n < 10 ^ Suc j" using ex_power_ivl1 [of 10 n] False by auto
  have "(10::nat) ^ j < 10 ^ k" using j(1) n by (rule order.strict_trans1)
  then have "j < k" by (rule power_less_imp_less_exp [rotated]) simp
  then show ?thesis using length_dec_pow [OF j] by simp
qed (simp add: dec_small)

lemma dec_hd: "0 < n \<Longrightarrow> dec n \<noteq> [] \<and> 49 \<le> hd (dec n) \<and> hd (dec n) \<le> 57"
proof (induction n rule: dec.induct)
  case (1 n)
  show ?case
  proof (cases "n < 10")
    case True
    with 1(2) show ?thesis by (simp add: dec_small word_le_nat_alt is_digit_of_nat)
  next
    case False
    with 1 show ?thesis by (subst (1 2 3) dec.simps) simp
  qed
qed


text \<open>A string parses to a value exactly when it is the canonical decimal numeral of that value.\<close>

lemma string2ll_canonical:
  assumes "LLONG_MIN \<le> v" "v \<le> LLONG_MAX"
  shows "string2ll (ll_str v) = Some v"
proof (cases "v = 0")
  case True
  then show ?thesis by (simp add: string2ll_def ll_str_def dec_small LONG_STR_SIZE_def)
next
  case False
  define n where "n = nat \<bar>v\<bar>"
  have n: "0 < n" "n \<le> 2 ^ 63" using False assms by (auto simp: n_def)
  obtain c p where cp: "dec n = c # p" using dec_hd [OF n(1)] by (cases "dec n") auto
  have c: "49 \<le> c" "c \<le> 57" using dec_hd [OF n(1)] cp by auto
  have dg: "\<forall>c \<in> set p. is_digit c" using dec_digits [of n] cp by auto
  have "length (dec n) \<le> 19" using n(2) by (intro length_dec_bound) auto
  then have len: "length (ll_str v) < LONG_STR_SIZE" "ll_str v \<noteq> []"
    using cp by (auto simp: ll_str_def n_def LONG_STR_SIZE_def)
  have val: "dec_val (unat c - 48) p = n" using dec_val_dec [of n] by (simp add: cp dec_val_Cons)
  have uc: "unat (ucast c - 48 :: u64) = unat c - 48" using c by (intro unat_ucast_digit) (auto simp: word_le_nat_alt)
  have lp: "string2ll_loop p (ucast c - 48) = Some (of_nat n, [])"
    using string2ll_loop_digits [OF dg, of "ucast c - 48"] val n(2) unfolding uc by simp
  have un: "unat (of_nat n :: u64) = n" using n(2) by (intro unat_of_nat_ull) simp
  note ll = to_long_long [of "of_nat n :: u64", unfolded un]
  have ne: "ll_str v \<noteq> [48]" "\<not> v < 0 \<Longrightarrow> c \<noteq> 45"
    using c cp by (auto simp: ll_str_def n_def)
  show ?thesis
  proof (cases "v < 0")
    case True
    then have s: "ll_str v = 45 # c # p" and v: "v = - int n" using cp by (simp_all add: ll_str_def n_def)
    have "\<not> of_nat n > word_of_int (- (LLONG_MIN + 1)) + (1 :: u64)" "sint (- (of_nat n :: u64)) = - int n" using ll(1) ll(3) n(2) by auto
    then show ?thesis using c lp len unfolding s unfolding v by (simp add: string2ll_def)
  next
    case False
    then have s: "ll_str v = c # p" and v: "v = int n" using cp by (simp_all add: ll_str_def n_def)
    have "c # p \<noteq> [48]" "c \<noteq> 45" using ne False s by auto
    moreover have "\<not> of_nat n > (word_of_int LLONG_MAX :: u64)" "sint (of_nat n :: u64) = int n" using ll(2) ll(4) assms(2) v by auto
    ultimately show ?thesis using c lp len unfolding s unfolding v by (auto simp: string2ll_def)
  qed
qed

lemma string2ll_sound:
  assumes "string2ll s = Some v"
  shows "LLONG_MIN \<le> v \<and> v \<le> LLONG_MAX \<and> s = ll_str v"
proof (cases "s = [48]")
  case True
  with assms show ?thesis by (simp add: string2ll_def LONG_STR_SIZE_def ll_str_def dec_small)
next
  case False
  define neg where "neg = (hd s = 45)"
  obtain c p where cp: "(if neg then tl s else s) = c # p" "49 \<le> c" "c \<le> 57"
    using assms False by (auto simp: string2ll_def neg_def Let_def split: if_splits list.splits)
  from assms False cp obtain w where w: "string2ll_loop p (ucast c - 48) = Some (w, [])"
    "v = (if neg then sint (- w) else sint w)"
    "if neg then \<not> w > word_of_int (- (LLONG_MIN + 1)) + 1 else \<not> w > word_of_int LLONG_MAX"
    by (auto simp: string2ll_def neg_def Let_def split: if_splits option.splits)
  define n where "n = unat w"
  have n: "v = (if neg then - int n else int n)" "if neg then n \<le> 2 ^ 63 else n < 2 ^ 63"
    using w(2, 3) to_long_long [of w] unfolding n_def by (cases neg; simp only: if_True if_False not_less not_le)+
  have dg: "\<forall>c \<in> set p. is_digit c" by (rule string2ll_loop_all_digits [OF w(1)])
  have c: "is_digit c" "c \<noteq> 48" using cp by (auto simp: is_digit_def word_le_nat_alt)
  have uc: "unat (ucast c - 48 :: u64) = unat c - 48" using cp(2, 3) by (intro unat_ucast_digit) (auto simp: word_le_nat_alt)
  have "dec_val (unat c - 48) p \<le> ULLONG_MAX" "w = of_nat (dec_val (unat c - 48) p)"
    using string2ll_loop_digits [OF dg, of "ucast c - 48"] w(1) unfolding uc by (simp_all split: if_splits)
  then have "n = dec_val 0 (c # p)" unfolding n_def by (simp add: dec_val_Cons unat_of_nat_ull)
  then have d: "dec n = c # p" "0 < n" using dec_of_val [of "c # p"] c dg by auto
  have "s \<noteq> []" using assms by (auto simp: string2ll_def)
  then have "s = (if neg then 45 # c # p else c # p)" using cp(1) by (cases s) (auto simp: neg_def split: if_splits)
  with d n show ?thesis by (auto simp: ll_str_def)
qed



subsection \<open>Printing\<close>

lemma nth_concat_pairs:
  "k < length xs \<Longrightarrow> concat (map (\<lambda>k. [f k, g k]) xs) ! (k * 2) = f (xs ! k)"
  "k < length xs \<Longrightarrow> concat (map (\<lambda>k. [f k, g k]) xs) ! Suc (k * 2) = g (xs ! k)"
proof (induction xs arbitrary: k)
  case (Cons x xs)
  { case 1 then show ?case using Cons.IH(1) by (cases k) auto }
  { case 2 then show ?case using Cons.IH(2) by (cases k) auto }
qed auto

lemma digits_table_eq:
  "digits_table = concat (map (\<lambda>k. [48 + of_nat (k div 10), 48 + of_nat (k mod 10)]) [0..<100])"
  by (simp add: digits_table_def upt_rec)

lemma length_digits_table [simp]: "length digits_table = 200"
  by (simp add: digits_table_def)

lemma digits_table_nth:
  assumes "k < 100"
  shows "digits_table ! (k * 2) = 48 + of_nat (k div 10)" "digits_table ! Suc (k * 2) = 48 + of_nat (k mod 10)"
  using assms unfolding digits_table_eq
  by (simp_all only: nth_concat_pairs nth_upt length_upt diff_zero add_0)

lemma dec_100:
  assumes "100 \<le> v"
  shows "dec v = dec (v div 100) @ [48 + of_nat (v mod 100 div 10), 48 + of_nat (v mod 100 mod 10)]"
proof -
  have "dec v = dec (v div 10) @ [48 + of_nat (v mod 10)]" using assms by (subst dec.simps) simp
  moreover have "dec (v div 10) = dec (v div 10 div 10) @ [48 + of_nat (v div 10 mod 10)]"
    using assms by (subst dec.simps) auto
  moreover have "v div 10 div 10 = v div 100" "v mod 100 div 10 = v div 10 mod 10" "v mod 100 mod 10 = v mod 10"
    by (auto simp: div_mult2_eq [symmetric] mod_mult2_eq [of v 10 10, simplified] mod_mod_cancel)
  ultimately show ?thesis by simp
qed

lemma sub32_le: "b \<le> a \<Longrightarrow> a < 2 ^ 32 \<Longrightarrow> sub32 a b = a - b"
proof -
  assume "b \<le> a" "a < 2 ^ 32"
  then have eq: "a + 2 ^ 32 - b = (a - b) + 2 ^ 32" by simp
  show ?thesis using \<open>a < 2 ^ 32\<close> unfolding sub32_def eq mod_add_self2 by (intro mod_less) simp
qed

lemma dec_ne [simp]: "dec n \<noteq> []"
  by (subst dec.simps) simp

lemma ull2string_loop_correct:
  assumes "length (dec v) \<le> Suc nxt" "nxt < length dst" "nxt < 2 ^ 32"
  shows "\<exists>v' ds. v' < 100 \<and> dec v = dec v' @ ds \<and>
    ull2string_loop dst nxt v = Some (take (Suc nxt - length ds) dst @ ds @ drop (Suc nxt) dst, nxt - length ds, v')"
  using assms
proof (induction v arbitrary: dst nxt rule: less_induct)
  case (less v)
  show ?case
  proof (cases "v < 100")
    case True
    then have "ull2string_loop dst nxt v = Some (dst, nxt, v)" by (subst ull2string_loop.simps) simp
    then show ?thesis using True by (intro exI [of _ v] exI [of _ "[]"]) simp
  next
    case False
    define k where "k = v mod 100"
    define d0 d1 :: u8 where "d0 = 48 + of_nat (k div 10)" and "d1 = 48 + of_nat (k mod 10)"
    have k: "k < 100" by (simp add: k_def)
    then have tb: "rd digits_table (k * 2) = Some d0" "rd digits_table (k * 2 + 1) = Some d1"
      by (simp_all add: rd_eq_Some digits_table_nth d0_def d1_def)
    define dst' where "dst' = dst[nxt := d1, nxt - 1 := d0]"
    have dv: "dec v = dec (v div 100) @ [d0, d1]" using False by (simp add: dec_100 d0_def d1_def k_def)
    have "0 < length (dec (v div 100))" by simp
    then have nxt: "2 \<le> nxt" using less.prems(1) dv by (simp del: length_greater_0_conv)
    have step: "ull2string_loop dst nxt v = ull2string_loop dst' (nxt - 2) (v div 100)"
      using False nxt less.prems(2,3) tb less_imp_diff_less [OF less.prems(2), of 1]
      by (subst ull2string_loop.simps) (simp add: sub32_le wr_def Let_def dst'_def k_def [symmetric] del: rd_eq_Some)
    have "length (dec v) = Suc (Suc (length (dec (v div 100))))" unfolding dv by simp
    then have "length (dec (v div 100)) \<le> Suc (nxt - 2)" using less.prems(1) nxt by linarith
    moreover have lt: "nxt - 2 < length dst'" "nxt - 2 < 2 ^ 32" using less.prems(2,3) by (auto simp: dst'_def)
    ultimately obtain v' ds where IH: "v' < 100" "dec (v div 100) = dec v' @ ds"
      "ull2string_loop dst' (nxt - 2) (v div 100) =
         Some (take (Suc (nxt - 2) - length ds) dst' @ ds @ drop (Suc (nxt - 2)) dst', nxt - 2 - length ds, v')"
      using less.IH [of "v div 100" "nxt - 2" dst', OF _ _ lt] False by fastforce
    obtain m where m: "nxt = Suc (Suc m)" using nxt by (auto simp: numeral_2_eq_2 dest: Suc_le_D)
    have "drop (Suc (nxt - 2)) dst' = [d0, d1] @ drop (Suc nxt) dst"
      using less.prems(2) by (simp add: dst'_def m Cons_nth_drop_Suc [symmetric])
    moreover have "take (Suc (nxt - 2) - length ds) dst' = take (Suc nxt - length (ds @ [d0, d1])) dst"
      by (simp add: dst'_def m)
    ultimately show ?thesis using dv IH(1,2) unfolding step IH(3)
      by (intro exI [of _ v'] exI [of _ "ds @ [d0, d1]"]) simp
  qed
qed

lemma ull2string_eq:
  assumes "v \<le> ULLONG_MAX"
  shows "ull2string dst v =
    (if length (dec v) < length dst
     then Some (dec v @ 0 # drop (Suc (length (dec v))) dst, length (dec v))
     else Some (if dst = [] then [] else 0 # tl dst, 0))"
proof (cases "length (dec v) < length dst")
  case False
  then show ?thesis by (cases dst) (auto simp: ull2string_def digits10_eq Let_def wr_def)
next
  case True
  define n where "n = length (dec v)"
  define dst0 where "dst0 = dst[n := 0]"
  have n: "0 < n" "n < length dst" using True by (auto simp: n_def)
  have "n \<le> 20" unfolding n_def using assms by (intro length_dec_bound) auto
  then have n': "length (dec v) \<le> Suc (n - 1)" "n - 1 < length dst0" "n - 1 < 2 ^ 32" "Suc (n - 1) = n"
    using n by (auto simp: n_def dst0_def)
  obtain v' ds where L: "v' < 100" "dec v = dec v' @ ds"
    "ull2string_loop dst0 (n - 1) v = Some (take (n - length ds) dst0 @ ds @ drop n dst0, n - 1 - length ds, v')"
    using ull2string_loop_correct [OF n'(1-3)] unfolding n'(4) by blast
  have dr: "drop n dst0 = 0 # drop (Suc n) dst"
    using n(2) by (simp add: dst0_def Cons_nth_drop_Suc [symmetric])
  define dst1 where "dst1 = take (n - length ds) dst0 @ ds @ drop n dst0"
  have k: "n = length (dec v') + length ds" using L(2) by (simp add: n_def)
  have len: "length dst1 = length dst" using n k by (simp add: dst1_def dst0_def)
  have pre: "ull2string dst v = do {
      dst \<leftarrow> (if v' < 10 then wr dst1 (n - 1 - length ds) (48 + of_nat v')
              else do { let i = v' * 2;
                        d1 \<leftarrow> rd digits_table (i + 1);
                        dst \<leftarrow> wr dst1 (n - 1 - length ds) d1;
                        d0 \<leftarrow> rd digits_table i;
                        wr dst (sub32 (n - 1 - length ds) 1) d0 });
      Some (dst, n) }"
    using True L(3) n by (simp add: ull2string_def digits10_eq n_def [symmetric] wr_def dst0_def [symmetric] dst1_def [symmetric])
  show ?thesis
  proof (cases "v' < 10")
    case True
    then have "dec v' = [48 + of_nat v']" by (simp add: dec_small)
    moreover have "dst1[n - 1 - length ds := 48 + of_nat v'] = dec v @ 0 # drop (Suc n) dst"
      using calculation L(2) k n dr by (cases dst0) (auto simp: dst1_def)
    ultimately show ?thesis using True n len unfolding pre n_def [symmetric] by (simp add: wr_def)
  next
    case False
    then have dv: "dec v' = [48 + of_nat (v' div 10), 48 + of_nat (v' mod 10)]"
      using L(1) by (subst dec.simps) (simp add: dec_small)
    have k2: "n = 2 + length ds" using k dv by simp
    have "2 \<le> length dst0" using n(2) k2 by (simp add: dst0_def)
    then obtain a b where ab: "take 2 dst0 = [a, b]"
      by (cases dst0; cases "tl dst0") (auto simp: numeral_2_eq_2)
    have "dst1[n - 1 - length ds := 48 + of_nat (v' mod 10), n - 2 - length ds := 48 + of_nat (v' div 10)]
      = dec v @ 0 # drop (Suc n) dst"
      using L(2) dr ab dv k2 by (simp add: dst1_def)
    moreover have "sub32 (n - 1 - length ds) 1 = n - 2 - length ds" using k dv \<open>n \<le> 20\<close> by (subst sub32_le) auto
    moreover have "n - 2 - length ds < length dst" "n - 1 - length ds < length dst" using n by auto
    ultimately show ?thesis using False n L(1) digits_table_nth [of v']
      unfolding pre n_def [symmetric] by (simp add: wr_def rd_def len Let_def)
  qed
qed


lemma length_ll_str: "LLONG_MIN \<le> v \<Longrightarrow> v \<le> LLONG_MAX \<Longrightarrow> length (ll_str v) < LONG_STR_SIZE"
proof -
  assume "LLONG_MIN \<le> v" "v \<le> LLONG_MAX"
  then have "nat (- v) < 10 ^ 19" "nat v < 10 ^ 19" by auto
  then show ?thesis
    using length_dec_bound [of "nat (- v)" 19] length_dec_bound [of "nat v" 19]
    by (simp add: ll_str_def LONG_STR_SIZE_def)
qed

lemma ll2string_neg:
  assumes "v < 0" "LLONG_MIN \<le> v"
  shows "ll2string dst v =
    (if length dst < 2 then Some (if dst = [] then [] else 0 # tl dst, 0)
     else if length (ll_str v) < length dst
     then Some (ll_str v @ 0 # drop (Suc (length (ll_str v))) dst, length (ll_str v))
     else Some (45 # 0 # tl (tl dst), 0))"
proof -
  have eq: "(if v \<noteq> LLONG_MIN then nat (- v) else nat LLONG_MAX + 1) = nat (- v)" by simp
  have "nat (- v) \<le> ULLONG_MAX" using assms(2) by simp
  note u = ull2string_eq [OF this]
  have ll: "ll_str v = 45 # dec (nat (- v))" using assms(1) by (simp add: ll_str_def)
  consider "dst = []" | d where "dst = [d]" | d e ds where "dst = d # e # ds" by (cases dst; cases "tl dst") auto
  then show ?thesis using assms(1) unfolding ll2string_def eq ll
    by cases (simp_all add: wr_def u)
qed

lemma ll2string_nonneg:
  assumes "0 \<le> v" "v \<le> LLONG_MAX"
  shows "ll2string dst v =
    (if length (ll_str v) < length dst
     then Some (ll_str v @ 0 # drop (Suc (length (ll_str v))) dst, length (ll_str v))
     else Some (if dst = [] then [] else 0 # tl dst, 0))"
proof -
  have "nat v \<le> ULLONG_MAX" "ll_str v = dec (nat v)" using assms by (auto simp: ll_str_def)
  then show ?thesis using assms(1) by (simp add: ll2string_def ull2string_eq)
qed

lemma length_ll_str_gt: "0 < length (ll_str v)" "v < 0 \<Longrightarrow> 2 \<le> length (ll_str v)"
  by (cases "dec (nat (- v))", auto simp: ll_str_def)+

text \<open>C22: printing an integer of the 64-bit range into a buffer writes its canonical decimal
  numeral and a NUL and returns the numeral's length, exactly when the buffer has room for both;
  otherwise it returns 0. No access leaves the buffer in either case, and its length is kept.\<close>

theorem ll2string_correct:
  assumes "LLONG_MIN \<le> v" "v \<le> LLONG_MAX"
  shows "\<exists>dst' n. ll2string dst v = Some (dst', n) \<and> length dst' = length dst \<and>
    (if length (ll_str v) < length dst
     then n = length (ll_str v) \<and> dst' = ll_str v @ 0 # drop (Suc n) dst
     else n = 0)"
proof (cases "v < 0")
  case True
  have "dst \<noteq> [] \<Longrightarrow> length dst < 2 \<Longrightarrow> length dst = 1" by (cases dst) auto
  then show ?thesis using True length_ll_str_gt(2) [OF True] by (auto simp: ll2string_neg [OF _ assms(1)])
next
  case False
  then show ?thesis using assms(2) by (auto simp: ll2string_nonneg)
qed

text \<open>C10: a byte string is accepted with the value \<open>v\<close> exactly when it is the canonical decimal
  numeral of a 64-bit integer \<open>v\<close>: no sign on zero, no leading zero, no overflow either way.\<close>

theorem string2ll_exact:
  "string2ll s = Some v \<longleftrightarrow> LLONG_MIN \<le> v \<and> v \<le> LLONG_MAX \<and> s = ll_str v"
  using string2ll_canonical string2ll_sound by blast

text \<open>C23: reading back what was printed gives the integer, for every value of the type and
  every buffer of \<open>LONG_STR_SIZE\<close> bytes.\<close>

theorem ll2string_string2ll:
  assumes "LLONG_MIN \<le> v" "v \<le> LLONG_MAX" "length dst = LONG_STR_SIZE"
  shows "\<exists>dst' n. ll2string dst v = Some (dst', n) \<and> string2ll (take n dst') = Some v"
proof -
  have len: "length (ll_str v) < length dst" using length_ll_str [OF assms(1,2)] assms(3) by simp
  have "ll2string dst v = Some (ll_str v @ 0 # drop (Suc (length (ll_str v))) dst, length (ll_str v))"
  proof (cases "v < 0")
    case True
    with len length_ll_str_gt(2) [OF True] show ?thesis by (simp add: ll2string_neg [OF _ assms(1)])
  qed (use len assms(2) in \<open>simp add: ll2string_nonneg\<close>)
  then show ?thesis by (simp add: string2ll_canonical [OF assms(1,2)])
qed


subsection \<open>Hexadecimal numerals\<close>

definition hex_digit :: "u8 \<Rightarrow> nat option" where
  "hex_digit c =
     (let n = unat c
      in if 48 \<le> n \<and> n \<le> 57 then Some (n - 48)
         else if 97 \<le> n \<and> n \<le> 102 then Some (n - 87)
         else if 65 \<le> n \<and> n \<le> 70 then Some (n - 55)
         else None)"

definition hex_val :: "nat \<Rightarrow> u8 list \<Rightarrow> nat" where
  "hex_val r p = foldl (\<lambda>a c. a * 16 + the (hex_digit c)) r p"

lemma sint_u8: "sint (c :: u8) = (if unat c < 128 then int (unat c) else int (unat c) - 256)"
proof -
  obtain n where n: "unat c = n" "n < 256" using unat_u8_less [of c] by blast
  have "sint c = (int (unat c) + 128) mod 256 - 128"
    unfolding sint_uint uint_nat by (simp add: signed_take_bit_eq_take_bit_shift take_bit_eq_mod)
  moreover have "(int n + 128) mod 256 = (if n < 128 then int n + 128 else int n - 128)"
  proof (cases "n < 128")
    case False
    have "(int n + 128) mod 256 = (int n - 128 + 256) mod 256" by (simp add: add.commute)
    also have "\<dots> = int n - 128" unfolding mod_add_self2 using False n(2) by (intro mod_pos_pos_trivial) auto
    finally show ?thesis using False by simp
  qed simp
  ultimately show ?thesis unfolding n(1) by (cases "n < 128") simp_all
qed

lemma base_16_char_type_eq:
  "base_16_char_type c =
     (let n = unat c
      in if 48 \<le> n \<and> n \<le> 57 then 0 else if 97 \<le> n \<and> n \<le> 102 then 1 else if 65 \<le> n \<and> n \<le> 70 then 2 else - 1)"
proof -
  have sm: "sint (48 :: u8) = 48" "sint (57 :: u8) = 57" "sint (97 :: u8) = 97" "sint (102 :: u8) = 102"
    "sint (65 :: u8) = 65" "sint (70 :: u8) = 70"
    by (simp_all add: sint_u8)
  obtain n where n: "unat c = n" "n < 256" using unat_u8_less [of c] by blast
  then have "safe_is_c_in_range c 48 57 \<longleftrightarrow> 48 \<le> unat c \<and> unat c \<le> 57"
    "safe_is_c_in_range c 97 102 \<longleftrightarrow> 97 \<le> unat c \<and> unat c \<le> 102"
    "safe_is_c_in_range c 65 70 \<longleftrightarrow> 65 \<le> unat c \<and> unat c \<le> 70"
    unfolding safe_is_c_in_range_def sm sint_u8 [of c] n(1) by (auto split: if_split)
  then show ?thesis by (simp only: base_16_char_type_def Let_def)
qed

lemma base_16_char_type_hex:
  assumes "hex_digit c = Some d"
  shows "base_16_char_type c \<noteq> - 1 \<and>
     (\<exists>t. rd ascii_to_dec (nat (base_16_char_type c)) = Some t \<and> nat (sint c - t) = d \<and> d < 16)"
proof -
  obtain n where n: "unat c = n" by blast
  have "sint c = int n" using assms n by (simp add: sint_u8 hex_digit_def Let_def split: if_splits)
  then show ?thesis using assms unfolding base_16_char_type_eq hex_digit_def Let_def n
    by (auto simp: ascii_to_dec_def rd_def split: if_splits)
qed

lemma base_16_char_type_not_hex: "hex_digit c = None \<Longrightarrow> base_16_char_type c = - 1"
  unfolding base_16_char_type_eq hex_digit_def Let_def by (simp split: if_splits)

lemma hex_val_ge: "r \<le> hex_val r p"
proof (induction p arbitrary: r)
  case (Cons c p)
  have "r \<le> r * 16 + the (hex_digit c)" by simp
  also have "\<dots> \<le> hex_val (r * 16 + the (hex_digit c)) p" by (rule Cons.IH)
  finally show ?case by (simp add: hex_val_def)
qed (simp add: hex_val_def)

lemma string2ul_base16_loop_eq:
  assumes "\<forall>c \<in> set p. hex_digit c \<noteq> None" "src = q @ p @ c # rest" "length q + length p \<le> slen"
    "hex_digit c = None \<or> length q + length p = slen" "r \<le> ULLONG_MAX"
  shows "string2ul_base16_loop src slen (length q) r =
    Some (if hex_val r p \<le> ULLONG_MAX then Some (hex_val r p) else None)"
  using assms
proof (induction p arbitrary: q r)
  case Nil
  then have "rd src (length q) = Some c" by (simp add: rd_def nth_append)
  then show ?case using base_16_char_type_not_hex [of c] Nil.prems(4,5)
    by (subst string2ul_base16_loop.simps) (auto simp: hex_val_def simp del: rd_eq_Some)
next
  case (Cons x p)
  then obtain d where d: "hex_digit x = Some d" by auto
  obtain t where t: "base_16_char_type x \<noteq> - 1" "rd ascii_to_dec (nat (base_16_char_type x)) = Some t"
    "nat (sint x - t) = d" "d < 16"
    using base_16_char_type_hex [OF d] by blast
  have hv: "hex_val r (x # p) = hex_val (r * 16 + d) p" by (simp add: hex_val_def d)
  have x: "rd src (length q) = Some x" using Cons.prems(2) by (simp add: rd_def nth_append)
  have lt: "length q < slen" using Cons.prems(3) by simp
  have step: "string2ul_base16_loop src slen (length q) r =
    (if r > ULLONG_MAX div 16 \<or> r > (ULLONG_MAX - d) div 16 then Some None
     else string2ul_base16_loop src slen (length (q @ [x])) (r * 16 + d))"
    using x t(1-3) lt by (subst string2ul_base16_loop.simps) (simp add: Let_def del: rd_eq_Some)
  have ov: "(r > ULLONG_MAX div 16 \<or> r > (ULLONG_MAX - d) div 16) \<longleftrightarrow> \<not> r * 16 + d \<le> ULLONG_MAX"
    using t(4) by auto
  show ?case
  proof (cases "r * 16 + d \<le> ULLONG_MAX")
    case True
    moreover have "string2ul_base16_loop src slen (length (q @ [x])) (r * 16 + d) =
      Some (if hex_val (r * 16 + d) p \<le> ULLONG_MAX then Some (hex_val (r * 16 + d) p) else None)"
      using True Cons.prems by (intro Cons.IH) auto
    ultimately show ?thesis unfolding step ov hv by simp
  next
    case False
    then show ?thesis using hex_val_ge [of "r * 16 + d" p] unfolding step ov hv by simp
  qed
qed


text \<open>C24: the signal-safe hexadecimal parser returns the value of the longest hexadecimal
  prefix of at most \<open>slen\<close> characters, and reports an overflow exactly when that value does not fit
  an \<open>unsigned long\<close>, provided one more byte is readable after the prefix.\<close>

theorem string2ul_base16_correct:
  assumes "\<forall>c \<in> set p. hex_digit c \<noteq> None" "length p \<le> slen" "hex_digit c = None \<or> length p = slen"
  shows "string2ul_base16_async_signal_safe (p @ c # rest) slen =
    Some (if hex_val 0 p \<le> ULLONG_MAX then Some (hex_val 0 p) else None)"
  using string2ul_base16_loop_eq [of p "p @ c # rest" "[]" c rest slen 0] assms
  by (simp add: string2ul_base16_async_signal_safe_def)

theorem string2ul_base16_correct_witness:
  "string2ul_base16_async_signal_safe (map of_char ''fF0'' @ 0 # []) 10 = Some (Some 0xff0)"
proof -
  have "\<forall>c \<in> set (map of_char ''fF0''). hex_digit c \<noteq> None" "hex_digit 0 = None"
    "hex_val 0 (map of_char ''fF0'') = 0xff0"
    by code_simp+
  with string2ul_base16_correct [of "map of_char ''fF0''" 10 0 "[]"] show ?thesis by simp
qed

theorem ll2string_correct_witness:
  "\<exists>dst' n. ll2string (replicate 4 0) (- 120) = Some (dst', n) \<and> n = 0"
proof -
  have "length (ll_str (- 120)) = 4" by code_simp
  with ll2string_correct [of "- 120" "replicate 4 0"] show ?thesis by auto
qed

theorem ll2string_string2ll_witness:
  "\<exists>dst' n. ll2string (replicate 21 0) LLONG_MIN = Some (dst', n) \<and> string2ll (take n dst') = Some LLONG_MIN"
  using ll2string_string2ll [of LLONG_MIN "replicate 21 0"] by (simp add: LONG_STR_SIZE_def)




end
