(* ===== verification/Glob.thy ===== *)
theory Glob
  imports Prelude "HOL-Library.Sublist"
begin

text \<open>
  Glob-style pattern matching (\<open>util.c\<close>: \<open>stringmatchlen_impl\<close>, \<open>stringmatchlen\<close>, \<open>prefixmatch\<close>).

  A pair of a C pointer and a remaining length is the list of the remaining bytes. The pattern is
  an sds string, so the byte after its last one is NUL: this is what \<open>pattern[1]\<close> reads when one
  byte remains. \<open>skipLongerMatches\<close> is threaded through as a boolean, as the C code threads a pointer to it.
  The reference is a matcher on tokens without nesting limit and without early exit.
\<close>

subsection \<open>The matcher\<close>

definition tolower :: "int \<Rightarrow> int" where
  "tolower c = (if 65 \<le> c \<and> c \<le> 90 then c + 32 else c)"

definition chr_eq :: "bool \<Rightarrow> u8 \<Rightarrow> u8 \<Rightarrow> bool" where
  "chr_eq nocase x c = (if \<not> nocase then x = c else tolower (sint x) = tolower (sint c))"

definition in_range :: "bool \<Rightarrow> u8 \<Rightarrow> u8 \<Rightarrow> u8 \<Rightarrow> bool" where
  "in_range nocase x y ch =
     (let start = sint x; stop = sint y; c = sint ch;
          (start, stop) = (if start > stop then (stop, start) else (start, stop));
          (start, stop, c) = (if nocase then (tolower start, tolower stop, tolower c) else (start, stop, c))
      in c \<ge> start \<and> c \<le> stop)"

text \<open>The loop over a bracket expression: the final \<open>match\<close> and the pattern after the closing
  bracket (after the last byte when there is none, where the code steps back and forth by one).\<close>

fun glob_class :: "bool \<Rightarrow> u8 \<Rightarrow> u8 list \<Rightarrow> bool \<Rightarrow> bool \<times> u8 list" where
  "glob_class nocase c [] m = (m, [])"
| "glob_class nocase c (x # p) m =
     (if length (x # p) \<ge> 2 \<and> x = 92 then glob_class nocase c (tl p) (if hd p = c then True else m)
      else if x = 93 then (m, p)
      else if length (x # p) \<ge> 3 \<and> hd p = 45
      then glob_class nocase c (drop 2 p) (if in_range nocase x (p ! 1) c then True else m)
      else glob_class nocase c p (if chr_eq nocase x c then True else m))"

definition glob_bracket :: "bool \<Rightarrow> u8 \<Rightarrow> u8 list \<Rightarrow> bool \<times> u8 list" where
  "glob_bracket nocase c p =
     (let neg = (p \<noteq> [] \<and> hd p = 94);
          (m, q) = glob_class nocase c (if neg then tl p else p) False
      in (if neg then \<not> m else m, q))"

definition glob_lit :: "u8 list \<Rightarrow> u8 list" where
  "glob_lit p = (if hd p = 92 \<and> length p \<ge> 2 then tl p else p)"

lemma glob_class_length: "length (snd (glob_class nocase c p m)) \<le> length p"
  by (induction nocase c p m rule: glob_class.induct) (auto simp: le_diff_conv)

lemma glob_bracket_length: "length (snd (glob_bracket nocase c p)) \<le> length p"
proof -
  define neg where "neg = (p \<noteq> [] \<and> hd p = 94)"
  have "length (snd (glob_class nocase c (if neg then tl p else p) False)) \<le> length (if neg then tl p else p)"
    by (rule glob_class_length)
  then show ?thesis by (auto simp: glob_bracket_def Let_def neg_def split: prod.splits if_splits)
qed

lemma glob_lit_length: "p \<noteq> [] \<Longrightarrow> glob_lit p \<noteq> [] \<and> length (tl (glob_lit p)) < length p"
  by (cases p) (auto simp: glob_lit_def split: list.splits)

lemma stars_length: "p \<noteq> [] \<Longrightarrow> hd p = 42 \<Longrightarrow> length (dropWhile (\<lambda>x. x = 42) p) < length p"
  by (cases p) (auto intro: le_less_trans [OF length_dropWhile_le])

function stringmatchlen_impl :: "bool \<Rightarrow> nat \<Rightarrow> u8 list \<Rightarrow> u8 list \<Rightarrow> bool \<Rightarrow> bool \<times> bool"
  and smatch_while :: "bool \<Rightarrow> nat \<Rightarrow> u8 list \<Rightarrow> u8 list \<Rightarrow> bool \<Rightarrow> bool \<times> bool"
  and smatch_star :: "bool \<Rightarrow> nat \<Rightarrow> u8 list \<Rightarrow> u8 list \<Rightarrow> bool \<Rightarrow> bool \<times> bool"
  and smatch_next :: "bool \<Rightarrow> nat \<Rightarrow> u8 list \<Rightarrow> u8 list \<Rightarrow> bool \<Rightarrow> bool \<times> bool" where
  "stringmatchlen_impl nocase nesting p s skip =
     (if nesting > 1000 then (False, skip) else smatch_while nocase nesting p s skip)"
| "smatch_while nocase nesting p s skip =
     (if p \<noteq> [] \<and> s \<noteq> [] then
        if hd p = 42 then
          let q = dropWhile (\<lambda>x. x = 42) p
          in if q = [] then (True, skip) else smatch_star nocase nesting q s skip
        else if hd p = 63 then smatch_next nocase nesting (tl p) (tl s) skip
        else if hd p = 91 then
          let (m, q) = glob_bracket nocase (hd s) (tl p)
          in if \<not> m then (False, skip) else smatch_next nocase nesting q (tl s) skip
        else
          let q = glob_lit p
          in if \<not> chr_eq nocase (hd q) (hd s) then (False, skip)
             else smatch_next nocase nesting (tl q) (tl s) skip
      else (p = [] \<and> s = [], skip))"
| "smatch_star nocase nesting q s skip =
     (if s \<noteq> [] then
        let (r, skip) = stringmatchlen_impl nocase (nesting + 1) q s skip
        in if r then (True, skip)
           else if skip then (False, skip)
           else smatch_star nocase nesting q (tl s) skip
      else (False, True))"
| "smatch_next nocase nesting p s skip =
     (if s = [] then (dropWhile (\<lambda>x. x = 42) p = [], skip) else smatch_while nocase nesting p s skip)"
  by pat_completeness auto
termination
  apply (relation "measures [
     (\<lambda>x. case x of Inl (Inl (_, _, p, _, _)) \<Rightarrow> length p | Inl (Inr (_, _, p, _, _)) \<Rightarrow> length p
       | Inr (Inl (_, _, p, _, _)) \<Rightarrow> length p | Inr (Inr (_, _, p, _, _)) \<Rightarrow> length p),
     (\<lambda>x. case x of Inl (Inl (_, _, _, s, _)) \<Rightarrow> length s | Inl (Inr (_, _, _, s, _)) \<Rightarrow> length s
       | Inr (Inl (_, _, _, s, _)) \<Rightarrow> length s | Inr (Inr (_, _, _, s, _)) \<Rightarrow> length s),
     (\<lambda>x. case x of Inl (Inl _) \<Rightarrow> 1 | Inl (Inr _) \<Rightarrow> 0 | Inr (Inl _) \<Rightarrow> 2 | Inr (Inr _) \<Rightarrow> 3)]")
  subgoal by simp
  subgoal by simp
  subgoal using stars_length by auto
  subgoal by simp
  subgoal for nocase nesting p s skip x m q
    using glob_bracket_length [of nocase "hd s" "tl p"] by (cases p) (auto simp: prod_eq_iff)
  subgoal for nocase nesting p s skip x using glob_lit_length [of p] by auto
  subgoal by simp
  subgoal by simp
  subgoal by simp
  done

declare stringmatchlen_impl.simps [simp del] smatch_while.simps [simp del] smatch_star.simps [simp del]
  smatch_next.simps [simp del]

definition stringmatchlen :: "bool \<Rightarrow> u8 list \<Rightarrow> u8 list \<Rightarrow> bool" where
  "stringmatchlen nocase p s = fst (stringmatchlen_impl nocase 0 p s False)"

definition prefixmatch :: "bool \<Rightarrow> u8 list \<Rightarrow> u8 list \<Rightarrow> bool" where
  "prefixmatch nocase p s =
     (if \<not> fst (stringmatchlen_impl nocase 0 p s False) then False
      else if length p = 0 \<or> last p \<noteq> 42 then False
      else let backslashCount = length (takeWhile (\<lambda>x. x = 92) (rev (butlast p))) in backslashCount mod 2 = 0)"


subsection \<open>Reference matcher\<close>

datatype gtok = Star | One "u8 \<Rightarrow> bool"

function tokens :: "bool \<Rightarrow> u8 list \<Rightarrow> gtok list" where
  "tokens nocase p =
     (if p = [] then []
      else if hd p = 42 then Star # tokens nocase (tl p)
      else if hd p = 63 then One (\<lambda>_. True) # tokens nocase (tl p)
      else if hd p = 91
      then One (\<lambda>c. fst (glob_bracket nocase c (tl p))) # tokens nocase (snd (glob_bracket nocase 0 (tl p)))
      else One (chr_eq nocase (hd (glob_lit p))) # tokens nocase (tl (glob_lit p)))"
  by pat_completeness auto
termination
  apply (relation "measure (\<lambda>(_, p). length p)")
  subgoal by simp
  subgoal by simp
  subgoal by simp
  subgoal for nocase p using glob_bracket_length [of nocase 0 "tl p"] by (cases p) auto
  subgoal for nocase p using glob_lit_length [of p] by auto
  done

declare tokens.simps [simp del]

function gmatch :: "gtok list \<Rightarrow> u8 list \<Rightarrow> bool" where
  "gmatch [] s = (s = [])"
| "gmatch (Star # ts) s = (if gmatch ts s then True else if s = [] then False else gmatch (Star # ts) (tl s))"
| "gmatch (One f # ts) s = (s \<noteq> [] \<and> f (hd s) \<and> gmatch ts (tl s))"
  by pat_completeness auto
termination
  by (relation "measure (\<lambda>(ts, s). length ts + length s)") auto

declare gmatch.simps(2) [simp del]

lemma gmatch_Star: "gmatch (Star # ts) s \<longleftrightarrow> (\<exists>t. suffix t s \<and> gmatch ts t)"
proof (induction s)
  case Nil
  show ?case by (subst gmatch.simps) simp
next
  case (Cons c s)
  then show ?case by (subst gmatch.simps) (auto simp: suffix_Cons)
qed

lemma gmatch_Star_Star: "gmatch (Star # Star # ts) s = gmatch (Star # ts) s"
  by (auto simp: gmatch_Star intro: suffix_order.trans)

lemma glob_class_rest: "snd (glob_class nocase c p m) = snd (glob_class nocase c' p m')"
proof (induction nocase c p m arbitrary: m' rule: glob_class.induct)
  case (2 nocase c x p m)
  then show ?case by simp
qed simp

lemma glob_bracket_rest: "snd (glob_bracket nocase c p) = snd (glob_bracket nocase c' p)"
  using glob_class_rest [of nocase c "if p \<noteq> [] \<and> hd p = 94 then tl p else p" False c' False]
  by (simp add: glob_bracket_def Let_def case_prod_beta)

lemma tokens_Nil [simp]: "tokens nocase [] = []"
  by (subst tokens.simps) simp

lemma tokens_star: "p \<noteq> [] \<Longrightarrow> hd p = 42 \<Longrightarrow> tokens nocase p = Star # tokens nocase (tl p)"
  by (subst tokens.simps) simp

lemma gmatch_drop_stars:
  "gmatch (Star # tokens nocase p) s = gmatch (Star # tokens nocase (dropWhile (\<lambda>x. x = 42) p)) s"
proof (induction p)
  case (Cons x p)
  show ?case
  proof (cases "x = 42")
    case True
    then have "tokens nocase (x # p) = Star # tokens nocase p" by (simp add: tokens_star)
    then show ?thesis using True Cons.IH by (simp add: gmatch_Star_Star)
  qed auto
qed simp

lemma tokens_not_star:
  assumes "p \<noteq> []" "hd p \<noteq> 42"
  obtains f ts where "tokens nocase p = One f # ts"
  using assms tokens.simps [of nocase p] by (simp split: if_splits)

lemma gmatch_Nil_iff: "gmatch (tokens nocase p) [] \<longleftrightarrow> dropWhile (\<lambda>x. x = 42) p = []"
proof (induction p)
  case (Cons x p)
  show ?case
  proof (cases "x = 42")
    case True
    then have "tokens nocase (x # p) = Star # tokens nocase p" by (simp add: tokens_star)
    then show ?thesis using True Cons.IH by (simp add: gmatch_Star)
  next
    case False
    obtain f ts where "tokens nocase (x # p) = One f # ts" by (rule tokens_not_star [of "x # p"]) (use False in auto)
    then show ?thesis using False by simp
  qed
qed simp

definition nstars :: "gtok list \<Rightarrow> nat" where
  "nstars ts = length (filter (\<lambda>t. case t of Star \<Rightarrow> True | One _ \<Rightarrow> False) ts)"

lemma nstars_simps [simp]: "nstars [] = 0" "nstars (Star # ts) = Suc (nstars ts)" "nstars (One f # ts) = nstars ts"
  by (simp_all add: nstars_def)

lemma nstars_drop_stars: "p \<noteq> [] \<Longrightarrow> hd p = 42 \<Longrightarrow> nstars (tokens nocase (dropWhile (\<lambda>x. x = 42) p)) < nstars (tokens nocase p)"
proof (induction p)
  case (Cons x p)
  have "dropWhile (\<lambda>x. x = 42) p = p" if "\<not> (p \<noteq> [] \<and> hd p = 42)" using that by (cases p) auto
  then show ?case using Cons by (cases "p \<noteq> [] \<and> hd p = 42") (auto simp: tokens_star)
qed simp


subsection \<open>Equivalence\<close>

definition no_suffix :: "gtok list \<Rightarrow> u8 list \<Rightarrow> bool" where
  "no_suffix ts s \<longleftrightarrow> (\<forall>t. suffix t s \<longrightarrow> \<not> gmatch ts t)"

definition exact :: "gtok list \<Rightarrow> u8 list \<Rightarrow> bool \<times> bool \<Rightarrow> bool" where
  "exact ts s r \<longleftrightarrow> fst r = gmatch ts s \<and> (snd r \<and> \<not> fst r \<longrightarrow> no_suffix ts s)"

lemma suffix_tl_cases: "suffix t s \<Longrightarrow> t = s \<or> (s \<noteq> [] \<and> suffix t (tl s))"
  by (cases s) (auto simp: suffix_Cons)

lemma no_suffix_One: "s \<noteq> [] \<Longrightarrow> no_suffix ts (tl s) \<Longrightarrow> no_suffix (One f # ts) s"
  unfolding no_suffix_def by (metis gmatch.simps(3) suffix_order.trans suffix_tl suffix_tl_cases)

lemma no_suffix_Star: "no_suffix ts s \<Longrightarrow> no_suffix (Star # ts) s"
  unfolding no_suffix_def by (meson gmatch_Star suffix_order.trans)

lemma exact_One: "s \<noteq> [] \<Longrightarrow> f (hd s) \<Longrightarrow> exact ts (tl s) r \<Longrightarrow> exact (One f # ts) s r"
  by (auto simp: exact_def no_suffix_One)

lemma exact_not_One: "s \<noteq> [] \<Longrightarrow> \<not> f (hd s) \<Longrightarrow> exact (One f # ts) s (False, False)"
  by (auto simp: exact_def)

lemma exact_cong: "(\<And>s. gmatch ts s = gmatch us s) \<Longrightarrow> exact ts s = exact us s"
  by (simp add: exact_def no_suffix_def fun_eq_iff)

lemma gmatch_stars:
  "p \<noteq> [] \<Longrightarrow> hd p = 42 \<Longrightarrow>
    gmatch (tokens nocase p) s = gmatch (Star # tokens nocase (dropWhile (\<lambda>x. x = 42) p)) s"
  using gmatch_drop_stars [of nocase "tl p" s] by (cases p) (auto simp: tokens_star)

lemma exact_Star_tl:
  assumes "s \<noteq> []" "\<not> gmatch ts s" "exact (Star # ts) (tl s) r"
  shows "exact (Star # ts) s r"
proof -
  have eq: "gmatch (Star # ts) s = gmatch (Star # ts) (tl s)" using assms(1,2) by (subst gmatch.simps) simp
  moreover have "no_suffix (Star # ts) s" if "no_suffix (Star # ts) (tl s)"
    using that eq assms(1) unfolding no_suffix_def by (metis suffix_order.refl suffix_tl_cases)
  ultimately show ?thesis using assms(3) by (auto simp: exact_def)
qed

lemma smatch_exact:
  "\<not> skip \<Longrightarrow> s \<noteq> [] \<Longrightarrow> nesting + nstars (tokens nocase p) \<le> 1000 \<Longrightarrow>
     exact (tokens nocase p) s (stringmatchlen_impl nocase nesting p s skip)"
  "\<not> skip \<Longrightarrow> s \<noteq> [] \<Longrightarrow> nesting + nstars (tokens nocase p) \<le> 1000 \<Longrightarrow>
     exact (tokens nocase p) s (smatch_while nocase nesting p s skip)"
  "\<not> skip \<Longrightarrow> p \<noteq> [] \<Longrightarrow> hd p \<noteq> 42 \<Longrightarrow> nesting + 1 + nstars (tokens nocase p) \<le> 1000 \<Longrightarrow>
     exact (Star # tokens nocase p) s (smatch_star nocase nesting p s skip)"
  "\<not> skip \<Longrightarrow> nesting + nstars (tokens nocase p) \<le> 1000 \<Longrightarrow>
     exact (tokens nocase p) s (smatch_next nocase nesting p s skip)"
proof (induction nocase nesting p s skip and nocase nesting p s skip and nocase nesting p s skip and nocase nesting p s skip
    rule: stringmatchlen_impl_smatch_while_smatch_star_smatch_next.induct)
  case (1 nocase nesting p s skip)
  then show ?case by (subst stringmatchlen_impl.simps) simp
next
  case (2 nocase nesting p s skip)
  consider "p = []" | "p \<noteq> []" "hd p = 42" | "p \<noteq> []" "hd p \<noteq> 42" "hd p = 63"
    | "p \<noteq> []" "hd p \<noteq> 42" "hd p \<noteq> 63" "hd p = 91" | "p \<noteq> []" "hd p \<noteq> 42" "hd p \<noteq> 63" "hd p \<noteq> 91"
    by blast
  then show ?case
  proof cases
    case 1
    then show ?thesis using "2.prems" by (subst smatch_while.simps) (simp add: exact_def)
  next
    case c: 2
    define q where "q = dropWhile (\<lambda>x. x = 42) p"
    have eq: "exact (tokens nocase p) s = exact (Star # tokens nocase q) s"
      unfolding q_def using c by (intro exact_cong) (simp add: gmatch_stars)
    show ?thesis
    proof (cases "q = []")
      case True
      have "smatch_while nocase nesting p s skip = (True, skip)"
        using c "2.prems" True unfolding q_def by (subst smatch_while.simps) (simp only: Let_def if_True simp_thms)
      then show ?thesis unfolding eq True by (simp add: exact_def gmatch_Star)
    next
      case False
      have "nesting + 1 + nstars (tokens nocase q) \<le> 1000"
        using nstars_drop_stars [OF c, of nocase] "2.prems"(3) by (simp add: q_def)
      moreover have "hd q \<noteq> 42" using False unfolding q_def by (metis (mono_tags) hd_dropWhile)
      ultimately have "exact (Star # tokens nocase q) s (smatch_star nocase nesting q s skip)"
        using "2.IH"(1) [of q] c "2.prems" False by (simp add: q_def)
      moreover have "smatch_while nocase nesting p s skip = smatch_star nocase nesting q s skip"
        using c "2.prems" False unfolding q_def
        by (subst smatch_while.simps) (simp only: Let_def if_True if_False simp_thms)
      ultimately show ?thesis unfolding eq by simp
    qed
  next
    case c: 3
    then have t: "tokens nocase p = One (\<lambda>_. True) # tokens nocase (tl p)" by (subst tokens.simps) simp
    have "exact (tokens nocase (tl p)) (tl s) (smatch_next nocase nesting (tl p) (tl s) skip)"
      using "2.IH"(2) c "2.prems" t by simp
    then show ?thesis unfolding t using c "2.prems" by (subst smatch_while.simps) (simp add: exact_One)
  next
    case c: 4
    obtain m q where mq: "glob_bracket nocase (hd s) (tl p) = (m, q)" by fastforce
    have q: "snd (glob_bracket nocase 0 (tl p)) = q" using glob_bracket_rest [of nocase 0 "tl p" "hd s"] mq by simp
    define f where "f = (\<lambda>c. fst (glob_bracket nocase c (tl p)))"
    have t: "tokens nocase p = One f # tokens nocase q"
      using c q unfolding f_def by (subst tokens.simps) simp
    have f: "f (hd s) = m" using mq by (simp add: f_def)
    have st: "smatch_while nocase nesting p s skip = (if \<not> m then (False, skip) else smatch_next nocase nesting q (tl s) skip)"
      using c "2.prems" mq by (subst smatch_while.simps) simp
    have "exact (tokens nocase q) (tl s) (smatch_next nocase nesting q (tl s) skip)" if m
      using "2.IH"(3) [of "(m, q)" m q] c "2.prems" t mq that by simp
    then show ?thesis unfolding t st using "2.prems" f by (simp add: exact_One exact_not_One)
  next
    case c: 5
    define q where "q = glob_lit p"
    have t: "tokens nocase p = One (chr_eq nocase (hd q)) # tokens nocase (tl q)"
      using c unfolding q_def by (subst tokens.simps) simp
    have st: "smatch_while nocase nesting p s skip = (if \<not> chr_eq nocase (hd q) (hd s) then (False, skip)
       else smatch_next nocase nesting (tl q) (tl s) skip)"
      using c "2.prems" by (subst smatch_while.simps) (simp add: q_def)
    have "exact (tokens nocase (tl q)) (tl s) (smatch_next nocase nesting (tl q) (tl s) skip)" if "chr_eq nocase (hd q) (hd s)"
      using "2.IH"(4) [of q] c "2.prems" t that by (simp add: q_def)
    then show ?thesis unfolding t st using "2.prems" by (simp add: exact_One exact_not_One)
  qed
next
  case (3 nocase nesting q s skip)
  obtain f ts where t: "tokens nocase q = One f # ts" using 3 by (rule_tac tokens_not_star [of q nocase]) auto
  show ?case
  proof (cases "s = []")
    case True
    then show ?thesis unfolding t by (subst smatch_star.simps) (auto simp: exact_def gmatch_Star no_suffix_def)
  next
    case False
    obtain r k where rk: "stringmatchlen_impl nocase (nesting + 1) q s skip = (r, k)" by fastforce
    have e: "exact (tokens nocase q) s (r, k)" using "3.IH"(1) "3.prems" False rk by simp
    have st: "smatch_star nocase nesting q s skip =
      (if r then (True, k) else if k then (False, k) else smatch_star nocase nesting q (tl s) k)"
      using False rk by (subst smatch_star.simps) simp
    show ?thesis
    proof (cases "r \<or> k")
      case True
      then show ?thesis unfolding st using e by (auto simp: exact_def gmatch_Star no_suffix_Star no_suffix_def)
    next
      case rk': False
      then have "exact (Star # tokens nocase q) (tl s) (smatch_star nocase nesting q (tl s) k)"
        using "3.IH"(2) [of "(r, k)" r k] "3.prems" False rk by simp
      moreover have "\<not> gmatch (tokens nocase q) s" using e rk' by (simp add: exact_def)
      ultimately show ?thesis unfolding st using rk' False by (simp add: exact_Star_tl)
    qed
  qed
next
  case (4 nocase nesting p s skip)
  then show ?case by (subst smatch_next.simps) (auto simp: exact_def gmatch_Nil_iff)
qed


text \<open>Soundness needs no bound on the nesting: a reported match is a match.\<close>

lemma smatch_sound:
  "s \<noteq> [] \<Longrightarrow> fst (stringmatchlen_impl nocase nesting p s skip) \<Longrightarrow> gmatch (tokens nocase p) s"
  "s \<noteq> [] \<Longrightarrow> fst (smatch_while nocase nesting p s skip) \<Longrightarrow> gmatch (tokens nocase p) s"
  "fst (smatch_star nocase nesting p s skip) \<Longrightarrow> gmatch (Star # tokens nocase p) s"
  "fst (smatch_next nocase nesting p s skip) \<Longrightarrow> gmatch (tokens nocase p) s"
proof (induction nocase nesting p s skip and nocase nesting p s skip and nocase nesting p s skip and nocase nesting p s skip
    rule: stringmatchlen_impl_smatch_while_smatch_star_smatch_next.induct)
  case (1 nocase nesting p s skip)
  then show ?case by (auto simp: stringmatchlen_impl.simps [of nocase nesting p s skip] split: if_splits)
next
  case (2 nocase nesting p s skip)
  have ne: "p \<noteq> []" using "2.prems" by (auto simp: smatch_while.simps [of nocase nesting p s skip])
  have rest: "glob_bracket nocase (hd s) (tl p) = (m, q) \<Longrightarrow> snd (glob_bracket nocase 0 (tl p)) = q" for m q
    using glob_bracket_rest [of nocase 0 "tl p" "hd s"] by simp
  show ?case
  proof (cases "hd p = 42")
    case True
    have "gmatch (Star # tokens nocase (dropWhile (\<lambda>x. x = 42) p)) s"
    proof (cases "dropWhile (\<lambda>x. x = 42) p = []")
      case True
      then show ?thesis unfolding True by (simp add: gmatch_Star)
    next
      case False
      then show ?thesis using 2 ne True
        by (simp only: smatch_while.simps [of nocase nesting p s skip] Let_def if_True if_False simp_thms)
    qed
    with gmatch_stars [OF ne True] show ?thesis by simp
  next
    case False
    then show ?thesis using 2 ne rest
      by (subst tokens.simps) (auto simp: smatch_while.simps [of nocase nesting p s skip] Let_def
        split: if_splits prod.splits)
  qed
next
  case (3 nocase nesting q s skip)
  show ?case
  proof (cases "s = []")
    case True
    then show ?thesis using "3.prems" by (simp add: smatch_star.simps [of nocase nesting q "[]" skip])
  next
    case False
    obtain r k where rk: "stringmatchlen_impl nocase (nesting + 1) q s skip = (r, k)" by fastforce
    show ?thesis
    proof (cases "r")
      case True
      then show ?thesis using "3.IH"(1) False rk by (simp add: gmatch.simps(2))
    next
      case r: False
      then have "gmatch (Star # tokens nocase q) (tl s)"
        using "3.IH"(2) [of "(r, k)" r k] "3.prems" False rk
        by (simp add: smatch_star.simps [of nocase nesting q s skip] split: if_splits)
      then show ?thesis using False by (simp add: gmatch.simps(2) [of _ s])
    qed
  qed
next
  case (4 nocase nesting p s skip)
  then show ?case
    by (auto simp: smatch_next.simps [of nocase nesting p s skip] gmatch_Nil_iff split: if_splits)
qed

text \<open>C9: on a non-empty string the matcher decides exactly the reference relation, for every
  pattern of at most 1000 stars: collapsing stars and abandoning longer matches once a later part
  of the pattern matches nowhere in the rest loses no match.\<close>

theorem stringmatchlen_exact:
  assumes "s \<noteq> []" "nstars (tokens nocase p) \<le> 1000"
  shows "stringmatchlen nocase p s = gmatch (tokens nocase p) s"
  using smatch_exact(1) [of False s 0 nocase p] assms by (simp add: stringmatchlen_def exact_def)

theorem stringmatchlen_exact_witness:
  "stringmatchlen False (map of_char ''a*[b-d]*?'') (map of_char ''axxcz'')"
proof -
  have "nstars (tokens False (map of_char ''a*[b-d]*?'')) = 2" by code_simp
  moreover have "gmatch (tokens False (map of_char ''a*[b-d]*?'')) (map of_char ''axxcz'')" by code_simp
  ultimately show ?thesis
    using stringmatchlen_exact [of "map of_char ''axxcz''" False "map of_char ''a*[b-d]*?''"] by simp
qed

text \<open>C26: whatever the number of stars, a reported match on a non-empty string is one of the
  reference relation (beyond the nesting limit the code only misses matches).\<close>

theorem stringmatchlen_sound:
  assumes "s \<noteq> []" "stringmatchlen nocase p s"
  shows "gmatch (tokens nocase p) s"
  using smatch_sound(1) assms unfolding stringmatchlen_def by blast

theorem stringmatchlen_sound_witness:
  "gmatch (tokens True (map of_char ''A*'')) (map of_char ''ab'')"
proof (rule stringmatchlen_sound)
  show "stringmatchlen True (map of_char ''A*'') (map of_char ''ab'')" by code_simp
qed simp

text \<open>C27: on the empty string only the empty pattern matches; in particular a pattern of stars,
  which the reference relation matches with it, does not.\<close>

theorem stringmatchlen_empty: "stringmatchlen nocase p [] \<longleftrightarrow> p = []"
  by (simp add: stringmatchlen_def stringmatchlen_impl.simps smatch_while.simps)

lemma gmatch_append_Star: "gmatch (ts @ [Star]) s \<Longrightarrow> gmatch (ts @ [Star]) (s @ x)"
proof (induction ts arbitrary: s)
  case Nil
  then show ?case by (auto simp: gmatch_Star)
next
  case (Cons t ts)
  show ?case
  proof (cases t)
    case Star
    then obtain u where "suffix u s" "gmatch (ts @ [Star]) u" using Cons.prems by (auto simp: gmatch_Star)
    moreover have "suffix (u @ x) (s @ x)" using calculation(1) by (auto simp: suffix_def)
    ultimately have "gmatch (Star # (ts @ [Star])) (s @ x)" unfolding gmatch_Star using Cons.IH [of u] by blast
    then show ?thesis using Star by simp
  next
    case (One f)
    then show ?thesis using Cons by (cases s) auto
  qed
qed

text \<open>What the second step of \<open>prefixmatch\<close> computes, and the patterns on which it is right: those
  that do not run out inside a bracket expression.\<close>

definition star_end :: "u8 list \<Rightarrow> bool" where
  "star_end p \<longleftrightarrow> p \<noteq> [] \<and> last p = 42 \<and> even (length (takeWhile (\<lambda>x. x = 92) (rev (butlast p))))"

function brackets_closed :: "bool \<Rightarrow> u8 list \<Rightarrow> bool" where
  "brackets_closed nocase p =
     (if p = [] then True
      else if hd p = 42 \<or> hd p = 63 then brackets_closed nocase (tl p)
      else if hd p = 91
      then let q = snd (glob_bracket nocase 0 (tl p)) in if q = [] then last p = 93 else brackets_closed nocase q
      else brackets_closed nocase (tl (glob_lit p)))"
  by pat_completeness auto
termination
  apply (relation "measure (\<lambda>(_, p). length p)")
  subgoal by simp
  subgoal by simp
  subgoal for nocase p q using glob_bracket_length [of nocase 0 "tl p"] by (cases p) auto
  subgoal for nocase p using glob_lit_length [of p] by auto
  done

declare brackets_closed.simps [simp del]

lemma prefixmatch_star_end: "prefixmatch nocase p s \<longleftrightarrow> stringmatchlen nocase p s \<and> star_end p"
  by (auto simp: prefixmatch_def stringmatchlen_def star_end_def Let_def even_iff_mod_2_eq_zero)

lemma star_end_tl: "hd p \<noteq> 92 \<Longrightarrow> tl p \<noteq> [] \<Longrightarrow> star_end (tl p) = star_end p"
  by (cases p) (auto simp: star_end_def takeWhile_tail)

lemma star_end_append: "x \<noteq> 92 \<Longrightarrow> q \<noteq> [] \<Longrightarrow> star_end (pre @ x # q) = star_end q"
  by (simp add: star_end_def butlast_append takeWhile_tail)

lemma star_end_escape: "q \<noteq> [] \<Longrightarrow> star_end (92 # y # q) = star_end q"
proof -
  assume "q \<noteq> []"
  moreover have "even (length (takeWhile (\<lambda>x. x = 92) (xs @ [y, 92 :: u8])))
    = even (length (takeWhile (\<lambda>x. x = 92) xs))" for xs
    by (induction xs) auto
  ultimately show ?thesis by (simp add: star_end_def)
qed

lemma glob_class_closing: "snd (glob_class nocase c p m) \<noteq> [] \<Longrightarrow> \<exists>pre. p = pre @ 93 # snd (glob_class nocase c p m)"
proof (induction nocase c p m rule: glob_class.induct)
  case (2 nocase c x p m)
  consider (esc) "p \<noteq> []" "x = 92" | (close) "x = 93" "\<not> (p \<noteq> [] \<and> x = 92)"
    | (range) "length p \<ge> 2" "hd p = 45" "\<not> (p \<noteq> [] \<and> x = 92)" "x \<noteq> 93"
    | (chr) "\<not> (length p \<ge> 2 \<and> hd p = 45)" "\<not> (p \<noteq> [] \<and> x = 92)" "x \<noteq> 93"
    by blast
  then show ?case
  proof cases
    case esc
    then have "length (x # p) \<ge> 2 \<and> x = 92" by (cases p) auto
    then obtain pre where "tl p = pre @ 93 # snd (glob_class nocase c (x # p) m)" using 2 by auto
    then show ?thesis using esc by (intro exI [of _ "x # hd p # pre"]) (simp add: list.expand)
  next
    case close
    then show ?thesis by auto
  next
    case range
    then have *: "\<not> (length (x # p) \<ge> 2 \<and> x = 92)" "length (x # p) \<ge> 3 \<and> hd p = 45" by (cases p; auto)+
    then obtain pre where "drop 2 p = pre @ 93 # snd (glob_class nocase c (x # p) m)" using 2 range by auto
    then show ?thesis using append_take_drop_id [of 2 p]
      by (intro exI [of _ "x # take 2 p @ pre"]) simp
  next
    case chr
    then have *: "\<not> (length (x # p) \<ge> 2 \<and> x = 92)" "\<not> (length (x # p) \<ge> 3 \<and> hd p = 45)" by (cases p; auto)+
    then obtain pre where "p = pre @ 93 # snd (glob_class nocase c (x # p) m)" using 2 chr by auto
    then show ?thesis by (intro exI [of _ "x # pre"]) simp
  qed
qed simp

lemma glob_bracket_closing:
  assumes "snd (glob_bracket nocase c p) \<noteq> []"
  shows "\<exists>pre. p = pre @ 93 # snd (glob_bracket nocase c p)"
proof -
  define neg where "neg = (p \<noteq> [] \<and> hd p = 94)"
  define p' where "p' = (if neg then tl p else p)"
  have *: "snd (glob_bracket nocase c p) = snd (glob_class nocase c p' False)"
    by (simp add: glob_bracket_def Let_def case_prod_beta p'_def neg_def)
  obtain pre where "p' = pre @ 93 # snd (glob_class nocase c p' False)" using glob_class_closing assms * by metis
  moreover have "p = (if neg then [hd p] else []) @ p'" by (cases p) (auto simp: p'_def neg_def)
  ultimately show ?thesis unfolding * by (metis append_assoc)
qed

lemma star_end_bracket:
  assumes "star_end p" "snd (glob_bracket nocase c (tl p)) \<noteq> []"
  shows "star_end (snd (glob_bracket nocase c (tl p)))"
proof -
  obtain pre where "tl p = pre @ 93 # snd (glob_bracket nocase c (tl p))" using glob_bracket_closing assms(2) by blast
  moreover have "p \<noteq> []" using assms(1) by (simp add: star_end_def)
  ultimately have "p = (hd p # pre) @ 93 # snd (glob_bracket nocase c (tl p))" by (metis append_Cons list.collapse)
  then show ?thesis using assms star_end_append [of 93 "snd (glob_bracket nocase c (tl p))" "hd p # pre"] by simp
qed

lemma star_end_lit:
  assumes "star_end p" "hd p \<noteq> 42"
  shows "star_end (tl (glob_lit p))"
proof (cases "hd p = 92 \<and> length p \<ge> 2")
  case True
  then obtain y r where p: "p = 92 # y # r" by (cases p; cases "tl p") auto
  then have "r \<noteq> []" using assms(1) by (auto simp: star_end_def)
  then show ?thesis using assms(1) p star_end_escape [of r y] by (simp add: glob_lit_def)
next
  case False
  then have "glob_lit p = p" unfolding glob_lit_def by (simp only: if_False)
  moreover have tl: "tl p \<noteq> []" using assms by (cases p) (auto simp: star_end_def)
  moreover have "hd p \<noteq> 92" using False tl by (cases p; cases "tl p") auto
  ultimately show ?thesis using assms(1) star_end_tl [of p] by simp
qed

lemma tokens_last_Star:
  "brackets_closed nocase p \<Longrightarrow> star_end p \<Longrightarrow> \<exists>ts. tokens nocase p = ts @ [Star]"
proof (induction nocase p rule: tokens.induct)
  case (1 nocase p)
  have ne: "p \<noteq> []" using 1(6) by (simp add: star_end_def)
  have grow: "\<exists>ts. t # tokens nocase q = ts @ [Star]" if "\<exists>ts. tokens nocase q = ts @ [Star]" for t q
    using that by (metis append_Cons)
  consider (star) "hd p = 42" | (any) "hd p = 63" | (br) "hd p = 91"
    | (lit) "hd p \<noteq> 42" "hd p \<noteq> 63" "hd p \<noteq> 91" by blast
  then show ?case
  proof cases
    case star
    then have tk: "tokens nocase p = Star # tokens nocase (tl p)" using ne by (simp add: tokens_star)
    show ?thesis
    proof (cases "tl p = []")
      case True
      then show ?thesis using tk by simp
    next
      case False
      then have "star_end (tl p)" using 1(6) star star_end_tl [of p] ne by simp
      moreover have "brackets_closed nocase (tl p)" using 1(5) ne star by (subst (asm) brackets_closed.simps) simp
      ultimately show ?thesis unfolding tk using 1(1) ne star by (intro grow) simp
    qed
  next
    case any
    then have tk: "tokens nocase p = One (\<lambda>_. True) # tokens nocase (tl p)" using ne by (subst tokens.simps) simp
    have "tl p \<noteq> []" using 1(6) any ne by (cases p) (auto simp: star_end_def)
    then have "star_end (tl p)" using 1(6) any star_end_tl [of p] ne by simp
    moreover have "brackets_closed nocase (tl p)" using 1(5) ne any by (subst (asm) brackets_closed.simps) simp
    ultimately show ?thesis unfolding tk using 1(2) ne any by (intro grow) simp
  next
    case br
    define q where "q = snd (glob_bracket nocase 0 (tl p))"
    have tk: "tokens nocase p = One (\<lambda>c. fst (glob_bracket nocase c (tl p))) # tokens nocase q"
      using ne br unfolding q_def by (subst tokens.simps) simp
    have cl: "if q = [] then last p = 93 else brackets_closed nocase q"
      using 1(5) ne br unfolding q_def by (subst (asm) brackets_closed.simps) (simp add: Let_def)
    then have q: "q \<noteq> []" using 1(6) by (auto simp: star_end_def)
    then have "star_end q" using star_end_bracket 1(6) unfolding q_def by blast
    then show ?thesis unfolding tk using 1(3) ne br cl q by (intro grow) (simp add: q_def)
  next
    case lit
    define q where "q = tl (glob_lit p)"
    have tk: "tokens nocase p = One (chr_eq nocase (hd (glob_lit p))) # tokens nocase q"
      using ne lit unfolding q_def by (subst tokens.simps) simp
    have cl: "brackets_closed nocase q"
      using 1(5) ne lit unfolding q_def by (subst (asm) brackets_closed.simps) simp
    have "star_end q" using star_end_lit 1(6) lit(1) unfolding q_def by blast
    then show ?thesis unfolding tk using 1(4) ne lit cl by (intro grow) (simp add: q_def)
  qed
qed

text \<open>C28: when a pattern whose bracket expressions are closed passes \<open>prefixmatch\<close> on a non-empty
  prefix, it matches every string with that prefix: the test that the last byte is a star with an even
  number of backslashes before it makes the answer safe for whole keys.\<close>

theorem prefixmatch_extends:
  assumes "prefixmatch nocase p s" "s \<noteq> []" "brackets_closed nocase p" "nstars (tokens nocase p) \<le> 1000"
  shows "stringmatchlen nocase p (s @ x)"
proof -
  obtain ts where ts: "tokens nocase p = ts @ [Star]"
    using tokens_last_Star assms(1,3) prefixmatch_star_end by blast
  have "stringmatchlen nocase p s" using assms(1) by (simp add: prefixmatch_star_end)
  then have "gmatch (ts @ [Star]) s" using smatch_sound(1) assms(2) ts unfolding stringmatchlen_def by metis
  then show ?thesis
    using smatch_exact(1) [of False "s @ x" 0 nocase p] assms(2,4) ts gmatch_append_Star [of ts s x]
    by (simp add: stringmatchlen_def exact_def)
qed

theorem prefixmatch_extends_witness:
  "stringmatchlen False (map of_char ''u[0-9]'' @ [92, 92, 42]) ((map of_char ''u7'' @ [92]) @ map of_char ''17'')"
proof (rule prefixmatch_extends)
  show "prefixmatch False (map of_char ''u[0-9]'' @ [92, 92, 42]) (map of_char ''u7'' @ [92])" by code_simp
  show "brackets_closed False (map of_char ''u[0-9]'' @ [92, 92, 42])" by code_simp
  have "nstars (tokens False (map of_char ''u[0-9]'' @ [92, 92, 42])) = 1" by code_simp
  then show "nstars (tokens False (map of_char ''u[0-9]'' @ [92, 92, 42])) \<le> 1000" by simp
qed simp

lemma glob_class_plain:
  "93 \<notin> set cs \<Longrightarrow> 92 \<notin> set cs \<Longrightarrow> 45 \<notin> set cs \<Longrightarrow>
   glob_class nocase d (cs @ [42]) m = (m \<or> (\<exists>x\<in>set (cs @ [42]). chr_eq nocase x d), [])"
proof (induction cs arbitrary: m)
  case (Cons x cs)
  have "hd (cs @ [42 :: u8]) \<noteq> 45" using Cons.prems by (cases cs) auto
  then have "glob_class nocase d ((x # cs) @ [42]) m = glob_class nocase d (cs @ [42]) (if chr_eq nocase x d then True else m)"
    using Cons.prems by auto
  then show ?case using Cons by auto
qed simp

text \<open>C29: without that condition the test is not enough. It looks at the bytes only, so a star inside
  an unclosed bracket expression passes it: for every list of plain members, \<open>prefixmatch\<close> accepts
  each of them as a prefix, but the pattern matches no longer string.\<close>

theorem prefixmatch_bracket_star:
  assumes "93 \<notin> set cs" "92 \<notin> set cs" "45 \<notin> set cs" "c \<in> set cs" "hd cs \<noteq> 94"
  shows "prefixmatch nocase (91 # cs @ [42]) [c] \<and>
    (stringmatchlen nocase (91 # cs @ [42]) (c # x) \<longleftrightarrow> x = [])"
proof -
  have "cs \<noteq> []" "chr_eq nocase c c" using assms(4) by (auto simp: chr_eq_def)
  then have "glob_bracket nocase c (cs @ [42]) = (True, [])"
    using assms glob_class_plain [of cs nocase c False] by (auto simp: glob_bracket_def)
  then have m: "stringmatchlen nocase (91 # cs @ [42]) (c # x) \<longleftrightarrow> x = []" for x
    by (simp add: stringmatchlen_def stringmatchlen_impl.simps smatch_while.simps smatch_next.simps)
  have "takeWhile (\<lambda>x. x = 92) (rev cs @ [91 :: u8]) = []" using assms(2) \<open>cs \<noteq> []\<close>
    by (cases cs rule: rev_cases) auto
  then have "star_end (91 # cs @ [42])" by (simp add: star_end_def)
  then show ?thesis by (simp add: prefixmatch_star_end m)
qed

theorem prefixmatch_bracket_star_witness:
  "prefixmatch False (91 # map of_char ''ab'' @ [42]) [of_char (CHR ''a'')] \<and>
   \<not> stringmatchlen False (91 # map of_char ''ab'' @ [42]) (of_char (CHR ''a'') # map of_char ''xy'')"
  using prefixmatch_bracket_star [of "map of_char ''ab''" "of_char (CHR ''a'')" False "map of_char ''xy''"]
  by simp

end
