(* ===== verification/Listpack.thy ===== *)
theory Listpack
  imports Prelude Numconv
begin

unbundle bit_operations_syntax

text \<open>
  Listpacks (\<open>listpack.c\<close>): a sequence of strings and integers serialised in one block of bytes.

  A listpack is the list of bytes of its allocation, so its length is \<open>lp_malloc_size(lp)\<close>, which may
  exceed the total stored in the header. A \<open>unsigned char *\<close> into the block is an offset. Every access
  goes through the checked \<open>rd\<close>, \<open>rd_n\<close>, \<open>wr_n\<close> and \<open>mem_move\<close>; \<open>None\<close> is an access outside the block or a
  failed \<open>assert\<close>. The parameter \<open>junk\<close> is the content of memory that the allocator hands out.
  Bit fields that do not overlap are joined with \<open>+\<close> where the code uses \<open>|\<close>.
\<close>

subsection \<open>Constants and header\<close>

definition LP_HDR_SIZE :: nat where [simp]: "LP_HDR_SIZE = 6"
definition LP_HDR_NUMELE_UNKNOWN :: nat where [simp]: "LP_HDR_NUMELE_UNKNOWN = 65535"
definition LP_EOF :: u8 where [simp]: "LP_EOF = 0xFF"
definition LP_INTBUF_SIZE :: nat where [simp]: "LP_INTBUF_SIZE = 21"
definition LISTPACK_MAX_SAFETY_SIZE :: nat where [simp]: "LISTPACK_MAX_SAFETY_SIZE = 2 ^ 30"

definition LP_ENCODING_IS_7BIT_UINT :: "u8 \<Rightarrow> bool" where
  "LP_ENCODING_IS_7BIT_UINT b \<longleftrightarrow> b AND 0x80 = 0"
definition LP_ENCODING_IS_6BIT_STR :: "u8 \<Rightarrow> bool" where
  "LP_ENCODING_IS_6BIT_STR b \<longleftrightarrow> b AND 0xC0 = 0x80"
definition LP_ENCODING_IS_13BIT_INT :: "u8 \<Rightarrow> bool" where
  "LP_ENCODING_IS_13BIT_INT b \<longleftrightarrow> b AND 0xE0 = 0xC0"
definition LP_ENCODING_IS_12BIT_STR :: "u8 \<Rightarrow> bool" where
  "LP_ENCODING_IS_12BIT_STR b \<longleftrightarrow> b AND 0xF0 = 0xE0"
definition LP_ENCODING_IS_16BIT_INT :: "u8 \<Rightarrow> bool" where
  "LP_ENCODING_IS_16BIT_INT b \<longleftrightarrow> b AND 0xFF = 0xF1"
definition LP_ENCODING_IS_24BIT_INT :: "u8 \<Rightarrow> bool" where
  "LP_ENCODING_IS_24BIT_INT b \<longleftrightarrow> b AND 0xFF = 0xF2"
definition LP_ENCODING_IS_32BIT_INT :: "u8 \<Rightarrow> bool" where
  "LP_ENCODING_IS_32BIT_INT b \<longleftrightarrow> b AND 0xFF = 0xF3"
definition LP_ENCODING_IS_64BIT_INT :: "u8 \<Rightarrow> bool" where
  "LP_ENCODING_IS_64BIT_INT b \<longleftrightarrow> b AND 0xFF = 0xF4"
definition LP_ENCODING_IS_32BIT_STR :: "u8 \<Rightarrow> bool" where
  "LP_ENCODING_IS_32BIT_STR b \<longleftrightarrow> b AND 0xFF = 0xF0"

definition LP_ENCODING_6BIT_STR_LEN :: "u8 list \<Rightarrow> nat \<Rightarrow> nat res" where
  "LP_ENCODING_6BIT_STR_LEN lp p = do { b \<leftarrow> rd lp p; Some (unat (b AND 0x3F)) }"

definition LP_ENCODING_12BIT_STR_LEN :: "u8 list \<Rightarrow> nat \<Rightarrow> nat res" where
  "LP_ENCODING_12BIT_STR_LEN lp p =
     do { b0 \<leftarrow> rd lp p; b1 \<leftarrow> rd lp (p + 1); Some (unat (b0 AND 0xF) * 256 + unat b1) }"

definition LP_ENCODING_32BIT_STR_LEN :: "u8 list \<Rightarrow> nat \<Rightarrow> nat res" where
  "LP_ENCODING_32BIT_STR_LEN lp p = do { bs \<leftarrow> rd_n lp (p + 1) 4; Some (nat (le_uint bs)) }"

definition lpGetTotalBytes :: "u8 list \<Rightarrow> nat res" where
  "lpGetTotalBytes lp = do { bs \<leftarrow> rd_n lp 0 4; Some (nat (le_uint bs)) }"

definition lpGetNumElements :: "u8 list \<Rightarrow> nat res" where
  "lpGetNumElements lp = do { bs \<leftarrow> rd_n lp 4 2; Some (nat (le_uint bs)) }"

definition lpSetTotalBytes :: "u8 list \<Rightarrow> int \<Rightarrow> u8 list res" where
  "lpSetTotalBytes lp v = wr_n lp 0 (le_bytes 4 v)"

definition lpSetNumElements :: "u8 list \<Rightarrow> int \<Rightarrow> u8 list res" where
  "lpSetNumElements lp v = wr_n lp 4 (le_bytes 2 v)"

definition lpBytes :: "u8 list \<Rightarrow> nat res" where
  "lpBytes lp = lpGetTotalBytes lp"

definition lpSafeToAdd :: "u8 list ptr \<Rightarrow> nat \<Rightarrow> bool res" where
  "lpSafeToAdd lp add =
     do { len \<leftarrow> (case lp of Some lp \<Rightarrow> lpGetTotalBytes lp | None \<Rightarrow> Some 0);
          Some (\<not> len + add > LISTPACK_MAX_SAFETY_SIZE) }"

definition ASSERT_INTEGRITY :: "u8 list \<Rightarrow> nat \<Rightarrow> unit res" where
  "ASSERT_INTEGRITY lp p = do { tb \<leftarrow> lpGetTotalBytes lp; chk (p \<ge> LP_HDR_SIZE \<and> p < tb) }"

definition ASSERT_INTEGRITY_LEN :: "u8 list \<Rightarrow> nat \<Rightarrow> nat \<Rightarrow> unit res" where
  "ASSERT_INTEGRITY_LEN lp p len = do { tb \<leftarrow> lpGetTotalBytes lp; chk (p \<ge> LP_HDR_SIZE \<and> p + len < tb) }"


subsection \<open>Encoding\<close>

definition lpStringToInt64 :: "u8 list \<Rightarrow> int option" where
  "lpStringToInt64 s =
     (if length s = 0 \<or> length s \<ge> LONG_STR_SIZE then None
      else if length s = 1 \<and> hd s = 48 then Some 0
      else
        let negative = (hd s = 45); p = (if negative then tl s else s)
        in if p = [] then None
           else if 49 \<le> hd p \<and> hd p \<le> 57 then
             (case string2ll_loop (tl p) (ucast (hd p) - 48) of None \<Rightarrow> None
              | Some (v, rest) \<Rightarrow>
                  if rest \<noteq> [] then None
                  else if negative then (if v > word_of_int (- (LLONG_MIN + 1)) + 1 then None else Some (sint (- v)))
                  else if v > word_of_int LLONG_MAX then None else Some (sint v))
           else None)"

definition lpNew :: "(nat \<Rightarrow> u8) \<Rightarrow> nat \<Rightarrow> u8 list res" where
  "lpNew junk capacity =
     do { let lp = re_alloc junk (if capacity > LP_HDR_SIZE + 1 then capacity else LP_HDR_SIZE + 1) [];
          lp \<leftarrow> lpSetTotalBytes lp (int LP_HDR_SIZE + 1);
          lp \<leftarrow> lpSetNumElements lp 0;
          wr lp LP_HDR_SIZE LP_EOF }"

definition lpShrinkToFit :: "(nat \<Rightarrow> u8) \<Rightarrow> u8 list \<Rightarrow> u8 list res" where
  "lpShrinkToFit junk lp =
     do { sz \<leftarrow> lpGetTotalBytes lp; Some (if sz < length lp then re_alloc junk sz lp else lp) }"

definition lpEncodeIntegerGetType :: "int \<Rightarrow> u8 list" where
  "lpEncodeIntegerGetType v =
     (if v \<ge> 0 \<and> v \<le> 127 then [word_of_int v]
      else if v \<ge> - 4096 \<and> v \<le> 4095 then
        let v = (if v < 0 then 2 ^ 13 + v else v)
        in [word_of_int (v div 256) OR 0xC0, word_of_int v]
      else if v \<ge> - 32768 \<and> v \<le> 32767 then
        let v = (if v < 0 then 2 ^ 16 + v else v) in 0xF1 # le_bytes 2 v
      else if v \<ge> - 8388608 \<and> v \<le> 8388607 then
        let v = (if v < 0 then 2 ^ 24 + v else v) in 0xF2 # le_bytes 3 v
      else if v \<ge> - 2147483648 \<and> v \<le> 2147483647 then
        let v = (if v < 0 then 2 ^ 32 + v else v) in 0xF3 # le_bytes 4 v
      else 0xF4 # le_bytes 8 v)"

datatype lp_enctype = LP_ENCODING_INT "u8 list" | LP_ENCODING_STRING

definition lpEncodeGetType :: "u8 list \<Rightarrow> lp_enctype \<times> nat" where
  "lpEncodeGetType ele =
     (case lpStringToInt64 ele of
        Some v \<Rightarrow> (LP_ENCODING_INT (lpEncodeIntegerGetType v), length (lpEncodeIntegerGetType v))
      | None \<Rightarrow>
          (LP_ENCODING_STRING,
           if length ele < 64 then 1 + length ele
           else if length ele < 4096 then 2 + length ele
           else 5 + length ele))"

definition lpEncodeBacklen :: "nat \<Rightarrow> u8 list" where
  "lpEncodeBacklen l =
     (if l \<le> 127 then [of_nat l]
      else if l < 16383 then [of_nat (l div 2 ^ 7), of_nat (l mod 128 + 128)]
      else if l < 2097151 then
        [of_nat (l div 2 ^ 14), of_nat (l div 2 ^ 7 mod 128 + 128), of_nat (l mod 128 + 128)]
      else if l < 268435455 then
        [of_nat (l div 2 ^ 21), of_nat (l div 2 ^ 14 mod 128 + 128), of_nat (l div 2 ^ 7 mod 128 + 128),
         of_nat (l mod 128 + 128)]
      else
        [of_nat (l div 2 ^ 28), of_nat (l div 2 ^ 21 mod 128 + 128), of_nat (l div 2 ^ 14 mod 128 + 128),
         of_nat (l div 2 ^ 7 mod 128 + 128), of_nat (l mod 128 + 128)])"

definition lpEncodeBacklenBytes :: "nat \<Rightarrow> nat" where
  "lpEncodeBacklenBytes l =
     (if l \<le> 127 then 1
      else if l < 16383 then 2
      else if l < 2097151 then 3
      else if l < 268435455 then 4
      else 5)"

definition rd_back :: "u8 list \<Rightarrow> nat \<Rightarrow> nat \<Rightarrow> u8 res" where
  "rd_back lp p k = (if k \<le> p then rd lp (p - k) else None)"

definition lpDecodeBacklen :: "u8 list \<Rightarrow> nat \<Rightarrow> nat res" where
  "lpDecodeBacklen lp p = do {
     b0 \<leftarrow> rd lp p;
     if b0 AND 128 = 0 then Some (unat (b0 AND 127)) else do {
     let val = unat (b0 AND 127);
     b1 \<leftarrow> rd_back lp p 1;
     if b1 AND 128 = 0 then Some (val + unat (b1 AND 127) * 2 ^ 7) else do {
     let val = val + unat (b1 AND 127) * 2 ^ 7;
     b2 \<leftarrow> rd_back lp p 2;
     if b2 AND 128 = 0 then Some (val + unat (b2 AND 127) * 2 ^ 14) else do {
     let val = val + unat (b2 AND 127) * 2 ^ 14;
     b3 \<leftarrow> rd_back lp p 3;
     if b3 AND 128 = 0 then Some (val + unat (b3 AND 127) * 2 ^ 21) else do {
     let val = val + unat (b3 AND 127) * 2 ^ 21;
     b4 \<leftarrow> rd_back lp p 4;
     if b4 AND 128 = 0 then Some (val + unat (b4 AND 127) * 2 ^ 28) else
     Some (2 ^ 64 - 1) }}}}}"

definition lpEncodeString :: "u8 list \<Rightarrow> nat \<Rightarrow> u8 list \<Rightarrow> u8 list res" where
  "lpEncodeString buf dst s =
     (let len = length s
      in if len < 64 then do { buf \<leftarrow> wr buf dst (of_nat len OR 0x80); wr_n buf (dst + 1) s }
         else if len < 4096 then do {
           buf \<leftarrow> wr buf dst (of_nat (len div 256) OR 0xE0);
           buf \<leftarrow> wr buf (dst + 1) (of_nat len);
           wr_n buf (dst + 2) s }
         else do {
           buf \<leftarrow> wr buf dst 0xF0;
           buf \<leftarrow> wr_n buf (dst + 1) (le_bytes 4 (int len));
           wr_n buf (dst + 5) s })"

definition lpCurrentEncodedSizeUnsafe :: "u8 list \<Rightarrow> nat \<Rightarrow> nat res" where
  "lpCurrentEncodedSizeUnsafe lp p = do {
     b \<leftarrow> rd lp p;
     if LP_ENCODING_IS_7BIT_UINT b then Some 1
     else if LP_ENCODING_IS_6BIT_STR b then do { n \<leftarrow> LP_ENCODING_6BIT_STR_LEN lp p; Some (1 + n) }
     else if LP_ENCODING_IS_13BIT_INT b then Some 2
     else if LP_ENCODING_IS_16BIT_INT b then Some 3
     else if LP_ENCODING_IS_24BIT_INT b then Some 4
     else if LP_ENCODING_IS_32BIT_INT b then Some 5
     else if LP_ENCODING_IS_64BIT_INT b then Some 9
     else if LP_ENCODING_IS_12BIT_STR b then do { n \<leftarrow> LP_ENCODING_12BIT_STR_LEN lp p; Some (2 + n) }
     else if LP_ENCODING_IS_32BIT_STR b then do { n \<leftarrow> LP_ENCODING_32BIT_STR_LEN lp p; Some ((5 + n) mod 2 ^ 32) }
     else if b = LP_EOF then Some 1
     else Some 0 }"

definition lpCurrentEncodedSizeBytes :: "u8 \<Rightarrow> nat" where
  "lpCurrentEncodedSizeBytes b =
     (if LP_ENCODING_IS_7BIT_UINT b then 1
      else if LP_ENCODING_IS_6BIT_STR b then 1
      else if LP_ENCODING_IS_13BIT_INT b then 1
      else if LP_ENCODING_IS_16BIT_INT b then 1
      else if LP_ENCODING_IS_24BIT_INT b then 1
      else if LP_ENCODING_IS_32BIT_INT b then 1
      else if LP_ENCODING_IS_64BIT_INT b then 1
      else if LP_ENCODING_IS_12BIT_STR b then 2
      else if LP_ENCODING_IS_32BIT_STR b then 5
      else if b = LP_EOF then 1
      else 0)"


subsection \<open>Validation and navigation\<close>

definition lpSkip :: "u8 list \<Rightarrow> nat \<Rightarrow> nat res" where
  "lpSkip lp p = do {
     entrylen \<leftarrow> lpCurrentEncodedSizeUnsafe lp p;
     let entrylen = entrylen + lpEncodeBacklenBytes entrylen;
     Some (p + entrylen) }"

definition OUT_OF_RANGE :: "nat \<Rightarrow> nat \<Rightarrow> bool" where
  "OUT_OF_RANGE lpbytes p \<longleftrightarrow> p < LP_HDR_SIZE \<or> p + 1 > lpbytes"

definition lpValidateFirst :: "u8 list \<Rightarrow> nat ptr res" where
  "lpValidateFirst lp = do {
     b \<leftarrow> rd lp LP_HDR_SIZE;
     if b = LP_EOF then Some None else Some (Some LP_HDR_SIZE) }"

definition lpValidateNext :: "u8 list \<Rightarrow> nat ptr \<Rightarrow> nat \<Rightarrow> (bool \<times> nat ptr) res" where
  "lpValidateNext lp pp lpbytes =
     (case pp of None \<Rightarrow> Some (False, pp)
      | Some p \<Rightarrow>
          if OUT_OF_RANGE lpbytes p then Some (False, pp)
          else do {
            b \<leftarrow> rd lp p;
            if b = LP_EOF then Some (True, None)
            else let lenbytes = lpCurrentEncodedSizeBytes b in
            if lenbytes = 0 then Some (False, pp)
            else if OUT_OF_RANGE lpbytes (p + lenbytes) then Some (False, pp)
            else do {
              entrylen \<leftarrow> lpCurrentEncodedSizeUnsafe lp p;
              let encodedBacklen = lpEncodeBacklenBytes entrylen;
              let entrylen = entrylen + encodedBacklen;
              if OUT_OF_RANGE lpbytes (p + entrylen) then Some (False, pp)
              else do {
                let p = p + entrylen;
                prevlen \<leftarrow> lpDecodeBacklen lp (p - 1);
                if (prevlen + encodedBacklen) mod 2 ^ 64 \<noteq> entrylen then Some (False, pp)
                else Some (True, Some p) } } })"

definition lpAssertValidEntry :: "u8 list \<Rightarrow> nat \<Rightarrow> nat \<Rightarrow> unit res" where
  "lpAssertValidEntry lp lpbytes p = do { (ok, _) \<leftarrow> lpValidateNext lp (Some p) lpbytes; chk ok }"

definition lpNextWithBytes :: "u8 list \<Rightarrow> nat \<Rightarrow> nat \<Rightarrow> nat ptr res" where
  "lpNextWithBytes lp p lpbytes = do {
     p \<leftarrow> lpSkip lp p;
     b \<leftarrow> rd lp p;
     if b = LP_EOF then Some None
     else do { lpAssertValidEntry lp lpbytes p; Some (Some p) } }"

definition lpNext :: "u8 list \<Rightarrow> nat \<Rightarrow> nat ptr res" where
  "lpNext lp p = do {
     p \<leftarrow> lpSkip lp p;
     b \<leftarrow> rd lp p;
     if b = LP_EOF then Some None
     else do { n \<leftarrow> lpBytes lp; lpAssertValidEntry lp n p; Some (Some p) } }"

definition lpPrev :: "u8 list \<Rightarrow> nat \<Rightarrow> nat ptr res" where
  "lpPrev lp p =
     (if p = LP_HDR_SIZE then Some None
      else do {
        chk (p \<ge> 1);
        let p = p - 1;
        prevlen \<leftarrow> lpDecodeBacklen lp p;
        let prevlen = (prevlen + lpEncodeBacklenBytes prevlen) mod 2 ^ 64;
        chk (prevlen - 1 \<le> p);
        let p = p - (prevlen - 1);
        n \<leftarrow> lpBytes lp;
        lpAssertValidEntry lp n p;
        Some (Some p) })"

definition lpFirst :: "u8 list \<Rightarrow> nat ptr res" where
  "lpFirst lp = do {
     b \<leftarrow> rd lp LP_HDR_SIZE;
     if b = LP_EOF then Some None
     else do { n \<leftarrow> lpBytes lp; lpAssertValidEntry lp n LP_HDR_SIZE; Some (Some LP_HDR_SIZE) } }"

definition lpLast :: "u8 list \<Rightarrow> nat ptr res" where
  "lpLast lp = do { n \<leftarrow> lpGetTotalBytes lp; chk (n \<ge> 1); lpPrev lp (n - 1) }"

lemma lpNext_gt: "lpNext lp p = Some (Some p') \<Longrightarrow> p < p' \<and> p' < length lp"
  by (auto simp: lpNext_def lpSkip_def lpEncodeBacklenBytes_def Let_def split: Option.bind_splits if_splits)

function lpLength_loop :: "u8 list \<Rightarrow> nat ptr \<Rightarrow> nat \<Rightarrow> nat res" where
  "lpLength_loop lp None count = Some count"
| "lpLength_loop lp (Some p) count = do { q \<leftarrow> lpNext lp p; lpLength_loop lp q (count + 1) }"
  by pat_completeness auto
termination
  by (relation "measure (\<lambda>(lp, p, _). case p of None \<Rightarrow> 0 | Some p \<Rightarrow> Suc (length lp - p))")
    (auto split: option.splits dest: lpNext_gt)

definition lpLength :: "u8 list \<Rightarrow> (nat \<times> u8 list) res" where
  "lpLength lp = do {
     numele \<leftarrow> lpGetNumElements lp;
     if numele \<noteq> LP_HDR_NUMELE_UNKNOWN then Some (numele, lp)
     else do {
       p \<leftarrow> lpFirst lp;
       count \<leftarrow> lpLength_loop lp p 0;
       lp \<leftarrow> (if count < LP_HDR_NUMELE_UNKNOWN then lpSetNumElements lp (int count) else Some lp);
       Some (count, lp) } }"

fun lpSeek_forward :: "u8 list \<Rightarrow> nat ptr \<Rightarrow> nat \<Rightarrow> nat ptr res" where
  "lpSeek_forward lp ele 0 = Some ele"
| "lpSeek_forward lp None (Suc index) = Some None"
| "lpSeek_forward lp (Some p) (Suc index) = do { ele \<leftarrow> lpNext lp p; lpSeek_forward lp ele index }"

fun lpSeek_backward :: "u8 list \<Rightarrow> nat ptr \<Rightarrow> nat \<Rightarrow> nat ptr res" where
  "lpSeek_backward lp ele 0 = Some ele"
| "lpSeek_backward lp None (Suc index) = Some None"
| "lpSeek_backward lp (Some p) (Suc index) = do { ele \<leftarrow> lpPrev lp p; lpSeek_backward lp ele index }"

text \<open>The loops of \<open>lpSeek\<close> count the distance to the target: \<open>index\<close> steps from the first element,
  or \<open>- 1 - index\<close> steps from the last one for a negative index.\<close>

definition lpSeek :: "u8 list \<Rightarrow> int \<Rightarrow> nat ptr res" where
  "lpSeek lp index = do {
     numele \<leftarrow> lpGetNumElements lp;
     if numele \<noteq> LP_HDR_NUMELE_UNKNOWN then
       let index = (if index < 0 then int numele + index else index) in
       if index < 0 then Some None
       else if index \<ge> int numele then Some None
       else if index > int numele div 2 then
         do { ele \<leftarrow> lpLast lp; lpSeek_backward lp ele (nat (- 1 - (index - int numele))) }
       else do { ele \<leftarrow> lpFirst lp; lpSeek_forward lp ele (nat index) }
     else if index < 0 then do { ele \<leftarrow> lpLast lp; lpSeek_backward lp ele (nat (- 1 - index)) }
     else do { ele \<leftarrow> lpFirst lp; lpSeek_forward lp ele (nat index) } }"

lemma lpValidateNext_gt: "lpValidateNext lp (Some p) n = Some (True, Some q) \<Longrightarrow> p < q \<and> p < length lp"
  by (auto simp: lpValidateNext_def lpEncodeBacklenBytes_def Let_def split: Option.bind_splits if_splits)

function lpValidate_loop ::
  "('u \<Rightarrow> nat \<Rightarrow> nat \<Rightarrow> ('u \<times> bool) res) option \<Rightarrow> u8 list \<Rightarrow> nat \<Rightarrow> nat \<Rightarrow> nat ptr \<Rightarrow> nat \<Rightarrow> 'u \<Rightarrow>
   ((nat ptr \<times> nat) option \<times> 'u) res" where
  "lpValidate_loop cb lp bytes numele None count u = Some (Some (None, count), u)"
| "lpValidate_loop cb lp bytes numele (Some p) count u = do {
     b \<leftarrow> rd lp p;
     if b = LP_EOF then Some (Some (Some p, count), u)
     else do {
       (ok, q) \<leftarrow> lpValidateNext lp (Some p) bytes;
       if \<not> ok then Some (None, u)
       else do {
         (u, good) \<leftarrow> (case cb of None \<Rightarrow> Some (u, True) | Some f \<Rightarrow> f u p numele);
         if \<not> good then Some (None, u)
         else lpValidate_loop cb lp bytes numele q (count + 1) u } } }"
  by pat_completeness auto
termination
  by (relation "measure (\<lambda>(_, lp, _, _, p, _). case p of None \<Rightarrow> 0 | Some p \<Rightarrow> Suc (length lp - p))")
    (auto split: option.splits dest: lpValidateNext_gt)


definition lpValidateIntegrity ::
  "('u \<Rightarrow> nat \<Rightarrow> nat \<Rightarrow> ('u \<times> bool) res) option \<Rightarrow> u8 list \<Rightarrow> nat \<Rightarrow> bool \<Rightarrow> 'u \<Rightarrow> (bool \<times> 'u) res" where
  "lpValidateIntegrity entry_cb lp sz deep u =
     (if sz < LP_HDR_SIZE + 1 then Some (False, u)
      else do {
        bytes \<leftarrow> lpGetTotalBytes lp;
        if bytes \<noteq> sz then Some (False, u)
        else do {
          b \<leftarrow> rd lp (sz - 1);
          if b \<noteq> LP_EOF then Some (False, u)
          else if \<not> deep then Some (True, u)
          else do {
            numele \<leftarrow> lpGetNumElements lp;
            (r, u) \<leftarrow> lpValidate_loop entry_cb lp bytes numele (Some LP_HDR_SIZE) 0 u;
            case r of None \<Rightarrow> Some (False, u)
            | Some (p, count) \<Rightarrow>
                if p \<noteq> Some (sz - 1) then Some (False, u)
                else if numele \<noteq> LP_HDR_NUMELE_UNKNOWN \<and> numele \<noteq> count then Some (False, u)
                else Some (True, u) } } })"


subsection \<open>Reading elements\<close>

text \<open>What the getters return: a pointer into the listpack and the length, the caller's buffer
  filled with the decimal numeral and its length, or NULL and an integer.\<close>

datatype lp_got = LpStr nat nat | LpBuf "u8 list" nat | LpInt int

definition lp_load :: "u8 list \<Rightarrow> nat \<Rightarrow> nat \<Rightarrow> int res" where
  "lp_load lp p n = do { bs \<leftarrow> rd_n lp (p + 1) n; Some (le_uint bs) }"

definition lp_int_return :: "u8 list ptr \<Rightarrow> int \<Rightarrow> int \<Rightarrow> int \<Rightarrow> lp_got res" where
  "lp_int_return intbuf uval negstart negmax =
     (let val = (if uval \<ge> negstart then - (negmax - uval) - 1 else uval)
      in case intbuf of None \<Rightarrow> Some (LpInt val)
         | Some buf \<Rightarrow> do { (buf, n) \<leftarrow> ll2string buf val; Some (LpBuf buf n) })"

definition lpGetWithSize :: "u8 list \<Rightarrow> nat \<Rightarrow> u8 list ptr \<Rightarrow> nat \<Rightarrow> (lp_got \<times> nat) res" where
  "lpGetWithSize lp p intbuf entry_size = do {
     b \<leftarrow> rd lp p;
     if LP_ENCODING_IS_7BIT_UINT b then
       do { v \<leftarrow> lp_int_return intbuf (uint (b AND 0x7f)) (2 ^ 64 - 1) 0; Some (v, 2) }
     else if LP_ENCODING_IS_6BIT_STR b then
       do { n \<leftarrow> LP_ENCODING_6BIT_STR_LEN lp p; Some (LpStr (p + 1) n, 1 + n + lpEncodeBacklenBytes (n + 1)) }
     else if LP_ENCODING_IS_13BIT_INT b then
       do { b1 \<leftarrow> rd lp (p + 1);
            v \<leftarrow> lp_int_return intbuf (uint (b AND 0x1f) * 256 + uint b1) (2 ^ 12) 8191; Some (v, 3) }
     else if LP_ENCODING_IS_16BIT_INT b then
       do { x \<leftarrow> lp_load lp p 2; v \<leftarrow> lp_int_return intbuf x (2 ^ 15) (2 ^ 16 - 1); Some (v, 4) }
     else if LP_ENCODING_IS_24BIT_INT b then
       do { x \<leftarrow> lp_load lp p 3; v \<leftarrow> lp_int_return intbuf x (2 ^ 23) (2 ^ 24 - 1); Some (v, 5) }
     else if LP_ENCODING_IS_32BIT_INT b then
       do { x \<leftarrow> lp_load lp p 4; v \<leftarrow> lp_int_return intbuf x (2 ^ 31) (2 ^ 32 - 1); Some (v, 6) }
     else if LP_ENCODING_IS_64BIT_INT b then
       do { x \<leftarrow> lp_load lp p 8; v \<leftarrow> lp_int_return intbuf x (2 ^ 63) (2 ^ 64 - 1); Some (v, 10) }
     else if LP_ENCODING_IS_12BIT_STR b then
       do { n \<leftarrow> LP_ENCODING_12BIT_STR_LEN lp p; Some (LpStr (p + 2) n, 2 + n + lpEncodeBacklenBytes (n + 2)) }
     else if LP_ENCODING_IS_32BIT_STR b then
       do { n \<leftarrow> LP_ENCODING_32BIT_STR_LEN lp p; Some (LpStr (p + 5) n, 5 + n + lpEncodeBacklenBytes (n + 5)) }
     else do { v \<leftarrow> lp_int_return intbuf (12345678900000000 + uint b) (2 ^ 64 - 1) 0; Some (v, entry_size) } }"

definition lpGetWithBuf :: "u8 list \<Rightarrow> nat \<Rightarrow> u8 list ptr \<Rightarrow> lp_got res" where
  "lpGetWithBuf lp p intbuf = do {
     b \<leftarrow> rd lp p;
     if LP_ENCODING_IS_6BIT_STR b then do { n \<leftarrow> LP_ENCODING_6BIT_STR_LEN lp p; Some (LpStr (p + 1) n) }
     else if LP_ENCODING_IS_12BIT_STR b then do { n \<leftarrow> LP_ENCODING_12BIT_STR_LEN lp p; Some (LpStr (p + 2) n) }
     else if LP_ENCODING_IS_32BIT_STR b then do { n \<leftarrow> LP_ENCODING_32BIT_STR_LEN lp p; Some (LpStr (p + 5) n) }
     else if LP_ENCODING_IS_7BIT_UINT b then lp_int_return intbuf (uint (b AND 0x7f)) (2 ^ 64 - 1) 0
     else if LP_ENCODING_IS_13BIT_INT b then
       do { b1 \<leftarrow> rd lp (p + 1); lp_int_return intbuf (uint (b AND 0x1f) * 256 + uint b1) (2 ^ 12) 8191 }
     else if LP_ENCODING_IS_16BIT_INT b then do { x \<leftarrow> lp_load lp p 2; lp_int_return intbuf x (2 ^ 15) (2 ^ 16 - 1) }
     else if LP_ENCODING_IS_24BIT_INT b then do { x \<leftarrow> lp_load lp p 3; lp_int_return intbuf x (2 ^ 23) (2 ^ 24 - 1) }
     else if LP_ENCODING_IS_32BIT_INT b then do { x \<leftarrow> lp_load lp p 4; lp_int_return intbuf x (2 ^ 31) (2 ^ 32 - 1) }
     else if LP_ENCODING_IS_64BIT_INT b then do { x \<leftarrow> lp_load lp p 8; lp_int_return intbuf x (2 ^ 63) (2 ^ 64 - 1) }
     else lp_int_return intbuf (12345678900000000 + uint b) (2 ^ 64 - 1) 0 }"

definition lpGet :: "u8 list \<Rightarrow> nat \<Rightarrow> u8 list ptr \<Rightarrow> lp_got res" where
  "lpGet lp p intbuf = lpGetWithBuf lp p intbuf"

definition lpGetValue :: "u8 list \<Rightarrow> nat \<Rightarrow> (nat \<times> nat + int) res" where
  "lpGetValue lp p = do {
     v \<leftarrow> lpGet lp p None;
     case v of LpStr off len \<Rightarrow> Some (Inl (off, len mod 2 ^ 32)) | LpInt i \<Rightarrow> Some (Inr i) | LpBuf _ _ \<Rightarrow> None }"

definition lpGetIntegerValue :: "u8 list \<Rightarrow> nat \<Rightarrow> int option res" where
  "lpGetIntegerValue lp p = do {
     v \<leftarrow> lpGet lp p None;
     case v of LpInt i \<Rightarrow> Some (Some i) | _ \<Rightarrow> Some None }"

definition lpCompare :: "u8 list \<Rightarrow> nat \<Rightarrow> u8 list \<Rightarrow> (int \<times> int) ptr \<Rightarrow> (bool \<times> (int \<times> int) ptr) res" where
  "lpCompare lp p s cache = do {
     b \<leftarrow> rd lp p;
     if b = LP_EOF then Some (False, cache)
     else do {
       v \<leftarrow> lpGet lp p None;
       case v of
         LpStr off sz \<Rightarrow>
           if length s = sz then do { x \<leftarrow> rd_n lp off (length s); Some (x = s, cache) } else Some (False, cache)
       | LpInt sz \<Rightarrow>
           (case cache of
              Some (longval, valid) \<Rightarrow>
                let (longval, valid) =
                  (if valid = 0 then (case lpStringToInt64 s of Some l \<Rightarrow> (l, 1) | None \<Rightarrow> (longval, - 1))
                   else (longval, valid))
                in Some (valid = 1 \<and> sz = longval, Some (longval, valid))
            | None \<Rightarrow>
                (case lpStringToInt64 s of Some sval \<Rightarrow> Some (sz = sval, cache) | None \<Rightarrow> Some (False, cache)))
       | LpBuf _ _ \<Rightarrow> None } }"


subsection \<open>Searching\<close>

function lpFind_loop ::
  "('u \<Rightarrow> nat \<Rightarrow> lp_got \<Rightarrow> ('u \<times> bool) res) \<Rightarrow> nat \<Rightarrow> u8 list \<Rightarrow> nat \<Rightarrow> nat \<Rightarrow> nat \<Rightarrow> nat \<Rightarrow> 'u \<Rightarrow> nat ptr res" where
  "lpFind_loop cmp skip lp lp_bytes p skipcnt entry_size u = do {
     r \<leftarrow> (if skipcnt = 0 then do {
               (v, entry_size) \<leftarrow> lpGetWithSize lp p None entry_size;
               (case v of LpInt _ \<Rightarrow> Some () | _ \<Rightarrow> chk (p \<ge> LP_HDR_SIZE \<and> p + entry_size < lp_bytes));
               (u, equal) \<leftarrow> cmp u p v;
               if equal then Some (Inl p) else Some (Inr (p + entry_size, skip, entry_size, u)) }
             else do { q \<leftarrow> lpSkip lp p; Some (Inr (q, skipcnt - 1, entry_size, u)) });
     case r of Inl p \<Rightarrow> Some (Some p)
     | Inr (q, skipcnt, entry_size, u) \<Rightarrow> do {
         (if q + 8 \<ge> lp_bytes then lpAssertValidEntry lp lp_bytes q
          else chk (q \<ge> LP_HDR_SIZE \<and> q < lp_bytes));
         b \<leftarrow> rd lp q;
         if b = LP_EOF then Some None
         else if p < q then lpFind_loop cmp skip lp lp_bytes q skipcnt entry_size u
         else None } }"
  by pat_completeness auto
termination
  by (relation "measure (\<lambda>(_, _, lp, _, p, _). length lp - p)") auto

text \<open>The guard \<open>p < q\<close> is always true (an entry has at least one byte): it only makes the recursion
  visibly terminate.\<close>

definition lpFindCbInternal ::
  "u8 list \<Rightarrow> nat ptr \<Rightarrow> 'u \<Rightarrow> ('u \<Rightarrow> nat \<Rightarrow> lp_got \<Rightarrow> ('u \<times> bool) res) \<Rightarrow> nat \<Rightarrow> nat ptr res" where
  "lpFindCbInternal lp p u cmp skip = do {
     lp_bytes \<leftarrow> lpBytes lp;
     p \<leftarrow> (case p of None \<Rightarrow> lpFirst lp | Some _ \<Rightarrow> Some p);
     case p of None \<Rightarrow> Some None
     | Some p \<Rightarrow> lpFind_loop cmp skip lp lp_bytes p 0 123456789 u }"

record lpFindArg =
  fa_s :: "u8 list"
  fa_vencoding :: int
  fa_vll :: int

definition lpFindCmp :: "u8 list \<Rightarrow> lpFindArg \<Rightarrow> nat \<Rightarrow> lp_got \<Rightarrow> (lpFindArg \<times> bool) res" where
  "lpFindCmp lp arg p v =
     (case v of
        LpStr off slen \<Rightarrow>
          if slen = length (fa_s arg) then do { x \<leftarrow> rd_n lp off slen; Some (arg, x = fa_s arg) }
          else Some (arg, False)
      | LpInt i \<Rightarrow>
          let arg =
            (if fa_vencoding arg = 0 then
               if length (fa_s arg) \<ge> 32 \<or> length (fa_s arg) = 0 then arg\<lparr>fa_vencoding := 255\<rparr>
               else (case lpStringToInt64 (fa_s arg) of
                       None \<Rightarrow> arg\<lparr>fa_vencoding := 255\<rparr>
                     | Some l \<Rightarrow> arg\<lparr>fa_vencoding := 1, fa_vll := l\<rparr>)
             else arg)
          in Some (arg, fa_vencoding arg \<noteq> 255 \<and> i = fa_vll arg)
      | LpBuf _ _ \<Rightarrow> None)"

definition lpFind :: "u8 list \<Rightarrow> nat ptr \<Rightarrow> u8 list \<Rightarrow> nat \<Rightarrow> nat ptr res" where
  "lpFind lp p s skip =
     lpFindCbInternal lp p \<lparr>fa_s = s, fa_vencoding = 0, fa_vll = 0\<rparr> (lpFindCmp lp) skip"


subsection \<open>Inserting, replacing and deleting\<close>

datatype lp_where = LP_BEFORE | LP_AFTER | LP_REPLACE

text \<open>The element to insert: a string, an encoded integer, or neither (deletion).\<close>

datatype lp_ele = EleStr "u8 list" | EleInt "u8 list" | EleNone

text \<open>\<open>lpInsert\<close> in three steps: make room for the new bytes (or close the gap), store the element and
  its back length, update the header.\<close>

definition lpInsert_room ::
  "(nat \<Rightarrow> u8) \<Rightarrow> u8 list \<Rightarrow> lp_where \<Rightarrow> nat \<Rightarrow> nat \<Rightarrow> nat \<Rightarrow> nat \<Rightarrow> nat \<Rightarrow> u8 list res" where
  "lpInsert_room junk lp whr poff added_len replaced_len old_bytes new_bytes = do {
     let lp = (if new_bytes > old_bytes \<and> new_bytes > length lp then re_alloc junk new_bytes lp else lp);
     lp \<leftarrow> (if whr = LP_BEFORE
            then mem_move lp (poff + added_len) poff (old_bytes - poff)
            else mem_move lp (poff + added_len) (poff + replaced_len) (old_bytes - poff - replaced_len));
     Some (if new_bytes < old_bytes then re_alloc junk new_bytes lp else lp) }"

definition lpInsert_store :: "u8 list \<Rightarrow> lp_ele \<Rightarrow> lp_enctype \<Rightarrow> nat \<Rightarrow> nat \<Rightarrow> u8 list \<Rightarrow> u8 list res" where
  "lpInsert_store lp ele enctype dst enclen backlen = do {
     lp \<leftarrow> (case enctype of LP_ENCODING_INT e \<Rightarrow> wr_n lp dst e
            | LP_ENCODING_STRING \<Rightarrow> (case ele of EleStr s \<Rightarrow> lpEncodeString lp dst s | _ \<Rightarrow> None));
     wr_n lp (dst + enclen) backlen }"

definition lpInsert_header :: "u8 list \<Rightarrow> lp_where \<Rightarrow> bool \<Rightarrow> nat \<Rightarrow> u8 list res" where
  "lpInsert_header lp whr del new_bytes = do {
     lp \<leftarrow> (if whr \<noteq> LP_REPLACE \<or> del then do {
              n \<leftarrow> lpGetNumElements lp;
              if n \<noteq> LP_HDR_NUMELE_UNKNOWN
              then (if \<not> del then lpSetNumElements lp (int n + 1) else lpSetNumElements lp (int n - 1))
              else Some lp }
            else Some lp);
     lpSetTotalBytes lp (int new_bytes) }"

definition lpInsert ::
  "(nat \<Rightarrow> u8) \<Rightarrow> u8 list \<Rightarrow> lp_ele \<Rightarrow> nat \<Rightarrow> lp_where \<Rightarrow> (u8 list \<times> nat ptr) ptr res" where
  "lpInsert junk lp ele p whr = do {
     let del = (ele = EleNone);
     let whr = (if del then LP_REPLACE else whr);
     (p, whr) \<leftarrow> (if whr = LP_AFTER
                  then do { p \<leftarrow> lpSkip lp p; ASSERT_INTEGRITY lp p; Some (p, LP_BEFORE) }
                  else Some (p, whr));
     let poff = p;
     let (enctype, enclen) =
       (case ele of EleStr s \<Rightarrow> lpEncodeGetType s | EleInt e \<Rightarrow> (LP_ENCODING_INT e, length e)
        | EleNone \<Rightarrow> (LP_ENCODING_STRING, 0));
     let backlen = (if \<not> del then lpEncodeBacklen enclen else []);
     old_bytes \<leftarrow> lpGetTotalBytes lp;
     replaced_len \<leftarrow> (if whr = LP_REPLACE then do {
                         r \<leftarrow> lpCurrentEncodedSizeUnsafe lp p;
                         let r = (r + lpEncodeBacklenBytes r) mod 2 ^ 32;
                         ASSERT_INTEGRITY_LEN lp p r;
                         Some r }
                       else Some 0);
     let new_bytes = old_bytes + enclen + length backlen - replaced_len;
     if new_bytes > 2 ^ 32 - 1 then Some None
     else do {
       lp \<leftarrow> lpInsert_room junk lp whr poff (enclen + length backlen) replaced_len old_bytes new_bytes;
       newp \<leftarrow> (if del then do { b \<leftarrow> rd lp poff; Some (if b = LP_EOF then None else Some poff) }
                else Some (Some poff));
       lp \<leftarrow> (if \<not> del then lpInsert_store lp ele enctype poff enclen backlen else Some lp);
       lp \<leftarrow> lpInsert_header lp whr del new_bytes;
       Some (Some (lp, newp)) } }"

definition lpInsertString :: "(nat \<Rightarrow> u8) \<Rightarrow> u8 list \<Rightarrow> u8 list \<Rightarrow> nat \<Rightarrow> lp_where \<Rightarrow> (u8 list \<times> nat ptr) ptr res" where
  "lpInsertString junk lp s p whr = lpInsert junk lp (EleStr s) p whr"

definition lpInsertInteger :: "(nat \<Rightarrow> u8) \<Rightarrow> u8 list \<Rightarrow> int \<Rightarrow> nat \<Rightarrow> lp_where \<Rightarrow> (u8 list \<times> nat ptr) ptr res" where
  "lpInsertInteger junk lp lval p whr = lpInsert junk lp (EleInt (lpEncodeIntegerGetType lval)) p whr"

definition lpAppend :: "(nat \<Rightarrow> u8) \<Rightarrow> u8 list \<Rightarrow> u8 list \<Rightarrow> u8 list ptr res" where
  "lpAppend junk lp s = do {
     n \<leftarrow> lpGetTotalBytes lp;
     r \<leftarrow> lpInsert junk lp (EleStr s) (n - 1) LP_BEFORE;
     Some (map_option fst r) }"

definition lpAppendInteger :: "(nat \<Rightarrow> u8) \<Rightarrow> u8 list \<Rightarrow> int \<Rightarrow> u8 list ptr res" where
  "lpAppendInteger junk lp lval = do {
     n \<leftarrow> lpGetTotalBytes lp;
     r \<leftarrow> lpInsertInteger junk lp lval (n - 1) LP_BEFORE;
     Some (map_option fst r) }"

definition lpPrepend :: "(nat \<Rightarrow> u8) \<Rightarrow> u8 list \<Rightarrow> u8 list \<Rightarrow> u8 list ptr res" where
  "lpPrepend junk lp s = do {
     p \<leftarrow> lpFirst lp;
     case p of None \<Rightarrow> lpAppend junk lp s
     | Some p \<Rightarrow> do { r \<leftarrow> lpInsert junk lp (EleStr s) p LP_BEFORE; Some (map_option fst r) } }"

definition lpPrependInteger :: "(nat \<Rightarrow> u8) \<Rightarrow> u8 list \<Rightarrow> int \<Rightarrow> u8 list ptr res" where
  "lpPrependInteger junk lp lval = do {
     p \<leftarrow> lpFirst lp;
     case p of None \<Rightarrow> lpAppendInteger junk lp lval
     | Some p \<Rightarrow> do { r \<leftarrow> lpInsertInteger junk lp lval p LP_BEFORE; Some (map_option fst r) } }"

definition lpReplace :: "(nat \<Rightarrow> u8) \<Rightarrow> u8 list \<Rightarrow> nat \<Rightarrow> u8 list \<Rightarrow> (u8 list \<times> nat ptr) ptr res" where
  "lpReplace junk lp p s = lpInsert junk lp (EleStr s) p LP_REPLACE"

definition lpReplaceInteger :: "(nat \<Rightarrow> u8) \<Rightarrow> u8 list \<Rightarrow> nat \<Rightarrow> int \<Rightarrow> (u8 list \<times> nat ptr) ptr res" where
  "lpReplaceInteger junk lp p lval = lpInsertInteger junk lp lval p LP_REPLACE"

definition lpDelete :: "(nat \<Rightarrow> u8) \<Rightarrow> u8 list \<Rightarrow> nat \<Rightarrow> (u8 list \<times> nat ptr) ptr res" where
  "lpDelete junk lp p = lpInsert junk lp EleNone p LP_REPLACE"


subsection \<open>Bulk operations\<close>

datatype listpackEntry = SVal "u8 list" | LVal int

record listpackInsertEntry =
  ie_enctype :: lp_enctype
  ie_enclen :: nat
  ie_backlen :: "u8 list"

definition lpBatch_encode :: "listpackEntry \<Rightarrow> listpackInsertEntry" where
  "lpBatch_encode e =
     (let (enctype, enclen) =
        (case e of SVal s \<Rightarrow> lpEncodeGetType s
         | LVal v \<Rightarrow> (LP_ENCODING_INT (lpEncodeIntegerGetType v), length (lpEncodeIntegerGetType v)))
      in \<lparr>ie_enctype = enctype, ie_enclen = enclen, ie_backlen = lpEncodeBacklen enclen\<rparr>)"

fun lpBatch_write ::
  "u8 list \<Rightarrow> nat \<Rightarrow> nat ptr \<Rightarrow> (listpackEntry \<times> listpackInsertEntry) list \<Rightarrow> (u8 list \<times> nat ptr) res" where
  "lpBatch_write lp dst newp [] = Some (lp, newp)"
| "lpBatch_write lp dst newp ((ent, enc) # es) = do {
     let newp = Some dst;
     lp \<leftarrow> (case ie_enctype enc of LP_ENCODING_INT i \<Rightarrow> wr_n lp dst i
            | LP_ENCODING_STRING \<Rightarrow> (case ent of SVal s \<Rightarrow> lpEncodeString lp dst s | LVal _ \<Rightarrow> None));
     let dst = dst + ie_enclen enc;
     lp \<leftarrow> wr_n lp dst (ie_backlen enc);
     lpBatch_write lp (dst + length (ie_backlen enc)) newp es }"

definition lpBatchInsert ::
  "(nat \<Rightarrow> u8) \<Rightarrow> u8 list \<Rightarrow> nat \<Rightarrow> lp_where \<Rightarrow> listpackEntry list \<Rightarrow> (u8 list \<times> nat ptr) ptr res" where
  "lpBatchInsert junk lp p whr entries = do {
     chk (whr = LP_BEFORE \<or> whr = LP_AFTER);
     chk (length entries > 0);
     p \<leftarrow> (if whr = LP_AFTER then do { p \<leftarrow> lpSkip lp p; ASSERT_INTEGRITY lp p; Some p } else Some p);
     let enc = map lpBatch_encode entries;
     let addedlen = sum_list (map (\<lambda>e. ie_enclen e + length (ie_backlen e)) enc);
     old_bytes \<leftarrow> lpGetTotalBytes lp;
     let new_bytes = old_bytes + addedlen;
     if new_bytes > 2 ^ 32 - 1 then Some None
     else do {
       let poff = p;
       let lp = (if new_bytes > old_bytes \<and> new_bytes > length lp then re_alloc junk new_bytes lp else lp);
       lp \<leftarrow> mem_move lp (poff + addedlen) poff (old_bytes - poff);
       (lp, newp) \<leftarrow> lpBatch_write lp poff None (zip entries enc);
       n \<leftarrow> lpGetNumElements lp;
       lp \<leftarrow> (if n \<noteq> LP_HDR_NUMELE_UNKNOWN then
                if int (length entries) > int LP_HDR_NUMELE_UNKNOWN - int n
                then lpSetNumElements lp (int LP_HDR_NUMELE_UNKNOWN)
                else lpSetNumElements lp (int (n + length entries))
              else Some lp);
       lp \<leftarrow> lpSetTotalBytes lp (int new_bytes);
       Some (Some (lp, newp)) } }"

definition lpBatchAppend :: "(nat \<Rightarrow> u8) \<Rightarrow> u8 list \<Rightarrow> listpackEntry list \<Rightarrow> u8 list ptr res" where
  "lpBatchAppend junk lp entries = do {
     n \<leftarrow> lpGetTotalBytes lp;
     r \<leftarrow> lpBatchInsert junk lp (n - 1) LP_BEFORE entries;
     Some (map_option fst r) }"

fun lpDeleteRange_loop :: "u8 list \<Rightarrow> nat \<Rightarrow> nat \<Rightarrow> nat \<Rightarrow> nat \<Rightarrow> (nat \<times> nat) res" where
  "lpDeleteRange_loop lp bytes tail deleted 0 = Some (tail, deleted)"
| "lpDeleteRange_loop lp bytes tail deleted (Suc num) = do {
     let deleted = deleted + 1;
     tail \<leftarrow> lpSkip lp tail;
     b \<leftarrow> rd lp tail;
     if b = LP_EOF then Some (tail, deleted)
     else do { lpAssertValidEntry lp bytes tail; lpDeleteRange_loop lp bytes tail deleted num } }"

definition lpDeleteRangeWithEntry :: "(nat \<Rightarrow> u8) \<Rightarrow> u8 list \<Rightarrow> nat \<Rightarrow> nat \<Rightarrow> (u8 list \<times> nat ptr) res" where
  "lpDeleteRangeWithEntry junk lp p num = do {
     bytes \<leftarrow> lpBytes lp;
     let eofptr = bytes - 1;
     let first = p;
     if num = 0 then Some (lp, Some p)
     else do {
       (tail, deleted) \<leftarrow> lpDeleteRange_loop lp bytes p 0 num;
       let poff = first;
       chk (tail \<le> eofptr);
       lp \<leftarrow> mem_move lp first tail (eofptr - tail + 1);
       lp \<leftarrow> lpSetTotalBytes lp (int bytes - (int tail - int first));
       numele \<leftarrow> lpGetNumElements lp;
       lp \<leftarrow> (if numele \<noteq> LP_HDR_NUMELE_UNKNOWN then lpSetNumElements lp (int numele - int deleted) else Some lp);
       lp \<leftarrow> lpShrinkToFit junk lp;
       b \<leftarrow> rd lp poff;
       Some (lp, if b = LP_EOF then None else Some poff) } }"

definition lpDeleteRange :: "(nat \<Rightarrow> u8) \<Rightarrow> u8 list \<Rightarrow> int \<Rightarrow> nat \<Rightarrow> u8 list res" where
  "lpDeleteRange junk lp index num = do {
     numele \<leftarrow> lpGetNumElements lp;
     if num = 0 then Some lp
     else do {
       p \<leftarrow> lpSeek lp index;
       case p of None \<Rightarrow> Some lp
       | Some p \<Rightarrow>
           let index = (if numele \<noteq> LP_HDR_NUMELE_UNKNOWN \<and> index < 0 then int numele + index else index) in
           if numele \<noteq> LP_HDR_NUMELE_UNKNOWN \<and> (int numele - index) mod 2 ^ 64 \<le> int num
           then do {
             lp \<leftarrow> wr lp p LP_EOF;
             lp \<leftarrow> lpSetTotalBytes lp (int p + 1);
             lp \<leftarrow> lpSetNumElements lp index;
             lpShrinkToFit junk lp }
           else do { (lp, _) \<leftarrow> lpDeleteRangeWithEntry junk lp p num; Some lp } } }"

fun lpBatchDelete_loop :: "u8 list \<Rightarrow> nat \<Rightarrow> nat \<Rightarrow> nat list \<Rightarrow> (u8 list \<times> nat) res" where
  "lpBatchDelete_loop lp lp_end dst [] = Some (lp, dst)"
| "lpBatchDelete_loop lp lp_end dst (skip # ps) = do {
     b \<leftarrow> rd lp skip;
     chk (b \<noteq> LP_EOF);
     keep_start \<leftarrow> lpSkip lp skip;
     let keep_end = (case ps of q # _ \<Rightarrow> q | [] \<Rightarrow> lp_end);
     if ps \<noteq> [] \<and> keep_start = keep_end then lpBatchDelete_loop lp lp_end dst ps
     else do {
       chk (keep_end > keep_start);
       lp \<leftarrow> mem_move lp dst keep_start (keep_end - keep_start);
       lpBatchDelete_loop lp lp_end (dst + (keep_end - keep_start)) ps } }"

definition lpBatchDelete :: "(nat \<Rightarrow> u8) \<Rightarrow> u8 list \<Rightarrow> nat list \<Rightarrow> u8 list res" where
  "lpBatchDelete junk lp ps =
     (case ps of [] \<Rightarrow> Some lp
      | dst # _ \<Rightarrow> do {
          total_bytes \<leftarrow> lpGetTotalBytes lp;
          let lp_end = total_bytes;
          b \<leftarrow> rd_back lp lp_end 1;
          chk (b = LP_EOF);
          (lp, dst) \<leftarrow> lpBatchDelete_loop lp lp_end dst ps;
          let total_bytes = total_bytes - (lp_end - dst);
          b \<leftarrow> rd_back lp total_bytes 1;
          chk (b = LP_EOF);
          lp \<leftarrow> lpSetTotalBytes lp (int total_bytes);
          numele \<leftarrow> lpGetNumElements lp;
          lp \<leftarrow> (if numele \<noteq> LP_HDR_NUMELE_UNKNOWN
                 then lpSetNumElements lp (int numele - int (length ps)) else Some lp);
          lpShrinkToFit junk lp })"

text \<open>The result of \<open>lpMerge\<close>: NULL, or the merged listpack and whether it was built in the first
  argument (the other one is freed). \<open>same\<close> tells whether both arguments are the same pointer.\<close>

definition lpMerge :: "(nat \<Rightarrow> u8) \<Rightarrow> bool \<Rightarrow> u8 list ptr \<Rightarrow> u8 list ptr \<Rightarrow> (u8 list \<times> bool) ptr res" where
  "lpMerge junk same first second =
     (case (first, second) of
        (Some first, Some second) \<Rightarrow>
          if same then Some None
          else do {
            first_bytes \<leftarrow> lpBytes first;
            (first_len, first) \<leftarrow> lpLength first;
            second_bytes \<leftarrow> lpBytes second;
            (second_len, second) \<leftarrow> lpLength second;
            let append = (first_bytes \<ge> second_bytes);
            let (target, target_bytes, source, source_bytes) =
              (if append then (first, first_bytes, second, second_bytes)
               else (second, second_bytes, first, first_bytes));
            let lpbytes = first_bytes + second_bytes - LP_HDR_SIZE - 1;
            chk (lpbytes < 2 ^ 32 - 1);
            let lplength = first_len + second_len;
            let lplength = (if lplength < 65535 then lplength else 65535);
            let target = re_alloc junk lpbytes target;
            target \<leftarrow>
              (if append then do {
                 body \<leftarrow> rd_n source LP_HDR_SIZE (source_bytes - LP_HDR_SIZE);
                 wr_n target (target_bytes - 1) body }
               else do {
                 target \<leftarrow> mem_move target (source_bytes - 1) LP_HDR_SIZE (target_bytes - LP_HDR_SIZE);
                 body \<leftarrow> rd_n source 0 (source_bytes - 1);
                 wr_n target 0 body });
            target \<leftarrow> lpSetNumElements target (int lplength);
            target \<leftarrow> lpSetTotalBytes target (int lpbytes);
            Some (Some (target, append)) }
      | _ \<Rightarrow> Some None)"

definition lpDup :: "(nat \<Rightarrow> u8) \<Rightarrow> u8 list \<Rightarrow> u8 list res" where
  "lpDup junk lp = do { n \<leftarrow> lpBytes lp; bs \<leftarrow> rd_n lp 0 n; wr_n (re_alloc junk n []) 0 bs }"

definition lpEntrySizeInteger :: "int \<Rightarrow> nat" where
  "lpEntrySizeInteger lval =
     (let enclen = length (lpEncodeIntegerGetType lval) in enclen + lpEncodeBacklenBytes enclen)"

definition lpEstimateBytesRepeatedInteger :: "int \<Rightarrow> nat \<Rightarrow> nat" where
  "lpEstimateBytesRepeatedInteger lval rep = LP_HDR_SIZE + lpEntrySizeInteger lval * rep + 1"

end
