(* ===== verification/Listpack_Repr.thy ===== *)
theory Listpack_Repr
  imports Listpack
begin

unbundle bit_operations_syntax

text \<open>
  What the bytes of a listpack mean. \<open>lp_repr lp bs\<close> holds when the block \<open>lp\<close> is a header with the right total
  and an exact or unknown element count, the encoded elements \<open>bs\<close> each followed by its back length, the
  terminator, and possibly unused space. The navigation functions are shown to step through the
  offsets \<open>lp_off (take i bs)\<close> of the elements.
\<close>

declare rd_eq_Some [simp del]

subsection \<open>Bytes\<close>

lemma unat_and_mask: "unat ((b :: u8) AND mask k) = unat b mod 2 ^ k"
  unfolding take_bit_eq_mask [symmetric] unsigned_take_bit_eq by (simp add: take_bit_eq_mod)

lemma unat_and_not_mask: "unat ((b :: u8) AND NOT (mask k)) = unat b div 2 ^ k * 2 ^ k"
proof -
  have or: "(b AND NOT (mask k)) OR (b AND mask k) = b" by (rule bit_eqI) (auto simp: bit_simps)
  have an: "(b AND NOT (mask k)) AND (b AND mask k) = 0" by (rule bit_eqI) (auto simp: bit_simps)
  have "(b AND NOT (mask k)) + (b AND mask k) = b"
    using word_plus_and_or [of "b AND NOT (mask k)" "b AND mask k"] unfolding or an by simp
  then have "b AND NOT (mask k) = b - (b AND mask k)" by (metis add_diff_cancel_right')
  moreover have "b AND mask k \<le> b" by (simp add: word_le_nat_alt unat_and_mask)
  ultimately show ?thesis by (simp add: unat_sub unat_and_mask minus_mod_eq_div_mult)
qed

lemma masks_u8:
  "(0x80 :: u8) = NOT (mask 7)" "(0xC0 :: u8) = NOT (mask 6)" "(0xE0 :: u8) = NOT (mask 5)" "(0xF0 :: u8) = NOT (mask 4)"
  "(0x3F :: u8) = mask 6" "(0x1F :: u8) = mask 5" "(0xF :: u8) = mask 4" "(0x7F :: u8) = mask 7"
  by (simp_all add: mask_eq_exp_minus_1)

lemma u8_eq_iff: "(b :: u8) = c \<longleftrightarrow> unat b = unat c"
  by (simp add: word_unat_eq_iff)

lemma enc_class:
  "LP_ENCODING_IS_7BIT_UINT b \<longleftrightarrow> unat b < 128"
  "LP_ENCODING_IS_6BIT_STR b \<longleftrightarrow> 128 \<le> unat b \<and> unat b < 192"
  "LP_ENCODING_IS_13BIT_INT b \<longleftrightarrow> 192 \<le> unat b \<and> unat b < 224"
  "LP_ENCODING_IS_12BIT_STR b \<longleftrightarrow> 224 \<le> unat b \<and> unat b < 240"
  "LP_ENCODING_IS_32BIT_STR b \<longleftrightarrow> unat b = 240"
  "LP_ENCODING_IS_16BIT_INT b \<longleftrightarrow> unat b = 241"
  "LP_ENCODING_IS_24BIT_INT b \<longleftrightarrow> unat b = 242"
  "LP_ENCODING_IS_32BIT_INT b \<longleftrightarrow> unat b = 243"
  "LP_ENCODING_IS_64BIT_INT b \<longleftrightarrow> unat b = 244"
proof -
  obtain n where n: "unat b = n" by blast
  have ff: "b AND 0xFF = b" using unat_and_mask [of b 8] unat_u8_less [of b] by (simp add: u8_eq_iff mask_eq_exp_minus_1 unsigned_minus_1_eq_mask)
  show "LP_ENCODING_IS_7BIT_UINT b \<longleftrightarrow> unat b < 128"
    unfolding LP_ENCODING_IS_7BIT_UINT_def u8_eq_iff masks_u8(1) unat_and_not_mask n by auto
  show "LP_ENCODING_IS_6BIT_STR b \<longleftrightarrow> 128 \<le> unat b \<and> unat b < 192"
    unfolding LP_ENCODING_IS_6BIT_STR_def u8_eq_iff masks_u8(2) unat_and_not_mask n by auto
  show "LP_ENCODING_IS_13BIT_INT b \<longleftrightarrow> 192 \<le> unat b \<and> unat b < 224"
    unfolding LP_ENCODING_IS_13BIT_INT_def u8_eq_iff masks_u8(3) unat_and_not_mask n by auto
  show "LP_ENCODING_IS_12BIT_STR b \<longleftrightarrow> 224 \<le> unat b \<and> unat b < 240"
    unfolding LP_ENCODING_IS_12BIT_STR_def u8_eq_iff masks_u8(4) unat_and_not_mask n by auto
  show "LP_ENCODING_IS_32BIT_STR b \<longleftrightarrow> unat b = 240" "LP_ENCODING_IS_16BIT_INT b \<longleftrightarrow> unat b = 241"
    "LP_ENCODING_IS_24BIT_INT b \<longleftrightarrow> unat b = 242" "LP_ENCODING_IS_32BIT_INT b \<longleftrightarrow> unat b = 243"
    "LP_ENCODING_IS_64BIT_INT b \<longleftrightarrow> unat b = 244"
    unfolding LP_ENCODING_IS_32BIT_STR_def LP_ENCODING_IS_16BIT_INT_def LP_ENCODING_IS_24BIT_INT_def
      LP_ENCODING_IS_32BIT_INT_def LP_ENCODING_IS_64BIT_INT_def ff u8_eq_iff by simp_all
qed


subsection \<open>Access in context\<close>

lemma rd_ctx: "rd xs i = Some v \<Longrightarrow> rd (A @ xs @ C) (length A + i) = Some v"
  by (auto simp: rd_eq_Some nth_append)

lemma rd_n_ctx: "rd_n xs i n = Some v \<Longrightarrow> rd_n (A @ xs @ C) (length A + i) n = Some v"
  by (auto simp: rd_n_eq_Some nth_append)

lemma rd_at [simp]: "rd (A @ x # C) (length A) = Some x"
  by (simp add: rd_eq_Some nth_append)

lemma rd_n_at: "off = length A \<Longrightarrow> n = length xs \<Longrightarrow> rd_n (A @ xs @ C) off n = Some xs"
  by (simp add: rd_n_def)

lemma wr_n_at: "off = length A \<Longrightarrow> length ys = length xs \<Longrightarrow> wr_n (A @ xs @ C) off ys = Some (A @ ys @ C)"
  by (simp add: wr_n_def)

lemma str_len_ctx:
  "LP_ENCODING_6BIT_STR_LEN b i = Some n \<Longrightarrow> LP_ENCODING_6BIT_STR_LEN (A @ b @ C) (length A + i) = Some n"
  "LP_ENCODING_12BIT_STR_LEN b i = Some n \<Longrightarrow> LP_ENCODING_12BIT_STR_LEN (A @ b @ C) (length A + i) = Some n"
  "LP_ENCODING_32BIT_STR_LEN b i = Some n \<Longrightarrow> LP_ENCODING_32BIT_STR_LEN (A @ b @ C) (length A + i) = Some n"
  using rd_ctx [of b i _ A C] rd_ctx [of b "i + 1" _ A C] rd_n_ctx [of b "i + 1" 4 _ A C]
  by (auto simp: LP_ENCODING_6BIT_STR_LEN_def LP_ENCODING_12BIT_STR_LEN_def LP_ENCODING_32BIT_STR_LEN_def
      bind_eq_Some_conv add.assoc simp del: rd_eq_Some)

lemma lpCurrentEncodedSizeUnsafe_ctx:
  assumes "lpCurrentEncodedSizeUnsafe b i = Some n"
  shows "lpCurrentEncodedSizeUnsafe (A @ b @ C) (length A + i) = Some n"
proof -
  obtain x where x: "rd b i = Some x" using assms by (auto simp: lpCurrentEncodedSizeUnsafe_def bind_eq_Some_conv)
  note x' = rd_ctx [OF x, of A C]
  consider "LP_ENCODING_IS_6BIT_STR x" | "LP_ENCODING_IS_12BIT_STR x" | "LP_ENCODING_IS_32BIT_STR x"
    | "\<not> LP_ENCODING_IS_6BIT_STR x" "\<not> LP_ENCODING_IS_12BIT_STR x" "\<not> LP_ENCODING_IS_32BIT_STR x"
    by blast
  then show ?thesis
    by cases (use assms x x' str_len_ctx [of b i _ A C] in \<open>auto simp: lpCurrentEncodedSizeUnsafe_def enc_class bind_eq_Some_conv\<close>)
qed

subsection \<open>Back lengths\<close>

lemma length_lpEncodeBacklen: "length (lpEncodeBacklen l) = lpEncodeBacklenBytes l"
  by (simp add: lpEncodeBacklen_def lpEncodeBacklenBytes_def)

lemma unat_of_nat_u8: "n < 256 \<Longrightarrow> unat (of_nat n :: u8) = n"
  by (simp add: unat_of_nat)

lemma and_128: "(b :: u8) AND 128 = 0 \<longleftrightarrow> unat b < 128"
  using enc_class(1) [of b] by (simp add: LP_ENCODING_IS_7BIT_UINT_def)

lemma and_127: "unat ((b :: u8) AND 127) = unat b mod 128"
  using unat_and_mask [of b 7] by (simp add: mask_eq_exp_minus_1)

lemma rd_off: "i < length xs \<Longrightarrow> rd (A @ xs @ C) (length A + i) = Some (xs ! i)"
  by (simp add: rd_eq_Some nth_append)

lemma rd_back_off: "k \<le> i \<Longrightarrow> i < length xs \<Longrightarrow> rd_back (A @ xs @ C) (length A + i) k = Some (xs ! (i - k))"
  using rd_off [of "i - k" xs A C] by (simp add: rd_back_def)

lemma lpDecodeBacklen_digits:
  assumes "y0 < 128" "y1 < 128" "y2 < 128" "y3 < 128" "y4 < 128"
  shows
    "lpDecodeBacklen (A @ [of_nat y0] @ C) (length A + 0) = Some y0"
    "lpDecodeBacklen (A @ [of_nat y1, of_nat (y0 + 128)] @ C) (length A + 1) = Some (y0 + y1 * 2 ^ 7)"
    "lpDecodeBacklen (A @ [of_nat y2, of_nat (y1 + 128), of_nat (y0 + 128)] @ C) (length A + 2) =
       Some (y0 + y1 * 2 ^ 7 + y2 * 2 ^ 14)"
    "lpDecodeBacklen (A @ [of_nat y3, of_nat (y2 + 128), of_nat (y1 + 128), of_nat (y0 + 128)] @ C) (length A + 3) =
       Some (y0 + y1 * 2 ^ 7 + y2 * 2 ^ 14 + y3 * 2 ^ 21)"
    "lpDecodeBacklen (A @ [of_nat y4, of_nat (y3 + 128), of_nat (y2 + 128), of_nat (y1 + 128), of_nat (y0 + 128)] @ C)
       (length A + 4) = Some (y0 + y1 * 2 ^ 7 + y2 * 2 ^ 14 + y3 * 2 ^ 21 + y4 * 2 ^ 28)"
proof -
  have u: "x < 128 \<Longrightarrow> unat (of_nat x :: u8) = x" "x < 128 \<Longrightarrow> unat (of_nat (x + 128) :: u8) = x + 128" for x :: nat
    by (simp_all add: unat_of_nat_u8 del: of_nat_add)
  note d = lpDecodeBacklen_def rd_off rd_back_off and_128 and_127 u Let_def
  show
    "lpDecodeBacklen (A @ [of_nat y0] @ C) (length A + 0) = Some y0"
    "lpDecodeBacklen (A @ [of_nat y1, of_nat (y0 + 128)] @ C) (length A + 1) = Some (y0 + y1 * 2 ^ 7)"
    "lpDecodeBacklen (A @ [of_nat y2, of_nat (y1 + 128), of_nat (y0 + 128)] @ C) (length A + 2) =
       Some (y0 + y1 * 2 ^ 7 + y2 * 2 ^ 14)"
    "lpDecodeBacklen (A @ [of_nat y3, of_nat (y2 + 128), of_nat (y1 + 128), of_nat (y0 + 128)] @ C) (length A + 3) =
       Some (y0 + y1 * 2 ^ 7 + y2 * 2 ^ 14 + y3 * 2 ^ 21)"
    "lpDecodeBacklen (A @ [of_nat y4, of_nat (y3 + 128), of_nat (y2 + 128), of_nat (y1 + 128), of_nat (y0 + 128)] @ C)
       (length A + 4) = Some (y0 + y1 * 2 ^ 7 + y2 * 2 ^ 14 + y3 * 2 ^ 21 + y4 * 2 ^ 28)"
    using assms unfolding lpDecodeBacklen_def
    by (simp_all only: d length_Cons list.size nth_Cons_0 nth_Cons_Suc Option.bind.bind_lunit,
        simp_all add: u del: of_nat_add append.simps)
qed


lemma lpDecodeBacklen_encode:
  assumes "l < 2 ^ 35"
  shows "lpDecodeBacklen (A @ lpEncodeBacklen l @ C) (length A + (lpEncodeBacklenBytes l - 1)) = Some l"
proof -
  define a1 a2 a3 a4 where "a1 = l div 128" and "a2 = a1 div 128" and "a3 = a2 div 128" and "a4 = a3 div 128"
  have d: "l div 2 ^ 7 = a1" "l div 2 ^ 14 = a2" "l div 2 ^ 21 = a3" "l div 2 ^ 28 = a4"
    by (simp_all add: a1_def a2_def a3_def a4_def div_mult2_eq [symmetric])
  have e: "l mod 128 + a1 * 128 = l" "a1 mod 128 + a2 * 128 = a1" "a2 mod 128 + a3 * 128 = a2" "a3 mod 128 + a4 * 128 = a3"
    by (simp_all add: a1_def a2_def a3_def a4_def)
  consider "l \<le> 127" | "127 < l" "l < 16383" | "127 < l" "16383 \<le> l" "l < 2097151"
    | "127 < l" "16383 \<le> l" "2097151 \<le> l" "l < 268435455" | "127 < l" "16383 \<le> l" "2097151 \<le> l" "268435455 \<le> l"
    by linarith
  then show ?thesis
  proof cases
    case 1
    then show ?thesis using lpDecodeBacklen_digits(1) [of l 0 0 0 0 A C]
      by (simp add: lpEncodeBacklen_def lpEncodeBacklenBytes_def)
  next
    case 2
    then have "a1 < 128" by (simp add: a1_def)
    with 2 lpDecodeBacklen_digits(2) [of "l mod 128" a1 0 0 0 A C] show ?thesis
      unfolding lpEncodeBacklen_def lpEncodeBacklenBytes_def d by (simp add: e(1) del: of_nat_add)
  next
    case 3
    then have "a2 < 128" by (simp add: a1_def a2_def)
    moreover have "l mod 128 + a1 mod 128 * 2 ^ 7 + a2 * 2 ^ 14 = l" using e by simp
    ultimately show ?thesis using 3 lpDecodeBacklen_digits(3) [of "l mod 128" "a1 mod 128" a2 0 0 A C]
      unfolding lpEncodeBacklen_def lpEncodeBacklenBytes_def d by (simp del: of_nat_add)
  next
    case 4
    then have "a3 < 128" by (simp add: a1_def a2_def a3_def)
    moreover have "l mod 128 + a1 mod 128 * 2 ^ 7 + a2 mod 128 * 2 ^ 14 + a3 * 2 ^ 21 = l" using e by simp
    ultimately show ?thesis using 4 lpDecodeBacklen_digits(4) [of "l mod 128" "a1 mod 128" "a2 mod 128" a3 0 A C]
      unfolding lpEncodeBacklen_def lpEncodeBacklenBytes_def d by (simp del: of_nat_add)
  next
    case 5
    have "a4 < 128" using assms by (simp add: a1_def a2_def a3_def a4_def)
    moreover have "l mod 128 + a1 mod 128 * 2 ^ 7 + a2 mod 128 * 2 ^ 14 + a3 mod 128 * 2 ^ 21 + a4 * 2 ^ 28 = l" using e by simp
    ultimately show ?thesis using 5 lpDecodeBacklen_digits(5) [of "l mod 128" "a1 mod 128" "a2 mod 128" "a3 mod 128" a4 A C]
      unfolding lpEncodeBacklen_def lpEncodeBacklenBytes_def d by (simp del: of_nat_add)
  qed
qed


subsection \<open>Represented lists\<close>

text \<open>A listpack represents the list \<open>bs\<close> of its encoded elements: header, the elements each followed
  by its back length, the end marker, and unused bytes of the allocation.\<close>

definition lp_elem :: "u8 list \<Rightarrow> bool" where
  "lp_elem b \<longleftrightarrow> b \<noteq> [] \<and> hd b \<noteq> LP_EOF \<and> lpCurrentEncodedSizeUnsafe b 0 = Some (length b)"

definition lp_block :: "u8 list \<Rightarrow> u8 list" where
  "lp_block b = b @ lpEncodeBacklen (length b)"

definition lp_body :: "u8 list list \<Rightarrow> u8 list" where
  "lp_body bs = concat (map lp_block bs)"

definition lp_off :: "u8 list list \<Rightarrow> nat" where
  "lp_off bs = LP_HDR_SIZE + length (lp_body bs)"

definition lp_mk :: "nat \<Rightarrow> u8 list list \<Rightarrow> u8 list \<Rightarrow> u8 list" where
  "lp_mk num bs pad = le_bytes 4 (int (lp_off bs + 1)) @ le_bytes 2 (int num) @ lp_body bs @ LP_EOF # pad"

definition lp_num_ok :: "nat \<Rightarrow> u8 list list \<Rightarrow> bool" where
  "lp_num_ok num bs \<longleftrightarrow> num = LP_HDR_NUMELE_UNKNOWN \<or> num = length bs \<and> num < LP_HDR_NUMELE_UNKNOWN"

definition lp_repr :: "u8 list \<Rightarrow> u8 list list \<Rightarrow> bool" where
  "lp_repr lp bs \<longleftrightarrow> (\<exists>num pad. lp = lp_mk num bs pad \<and> lp_num_ok num bs) \<and>
     lp_off bs + 1 < 2 ^ 32 \<and> (\<forall>b \<in> set bs. lp_elem b)"

lemma lp_body_simps [simp]: "lp_body [] = []" "lp_body (b # bs) = lp_block b @ lp_body bs"
  "lp_body (xs @ ys) = lp_body xs @ lp_body ys"
  by (simp_all add: lp_body_def)

lemma lp_off_simps [simp]: "lp_off [] = 6" "lp_off (xs @ [b]) = lp_off xs + length (lp_block b)"
  by (simp_all add: lp_off_def)

lemma lp_off_append: "lp_off (xs @ ys) = lp_off xs + length (lp_body ys)"
  by (simp add: lp_off_def)

lemma length_lp_block: "length (lp_block b) = length b + lpEncodeBacklenBytes (length b)"
  by (simp add: lp_block_def length_lpEncodeBacklen)

lemma length_lp_mk: "length (lp_mk num bs pad) = lp_off bs + 1 + length pad"
  by (simp add: lp_mk_def lp_off_def)

lemma lp_mk_total: "lp_off bs + 1 < 2 ^ 32 \<Longrightarrow> lpGetTotalBytes (lp_mk num bs pad) = Some (lp_off bs + 1)"
  unfolding lpGetTotalBytes_def lp_mk_def
  using rd_n_at [of 0 "[]" 4 "le_bytes 4 (int (lp_off bs + 1))"] by (simp add: le_uint_le_bytes)

lemma lp_mk_num: "num < 65536 \<Longrightarrow> lpGetNumElements (lp_mk num bs pad) = Some num"
  unfolding lpGetNumElements_def lp_mk_def
  using rd_n_at [of 4 "le_bytes 4 (int (lp_off bs + 1))" 2 "le_bytes 2 (int num)"] by (simp add: le_uint_le_bytes)

lemma lp_mk_split:
  obtains H T where "lp_mk num (xs @ ys) pad = H @ T" "length H = lp_off xs" "T = lp_body ys @ LP_EOF # pad"
  by (rule that [of "le_bytes 4 (int (lp_off (xs @ ys) + 1)) @ le_bytes 2 (int num) @ lp_body xs"])
    (simp_all add: lp_mk_def lp_off_def)

lemma lp_mk_eof: "rd (lp_mk num bs pad) (lp_off bs) = Some LP_EOF"
proof -
  obtain H T where "lp_mk num (bs @ []) pad = H @ T" "length H = lp_off bs" "T = lp_body [] @ LP_EOF # pad"
    by (rule lp_mk_split)
  then show ?thesis using rd_at [of H LP_EOF pad] by simp
qed

lemma lp_mk_at:
  obtains H C where "lp_mk num (xs @ b # ys) pad = H @ b @ C" "length H = lp_off xs"
    "C = lpEncodeBacklen (length b) @ lp_body ys @ LP_EOF # pad"
proof -
  obtain H T where H: "lp_mk num (xs @ b # ys) pad = H @ T" "length H = lp_off xs" "T = lp_body (b # ys) @ LP_EOF # pad"
    by (rule lp_mk_split)
  show thesis by (rule that [of H]) (use H in \<open>simp_all add: lp_block_def\<close>)
qed

lemma lp_mk_size: "lp_elem b \<Longrightarrow> lpCurrentEncodedSizeUnsafe (lp_mk num (xs @ b # ys) pad) (lp_off xs) = Some (length b)"
proof -
  assume b: "lp_elem b"
  obtain H C where H: "lp_mk num (xs @ b # ys) pad = H @ b @ C" "length H = lp_off xs" by (rule lp_mk_at)
  show ?thesis using lpCurrentEncodedSizeUnsafe_ctx [of b 0 "length b" H C] b H by (simp add: lp_elem_def)
qed

lemma lp_mk_skip: "lp_elem b \<Longrightarrow> lpSkip (lp_mk num (xs @ b # ys) pad) (lp_off xs) = Some (lp_off (xs @ [b]))"
  by (simp add: lpSkip_def lp_mk_size length_lp_block)

lemma lp_mk_rd: "lp_elem b \<Longrightarrow> rd (lp_mk num (xs @ b # ys) pad) (lp_off xs) = Some (hd b)"
proof -
  assume b: "lp_elem b"
  obtain H C where H: "lp_mk num (xs @ b # ys) pad = H @ b @ C" "length H = lp_off xs" by (rule lp_mk_at)
  show ?thesis using rd_off [of 0 b H C] b H by (simp add: lp_elem_def hd_conv_nth)
qed

lemma lp_mk_rd_next:
  assumes "\<forall>b \<in> set bs. lp_elem b"
  shows "rd (lp_mk num (xs @ bs) pad) (lp_off xs) = Some (case bs of [] \<Rightarrow> LP_EOF | b # _ \<Rightarrow> hd b)"
  using assms lp_mk_eof [of num xs pad] by (cases bs) (simp_all add: lp_mk_rd)

lemma lp_mk_backlen:
  assumes "length b < 2 ^ 35"
  shows "lpDecodeBacklen (lp_mk num (xs @ b # ys) pad) (lp_off (xs @ [b]) - 1) = Some (length b)"
proof -
  obtain H C where H: "lp_mk num (xs @ b # ys) pad = H @ b @ C" "length H = lp_off xs"
    "C = lpEncodeBacklen (length b) @ lp_body ys @ LP_EOF # pad"
    by (rule lp_mk_at)
  have "lp_off (xs @ [b]) - 1 = length (H @ b) + (lpEncodeBacklenBytes (length b) - 1)"
    using H(2) by (simp add: length_lp_block lpEncodeBacklenBytes_def)
  then show ?thesis using lpDecodeBacklen_encode [OF assms, of "H @ b" "lp_body ys @ LP_EOF # pad"] H by simp
qed

lemma lp_elem_size_bytes:
  assumes "lp_elem b"
  shows "0 < lpCurrentEncodedSizeBytes (hd b) \<and> lpCurrentEncodedSizeBytes (hd b) \<le> length b"
proof -
  obtain x c where b: "b = x # c" "x \<noteq> 0xFF" using assms by (cases b) (auto simp: lp_elem_def)
  have "lpCurrentEncodedSizeUnsafe (x # c) 0 = Some (length (x # c))" using assms b by (simp add: lp_elem_def)
  then have sz: "lpCurrentEncodedSizeUnsafe (x # c) 0 = Some (Suc (length c))" by simp
  have ne: "lpCurrentEncodedSizeBytes x \<noteq> 0"
  proof
    assume "lpCurrentEncodedSizeBytes x = 0"
    then have "lpCurrentEncodedSizeUnsafe (x # c) 0 = Some 0"
      by (simp add: lpCurrentEncodedSizeBytes_def lpCurrentEncodedSizeUnsafe_def rd_def split: if_split_asm)
    with sz show False by simp
  qed
  consider "LP_ENCODING_IS_12BIT_STR x" | "LP_ENCODING_IS_32BIT_STR x"
    | "\<not> LP_ENCODING_IS_12BIT_STR x" "\<not> LP_ENCODING_IS_32BIT_STR x" by blast
  then have "lpCurrentEncodedSizeBytes x \<le> Suc (length c)"
  proof cases
    case 1
    then have "rd (x # c) 1 \<noteq> None" using sz
      by (simp add: lpCurrentEncodedSizeUnsafe_def enc_class LP_ENCODING_12BIT_STR_LEN_def bind_eq_Some_conv rd_def split: if_splits)
    then show ?thesis using 1 by (simp add: lpCurrentEncodedSizeBytes_def enc_class rd_def Suc_le_eq split: if_splits)
  next
    case 2
    then have "rd_n (x # c) 1 4 \<noteq> None" using sz
      by (auto simp: lpCurrentEncodedSizeUnsafe_def enc_class LP_ENCODING_32BIT_STR_LEN_def bind_eq_Some_conv rd_def)
    then show ?thesis using 2 by (simp add: lpCurrentEncodedSizeBytes_def enc_class rd_n_def split: if_splits)
  next
    case 3
    then show ?thesis by (simp add: lpCurrentEncodedSizeBytes_def)
  qed
  with ne show ?thesis by (simp add: b(1))
qed

lemma lp_mk_validate:
  assumes "lp_elem b" "lp_off (xs @ b # ys) + 1 < 2 ^ 32"
  shows "lpValidateNext (lp_mk num (xs @ b # ys) pad) (Some (lp_off xs)) (lp_off (xs @ b # ys) + 1)
    = Some (True, Some (lp_off (xs @ [b])))"
proof -
  have o: "lp_off (xs @ b # ys) = lp_off xs + length b + lpEncodeBacklenBytes (length b) + length (lp_body ys)"
    by (simp add: lp_off_append length_lp_block)
  have k: "0 < lpEncodeBacklenBytes n" "lpEncodeBacklenBytes n \<le> 5" for n by (auto simp: lpEncodeBacklenBytes_def)
  have "lpCurrentEncodedSizeBytes (hd b) \<noteq> 0" "\<not> OUT_OF_RANGE (lp_off (xs @ b # ys) + 1) (lp_off xs)"
    "\<not> OUT_OF_RANGE (lp_off (xs @ b # ys) + 1) (lp_off xs + lpCurrentEncodedSizeBytes (hd b))"
    "\<not> OUT_OF_RANGE (lp_off (xs @ b # ys) + 1) (lp_off xs + (length b + lpEncodeBacklenBytes (length b)))"
    using lp_elem_size_bytes [OF assms(1)] unfolding OUT_OF_RANGE_def o by (auto simp: lp_off_def)
  moreover have "hd b \<noteq> LP_EOF" using assms(1) by (simp add: lp_elem_def)
  moreover have "length b < 2 ^ 32" using assms(2) o by simp
  moreover have "lpDecodeBacklen (lp_mk num (xs @ b # ys) pad) (lp_off xs + (length b + lpEncodeBacklenBytes (length b)) - 1) = Some (length b)"
    using lp_mk_backlen [of b num xs ys pad] calculation(6) by (simp add: length_lp_block)
  ultimately show ?thesis
    unfolding lpValidateNext_def using assms(1) k(2) [of "length b"]
    by (simp add: lp_mk_rd lp_mk_size length_lp_block del: LP_EOF_def)
qed

lemma lp_mk_assert:
  assumes "lp_elem b" "lp_off (xs @ b # ys) + 1 < 2 ^ 32"
  shows "lpAssertValidEntry (lp_mk num (xs @ b # ys) pad) (lp_off (xs @ b # ys) + 1) (lp_off xs) = Some ()"
  unfolding lpAssertValidEntry_def lp_mk_validate [OF assms] by simp


lemma lp_mk_bytes: "lp_off bs + 1 < 2 ^ 32 \<Longrightarrow> lpBytes (lp_mk num bs pad) = Some (lp_off bs + 1)"
  by (simp only: lpBytes_def lp_mk_total)

lemma lp_elem_hd: "lp_elem b \<Longrightarrow> hd b \<noteq> LP_EOF"
  by (simp add: lp_elem_def)

lemma lp_mk_first:
  assumes "\<forall>b \<in> set bs. lp_elem b" "lp_off bs + 1 < 2 ^ 32"
  shows "lpFirst (lp_mk num bs pad) = Some (if bs = [] then None else Some (lp_off []))"
proof (cases bs)
  case Nil
  then show ?thesis using lp_mk_eof [of num "[]" pad] by (simp add: lpFirst_def)
next
  case (Cons b ys)
  then have "lp_elem b" using assms(1) by simp
  then show ?thesis
    using lp_mk_rd [of b num "[]" ys pad] lp_mk_assert [of b "[]" ys num pad] lp_mk_bytes [OF assms(2), of num pad] lp_elem_hd [of b]
      assms(2) Cons
    by (simp add: lpFirst_def del: LP_EOF_def)
qed

lemma lp_mk_next:
  assumes "\<forall>b \<in> set (b # ys). lp_elem b" "lp_off (xs @ b # ys) + 1 < 2 ^ 32"
  shows "lpNext (lp_mk num (xs @ b # ys) pad) (lp_off xs) = Some (if ys = [] then None else Some (lp_off (xs @ [b])))"
proof (cases ys)
  case Nil
  then show ?thesis using assms(1) lp_mk_skip [of b num xs ys pad] lp_mk_eof [of num "xs @ [b]" pad]
    by (simp add: lpNext_def del: lp_off_simps)
next
  case (Cons c zs)
  have "lp_elem c" "lp_elem b" using assms(1) Cons by simp_all
  then show ?thesis
    using lp_mk_skip [of b num xs ys pad] lp_mk_rd [of c num "xs @ [b]" zs pad] lp_mk_assert [of c "xs @ [b]" zs num pad]
      lp_mk_bytes [OF assms(2), of num pad] lp_elem_hd [of c] assms(2) Cons
    by (simp add: lpNext_def del: LP_EOF_def lp_off_simps)
qed

lemma lp_mk_prev:
  assumes "lp_elem b" "lp_off (xs @ b # ys) + 1 < 2 ^ 32"
  shows "lpPrev (lp_mk num (xs @ b # ys) pad) (lp_off (xs @ [b])) = Some (Some (lp_off xs))"
proof -
  have k: "0 < lpEncodeBacklenBytes n" "lpEncodeBacklenBytes n \<le> 5" for n by (auto simp: lpEncodeBacklenBytes_def)
  have o: "lp_off (xs @ [b]) = lp_off xs + length b + lpEncodeBacklenBytes (length b)"
    "lp_off (xs @ b # ys) = lp_off (xs @ [b]) + length (lp_body ys)"
    by (simp_all add: lp_off_append length_lp_block)
  have len: "length b < 2 ^ 32" "6 \<le> lp_off xs" using assms(2) o by (auto simp: lp_off_def)
  then have dec: "lpDecodeBacklen (lp_mk num (xs @ b # ys) pad) (lp_off (xs @ [b]) - 1) = Some (length b)"
    by (intro lp_mk_backlen) simp
  have m: "(length b + lpEncodeBacklenBytes (length b)) mod 2 ^ 64 = length b + lpEncodeBacklenBytes (length b)"
    using len(1) k(2) [of "length b"] by simp
  have g: "lp_off (xs @ [b]) \<noteq> LP_HDR_SIZE" "1 \<le> lp_off (xs @ [b])"
    "length b + lpEncodeBacklenBytes (length b) - 1 \<le> lp_off (xs @ [b]) - 1"
    "lp_off (xs @ [b]) - 1 - (length b + lpEncodeBacklenBytes (length b) - 1) = lp_off xs"
    using len(2) k(1) [of "length b"] o by (auto simp: Suc_le_eq)
  show ?thesis
    unfolding lpPrev_def if_not_P [OF g(1)] Let_def dec Option.bind.bind_lunit m g(4) lp_mk_bytes [OF assms(2)]
      lp_mk_assert [OF assms]
    using g(2,3) by simp
qed

lemma lp_mk_last:
  assumes "\<forall>b \<in> set bs. lp_elem b" "lp_off bs + 1 < 2 ^ 32"
  shows "lpLast (lp_mk num bs pad) = Some (if bs = [] then None else Some (lp_off (butlast bs)))"
proof (cases bs rule: rev_cases)
  case Nil
  then show ?thesis using lp_mk_total [OF assms(2), of num pad] by (simp add: lpLast_def lpPrev_def)
next
  case (snoc xs b)
  then show ?thesis using lp_mk_total [OF assms(2), of num pad] lp_mk_prev [of b xs "[]" num pad] assms
    by (simp add: lpLast_def)
qed


lemma lp_mk_length_loop:
  assumes "\<forall>b \<in> set (xs @ ys). lp_elem b" "lp_off (xs @ ys) + 1 < 2 ^ 32"
  shows "lpLength_loop (lp_mk num (xs @ ys) pad) (if ys = [] then None else Some (lp_off xs)) count = Some (count + length ys)"
  using assms
proof (induction ys arbitrary: xs count)
  case (Cons b ys)
  have "lpNext (lp_mk num (xs @ b # ys) pad) (lp_off xs) = Some (if ys = [] then None else Some (lp_off (xs @ [b])))"
    using Cons.prems by (intro lp_mk_next) auto
  with Cons.IH [of "xs @ [b]" "count + 1"] Cons.prems show ?case by simp
qed simp

lemma lp_mk_set_num: "lpSetNumElements (lp_mk num bs pad) (int n) = Some (lp_mk n bs pad)"
  unfolding lpSetNumElements_def lp_mk_def by (rule wr_n_at) simp_all

lemma lp_mk_length:
  assumes "lp_num_ok num bs" "\<forall>b \<in> set bs. lp_elem b" "lp_off bs + 1 < 2 ^ 32"
  shows "\<exists>num'. lpLength (lp_mk num bs pad) = Some (length bs, lp_mk num' bs pad) \<and> lp_num_ok num' bs"
proof (cases "num = LP_HDR_NUMELE_UNKNOWN")
  case False
  then have "num = length bs" "num < 65535" using assms(1) by (auto simp: lp_num_ok_def)
  then show ?thesis using lp_mk_num [of num bs pad] assms(1) False by (auto simp: lpLength_def)
next
  case True
  have "lpLength_loop (lp_mk num bs pad) (if bs = [] then None else Some (lp_off [])) 0 = Some (length bs)"
    using lp_mk_length_loop [of "[]" bs num pad 0] assms by simp
  then show ?thesis
    using True lp_mk_num [of num bs pad] lp_mk_first [OF assms(2,3)] assms(1)
    by (cases "length bs < 65535") (auto simp: lpLength_def lp_mk_set_num lp_num_ok_def)
qed

abbreviation lp_ptr :: "u8 list list \<Rightarrow> nat \<Rightarrow> nat ptr" where
  "lp_ptr bs i \<equiv> (if i < length bs then Some (lp_off (take i bs)) else None)"

lemma lp_mk_next_ptr:
  assumes "\<forall>b \<in> set bs. lp_elem b" "lp_off bs + 1 < 2 ^ 32" "i < length bs"
  shows "lpNext (lp_mk num bs pad) (lp_off (take i bs)) = Some (lp_ptr bs (Suc i))"
proof -
  have bs: "bs = take i bs @ bs ! i # drop (Suc i) bs" using assms(3) by (rule id_take_nth_drop)
  have "\<forall>b \<in> set (bs ! i # drop (Suc i) bs). lp_elem b"
    using assms(1,3) by (auto dest: in_set_dropD)
  from lp_mk_next [OF this, of "take i bs" num pad] assms(2,3) show ?thesis
    by (simp add: bs [symmetric] take_Suc_conv_app_nth del: lp_off_simps)
qed

lemma lp_mk_prev_ptr:
  assumes "\<forall>b \<in> set bs. lp_elem b" "lp_off bs + 1 < 2 ^ 32" "i < length bs"
  shows "lpPrev (lp_mk num bs pad) (lp_off (take i bs)) = Some (if i = 0 then None else Some (lp_off (take (i - 1) bs)))"
proof (cases i)
  case 0
  then show ?thesis by (simp add: lpPrev_def)
next
  case (Suc j)
  have bs: "bs = take j bs @ bs ! j # drop (Suc j) bs" using assms(3) Suc by (intro id_take_nth_drop) simp
  have "lp_elem (bs ! j)" using assms(1,3) Suc by simp
  from lp_mk_prev [OF this, of "take j bs" "drop (Suc j) bs" num pad] assms(2,3) Suc show ?thesis
    by (simp add: bs [symmetric] take_Suc_conv_app_nth del: lp_off_simps)
qed

lemma lp_mk_seek_forward:
  assumes "\<forall>b \<in> set bs. lp_elem b" "lp_off bs + 1 < 2 ^ 32"
  shows "lpSeek_forward (lp_mk num bs pad) (lp_ptr bs i) k = Some (lp_ptr bs (i + k))"
proof (induction k arbitrary: i)
  case (Suc k)
  then show ?case using lp_mk_next_ptr [OF assms, of i num pad] Suc.IH [of "Suc i"]
    by (cases "i < length bs") auto
qed simp

lemma lp_mk_seek_backward:
  assumes "\<forall>b \<in> set bs. lp_elem b" "lp_off bs + 1 < 2 ^ 32"
  shows "i < length bs \<Longrightarrow> lpSeek_backward (lp_mk num bs pad) (Some (lp_off (take i bs))) k =
     Some (if k \<le> i then Some (lp_off (take (i - k) bs)) else None)"
proof (induction k arbitrary: i)
  case (Suc k)
  have n: "lpSeek_backward (lp_mk num bs pad) None k = Some None" for k by (cases k) auto
  show ?case using lp_mk_prev_ptr [OF assms Suc.prems, of num pad] Suc.IH [of "i - 1"] Suc.prems n
    by (cases i) auto
qed simp

definition lp_index :: "u8 list list \<Rightarrow> int \<Rightarrow> nat ptr" where
  "lp_index bs i =
     (let j = (if i < 0 then int (length bs) + i else i)
      in if 0 \<le> j \<and> j < int (length bs) then Some (lp_off (take (nat j) bs)) else None)"

lemma lp_mk_seek:
  assumes "lp_num_ok num bs" "\<forall>b \<in> set bs. lp_elem b" "lp_off bs + 1 < 2 ^ 32"
  shows "lpSeek (lp_mk num bs pad) i = Some (lp_index bs i)"
proof -
  have first: "lpFirst (lp_mk num bs pad) = Some (lp_ptr bs 0)" using lp_mk_first [OF assms(2,3), of num pad] by simp
  have last: "lpLast (lp_mk num bs pad) = Some (if bs = [] then None else Some (lp_off (take (length bs - 1) bs)))"
    using lp_mk_last [OF assms(2,3), of num pad] by (simp add: butlast_conv_take)
  have n: "lpSeek_backward (lp_mk num bs pad) None k = Some None" for k by (cases k) auto
  have fwd: "lpSeek_forward (lp_mk num bs pad) (lp_ptr bs 0) (nat i) = Some (lp_index bs i)" if "0 \<le> i" for i
    using that lp_mk_seek_forward [OF assms(2,3), of num pad 0 "nat i"] by (simp add: lp_index_def nat_less_iff)
  have bwd: "lpSeek_backward (lp_mk num bs pad) (if bs = [] then None else Some (lp_off (take (length bs - 1) bs))) k =
     Some (lp_index bs (- 1 - int k))" for k
    using lp_mk_seek_backward [OF assms(2,3), of "length bs - 1" num pad k] n
    by (cases "length bs")
      (auto simp: lp_index_def Let_def nat_diff_distrib intro: arg_cong [of _ _ "\<lambda>n. lp_off (take n bs)"])
  have neg: "i < 0 \<Longrightarrow> - 1 - int (nat (- 1 - i)) = i" for i :: int by simp
  show ?thesis
  proof (cases "num = LP_HDR_NUMELE_UNKNOWN")
    case True
    then have "lpGetNumElements (lp_mk num bs pad) = Some 65535" using lp_mk_num [of num bs pad] by simp
    then show ?thesis using first last fwd [of i] bwd [of "nat (- 1 - i)"] neg [of i] by (simp add: lpSeek_def)
  next
    case False
    then have num: "lpGetNumElements (lp_mk num bs pad) = Some (length bs)" "length bs < 65535"
      using assms(1) lp_mk_num [of num bs pad] by (auto simp: lp_num_ok_def)
    define j where "j = (if i < 0 then int (length bs) + i else i)"
    have eq: "lp_index bs (j - int (length bs)) = lp_index bs i" "lp_index bs j = lp_index bs i" if "0 \<le> j" "j < int (length bs)"
      using that by (auto simp: lp_index_def j_def)
    have out: "lp_index bs i = None" if "\<not> (0 \<le> j \<and> j < int (length bs))" using that by (auto simp: lp_index_def j_def Let_def)
    have "lpSeek (lp_mk num bs pad) i =
      (if j < 0 then Some None else if j \<ge> int (length bs) then Some None
       else if j > int (length bs) div 2 then do { ele \<leftarrow> lpLast (lp_mk num bs pad);
         lpSeek_backward (lp_mk num bs pad) ele (nat (- 1 - (j - int (length bs)))) }
       else do { ele \<leftarrow> lpFirst (lp_mk num bs pad); lpSeek_forward (lp_mk num bs pad) ele (nat j) })"
      using num by (simp add: lpSeek_def j_def [symmetric])
    then show ?thesis
      using first last fwd [of j] bwd [of "nat (- 1 - (j - int (length bs)))"] neg [of "j - int (length bs)"] eq out
      by (auto split: if_splits)
  qed
qed

end
