(* ===== verification/Listpack_Values.thy ===== *)
theory Listpack_Values
  imports Listpack_Repr
begin

unbundle bit_operations_syntax

text \<open>
  The elements of a listpack as values: what the encoders write and what the getters read. An
  element is a string or an integer; its content as a string is the numeral of the integer.
\<close>

subsection \<open>Encodings\<close>

definition enc_str :: "u8 list \<Rightarrow> u8 list" where
  "enc_str s =
     (if length s < 64 then (of_nat (length s) OR 0x80) # s
      else if length s < 4096 then (of_nat (length s div 256) OR 0xE0) # of_nat (length s) # s
      else 0xF0 # le_bytes 4 (int (length s)) @ s)"

definition lp_encode :: "u8 list \<Rightarrow> u8 list" where
  "lp_encode s = (case lpStringToInt64 s of Some v \<Rightarrow> lpEncodeIntegerGetType v | None \<Rightarrow> enc_str s)"

lemma lpStringToInt64_eq: "lpStringToInt64 s = string2ll s"
proof (cases s)
  case Nil
  then show ?thesis by (simp add: lpStringToInt64_def string2ll_def)
next
  case (Cons c p)
  have "(length s = 1 \<and> hd s = 48) = (s = [48])" using Cons by auto
  then show ?thesis unfolding lpStringToInt64_def string2ll_def
    by (auto simp: Let_def split: list.splits option.splits)
qed

lemma lpEncodeGetType_eq:
  "lpEncodeGetType s = (case lpStringToInt64 s of Some v \<Rightarrow> (LP_ENCODING_INT (lp_encode s), length (lp_encode s))
     | None \<Rightarrow> (LP_ENCODING_STRING, length (lp_encode s)))"
  by (simp add: lpEncodeGetType_def lp_encode_def enc_str_def split: option.splits)

lemma wr_at: "off = length A \<Longrightarrow> wr (A @ x # C) off y = Some (A @ y # C)"
  by (simp add: wr_def)

lemma lpEncodeString_at:
  assumes "length X = length (enc_str s)" "off = length A"
  shows "lpEncodeString (A @ X @ C) off s = Some (A @ enc_str s @ C)"
proof -
  consider "length s < 64" | "64 \<le> length s" "length s < 4096" | "4096 \<le> length s" by linarith
  then show ?thesis
  proof cases
    case 1
    then obtain x X' where X: "X = x # X'" "length X' = length s" using assms(1) by (cases X) (auto simp: enc_str_def)
    show ?thesis using 1 X wr_at [of off A x "X' @ C"] wr_n_at [of "off + 1" "A @ [_]" s X' C] assms(2)
      by (simp add: lpEncodeString_def enc_str_def)
  next
    case 2
    then obtain x y X' where X: "X = x # y # X'" "length X' = length s"
      using assms(1) by (cases X; cases "tl X") (auto simp: enc_str_def)
    show ?thesis
      using 2 X wr_at [of off A x "y # X' @ C"] wr_at [of "off + 1" "A @ [_]" y "X' @ C"]
        wr_n_at [of "off + 2" "A @ [_, _]" s X' C] assms(2)
      by (simp add: lpEncodeString_def enc_str_def Let_def)
  next
    case 3
    define L where "L = le_bytes 4 (int (length s))"
    have L: "length L = 4" "enc_str s = 0xF0 # L @ s" using 3 by (simp_all add: L_def enc_str_def)
    obtain x Z where xZ: "X = x # Z" "length Z = 4 + length s" using assms(1) L by (cases X) auto
    obtain Y X' where Z: "Z = Y @ X'" "length Y = 4" "length X' = length s"
      using xZ(2) by (intro that [of "take 4 Z" "drop 4 Z"]) auto
    have w1: "wr (A @ X @ C) off 0xF0 = Some (A @ 0xF0 # Y @ X' @ C)"
      using assms(2) by (simp add: wr_at xZ Z)
    have w2: "wr_n (A @ 0xF0 # Y @ X' @ C) (off + 1) L = Some (A @ 0xF0 # L @ X' @ C)"
      using wr_n_at [of "off + 1" "A @ [0xF0]" L Y "X' @ C"] assms(2) Z L by simp
    have w3: "wr_n (A @ 0xF0 # L @ X' @ C) (off + 5) s = Some (A @ 0xF0 # L @ s @ C)"
      using wr_n_at [of "off + 5" "A @ 0xF0 # L" s X' C] assms(2) Z L by simp
    have "\<not> length s < 64" "\<not> length s < 4096" using 3 by auto
    then show ?thesis unfolding lpEncodeString_def Let_def L_def [symmetric] L(2)
      by (simp add: w1 w2 [simplified] w3)
  qed
qed

lemma unat_or_high:
  assumes "unat (x :: u8) < 2 ^ k" "mask k AND c = 0" "unat x + unat c < 256"
  shows "unat (x OR c) = unat x + unat c"
proof -
  have "x AND mask k = x" using assms(1) by (simp add: u8_eq_iff unat_and_mask)
  then have "x AND c = x AND (mask k AND c)" by (metis and.assoc)
  then have "x AND c = 0" using assms(2) by simp
  then have "x OR c = x + c" using word_plus_and_or [of x c] by simp
  then show ?thesis using assms(3) by (simp add: unat_plus_simple [THEN iffD1] unat_word_ariths)
qed

lemma unat_or_encodings:
  "n < 64 \<Longrightarrow> unat (of_nat n OR 0x80 :: u8) = n + 128"
  "n < 16 \<Longrightarrow> unat (of_nat n OR 0xE0 :: u8) = n + 224"
  "n < 32 \<Longrightarrow> unat (of_nat n OR 0xC0 :: u8) = n + 192"
  using unat_or_high [of "of_nat n" 6 "0x80"] unat_or_high [of "of_nat n" 4 "0xE0"] unat_or_high [of "of_nat n" 5 "0xC0"]
  by (simp_all add: unat_of_nat_u8 mask_eq_exp_minus_1)

lemma and_low:
  "unat ((b :: u8) AND 0x3F) = unat b mod 64" "unat (b AND 0xF) = unat b mod 16"
  "unat (b AND 0x1F) = unat b mod 32" "unat (b AND 0x7F) = unat b mod 128"
  using unat_and_mask [of b 6] unat_and_mask [of b 4] unat_and_mask [of b 5] unat_and_mask [of b 7]
  by (simp_all add: mask_eq_exp_minus_1)

lemma enc_str_ne [simp]: "enc_str s \<noteq> []"
  by (simp add: enc_str_def)

lemma enc_str_6:
  assumes "length s < 64"
  shows "\<exists>x. enc_str s = x # s \<and> 128 \<le> unat x \<and> unat x < 192 \<and> LP_ENCODING_6BIT_STR_LEN (enc_str s) 0 = Some (length s)"
proof -
  define x where "x = (of_nat (length s) OR 0x80 :: u8)"
  have "unat x = length s + 128" using assms by (simp add: x_def unat_or_encodings)
  moreover have "(length s + 128) mod 64 = length s" using assms mod_mult_self2 [of "length s" 64 2] by simp
  ultimately show ?thesis using assms
    by (simp add: enc_str_def x_def [symmetric] LP_ENCODING_6BIT_STR_LEN_def and_low rd_def)
qed

lemma enc_str_12:
  assumes "64 \<le> length s" "length s < 4096"
  shows "\<exists>x y. enc_str s = x # y # s \<and> 224 \<le> unat x \<and> unat x < 240 \<and> LP_ENCODING_12BIT_STR_LEN (enc_str s) 0 = Some (length s)"
proof -
  define x where "x = (of_nat (length s div 256) OR 0xE0 :: u8)"
  have lt: "length s div 256 < 16" using assms by auto
  then have "unat x = length s div 256 + 224" by (simp add: x_def unat_or_encodings)
  moreover have "(length s div 256 + 224) mod 16 = length s div 256"
    using lt mod_mult_self2 [of "length s div 256" 16 14] by simp
  ultimately show ?thesis using assms lt
    by (simp add: enc_str_def x_def [symmetric] LP_ENCODING_12BIT_STR_LEN_def and_low rd_def unat_of_nat)
qed

lemma enc_str_32:
  assumes "4096 \<le> length s" "length s < 2 ^ 32"
  shows "\<exists>L. enc_str s = 0xF0 # L @ s \<and> length L = 4 \<and> LP_ENCODING_32BIT_STR_LEN (enc_str s) 0 = Some (length s)"
proof -
  define L where "L = le_bytes 4 (int (length s))"
  have "rd_n (0xF0 # L @ s) (0 + 1) 4 = Some L" using rd_n_at [of 1 "[0xF0]" 4 L s] by (simp add: L_def)
  then show ?thesis using assms
    by (simp add: enc_str_def L_def [symmetric] LP_ENCODING_32BIT_STR_LEN_def) (simp add: L_def le_uint_le_bytes)
qed

lemma lp_elem_enc_str:
  assumes "length s < 2 ^ 32 - 5"
  shows "lp_elem (enc_str s)"
proof -
  consider "length s < 64" | "64 \<le> length s" "length s < 4096" | "4096 \<le> length s" by linarith
  then show ?thesis
  proof cases
    case 1
    from enc_str_6 [OF 1] show ?thesis
      by (auto simp: lp_elem_def lpCurrentEncodedSizeUnsafe_def enc_class rd_def)
  next
    case 2
    from enc_str_12 [OF 2] show ?thesis
      by (auto simp: lp_elem_def lpCurrentEncodedSizeUnsafe_def enc_class rd_def)
  next
    case 3
    from enc_str_32 [of s] 3 assms show ?thesis
      by (auto simp: lp_elem_def lpCurrentEncodedSizeUnsafe_def enc_class rd_def)
  qed
qed

lemma lp_elem_int: "lp_elem (lpEncodeIntegerGetType v)"
proof -
  consider "0 \<le> v" "v \<le> 127" | "\<not> (0 \<le> v \<and> v \<le> 127)" "- 4096 \<le> v" "v \<le> 4095"
    | "\<not> (0 \<le> v \<and> v \<le> 127)" "\<not> (- 4096 \<le> v \<and> v \<le> 4095)" by blast
  then show ?thesis
  proof cases
    case 1
    have "unat (word_of_int v :: u8) = nat v" using 1 by (simp add: unsigned_of_int take_bit_eq_mod nat_mod_distrib)
    then show ?thesis using 1
      by (simp add: lp_elem_def lpEncodeIntegerGetType_def lpCurrentEncodedSizeUnsafe_def enc_class rd_def u8_eq_iff nat_less_iff)
  next
    case 2
    define w where "w = (if v < 0 then 2 ^ 13 + v else v)"
    define x where "x = (word_of_int (w div 256) OR 0xC0 :: u8)"
    have w: "0 \<le> w div 256" "w div 256 < 32" using 2 by (auto simp: w_def)
    then have c: "word_of_int (w div 256) = (of_nat (nat (w div 256)) :: u8)" by simp
    have x: "unat x = nat (w div 256) + 192" unfolding x_def c using w by (intro unat_or_encodings) linarith
    then have "x \<noteq> 0xFF" using w by (simp add: u8_eq_iff)
    moreover have "lpEncodeIntegerGetType v = [x, word_of_int w]"
      using 2 by (auto simp: lpEncodeIntegerGetType_def w_def x_def Let_def)
    ultimately show ?thesis using x w
      by (simp add: lp_elem_def lpCurrentEncodedSizeUnsafe_def enc_class rd_def)
  next
    case 3
    then show ?thesis
      by (auto simp: lp_elem_def lpEncodeIntegerGetType_def lpCurrentEncodedSizeUnsafe_def enc_class rd_def Let_def
        simp del: le_bytes.simps)
  qed
qed


subsection \<open>Values\<close>

datatype lp_value = VStr "u8 list" | VInt int

definition lp_val :: "u8 list \<Rightarrow> lp_value" where
  "lp_val b = (case lpGetWithBuf b 0 None of Some (LpStr off n) \<Rightarrow> VStr (take n (drop off b))
     | Some (LpInt v) \<Rightarrow> VInt v | _ \<Rightarrow> VStr [])"

definition lp_str :: "u8 list \<Rightarrow> u8 list" where
  "lp_str b = (case lp_val b of VStr s \<Rightarrow> s | VInt v \<Rightarrow> ll_str v)"

lemma lp_int_return_None: "lp_int_return None u s m = Some (LpInt (if u \<ge> s then u - m - 1 else u))"
  by (simp add: lp_int_return_def Let_def)

lemma get_int:
  assumes "LLONG_MIN \<le> v" "v \<le> LLONG_MAX"
  shows "lpGetWithBuf (lpEncodeIntegerGetType v) 0 None = Some (LpInt v)"
proof -
  have ld: "lp_load (x # le_bytes n w) 0 n = Some (w mod 256 ^ n)" for x n w
    using rd_n_at [of 1 "[x]" n "le_bytes n w" "[]"] by (simp add: lp_load_def le_uint_le_bytes)
  consider "0 \<le> v" "v \<le> 127" | "\<not> (0 \<le> v \<and> v \<le> 127)" "- 4096 \<le> v" "v \<le> 4095"
    | "\<not> (0 \<le> v \<and> v \<le> 127)" "\<not> (- 4096 \<le> v \<and> v \<le> 4095)" "- 32768 \<le> v" "v \<le> 32767"
    | "\<not> (0 \<le> v \<and> v \<le> 127)" "\<not> (- 4096 \<le> v \<and> v \<le> 4095)" "\<not> (- 32768 \<le> v \<and> v \<le> 32767)"
      "- 8388608 \<le> v" "v \<le> 8388607"
    | "\<not> (0 \<le> v \<and> v \<le> 127)" "\<not> (- 4096 \<le> v \<and> v \<le> 4095)" "\<not> (- 32768 \<le> v \<and> v \<le> 32767)"
      "\<not> (- 8388608 \<le> v \<and> v \<le> 8388607)" "- 2147483648 \<le> v" "v \<le> 2147483647"
    | "\<not> (0 \<le> v \<and> v \<le> 127)" "\<not> (- 4096 \<le> v \<and> v \<le> 4095)" "\<not> (- 32768 \<le> v \<and> v \<le> 32767)"
      "\<not> (- 8388608 \<le> v \<and> v \<le> 8388607)" "\<not> (- 2147483648 \<le> v \<and> v \<le> 2147483647)"
    by blast
  then show ?thesis
  proof cases
    case 1
    have u: "unat (word_of_int v :: u8) = nat v" using 1 by (simp add: unsigned_of_int take_bit_eq_mod nat_mod_distrib)
    then have "uint (word_of_int v AND 0x7F :: u8) = v"
      using 1 and_low(4) [of "word_of_int v"] by (simp only: uint_nat) simp
    moreover have "nat v < 128" using 1 by linarith
    moreover have "lpEncodeIntegerGetType v = [word_of_int v]" using 1 by (simp add: lpEncodeIntegerGetType_def)
    ultimately show ?thesis using 1 u
      by (simp add: lpGetWithBuf_def enc_class rd_def lp_int_return_None)
  next
    case 2
    define w where "w = (if v < 0 then 2 ^ 13 + v else v)"
    define x where "x = (word_of_int (w div 256) OR 0xC0 :: u8)"
    have w: "0 \<le> w div 256" "w div 256 < 32" "0 \<le> w" using 2 by (auto simp: w_def)
    then have c: "word_of_int (w div 256) = (of_nat (nat (w div 256)) :: u8)" by simp
    have x: "unat x = nat (w div 256) + 192" unfolding x_def c using w by (intro unat_or_encodings) linarith
    have "unat (x AND 0x1F) = nat (w div 256)"
      unfolding and_low x using w(1,2) mod_mult_self2 [of "nat (w div 256)" 32 6] by simp
    then have "uint (x AND 0x1F) * 256 + uint (word_of_int w :: u8) = w"
      using w by (simp only: uint_nat uint_word_of_int_8 [unfolded uint_nat]) simp
    moreover have "lpEncodeIntegerGetType v = [x, word_of_int w]"
      using 2 by (auto simp: lpEncodeIntegerGetType_def w_def x_def Let_def)
    moreover have "v = (if w \<ge> 2 ^ 12 then w - 8191 - 1 else w)" using 2 by (auto simp: w_def)
    moreover have "nat (w div 256) < 32" using w by linarith
    ultimately show ?thesis using x
      by (simp add: lpGetWithBuf_def enc_class rd_def lp_int_return_None)
  next
    case 3
    then have e: "lpEncodeIntegerGetType v = 0xF1 # le_bytes 2 (if v < 0 then 2 ^ 16 + v else v)"
      unfolding lpEncodeIntegerGetType_def Let_def by (simp only: if_False if_True simp_thms)
    show ?thesis unfolding e using 3 by (simp add: lpGetWithBuf_def enc_class rd_def ld lp_int_return_None)
  next
    case 4
    then have e: "lpEncodeIntegerGetType v = 0xF2 # le_bytes 3 (if v < 0 then 2 ^ 24 + v else v)"
      unfolding lpEncodeIntegerGetType_def Let_def by (simp only: if_False if_True simp_thms)
    show ?thesis unfolding e using 4 by (simp add: lpGetWithBuf_def enc_class rd_def ld lp_int_return_None)
  next
    case 5
    then have e: "lpEncodeIntegerGetType v = 0xF3 # le_bytes 4 (if v < 0 then 2 ^ 32 + v else v)"
      unfolding lpEncodeIntegerGetType_def Let_def by (simp only: if_False if_True simp_thms)
    show ?thesis unfolding e using 5 by (simp add: lpGetWithBuf_def enc_class rd_def ld lp_int_return_None)
  next
    case 6
    have "v mod 2 ^ 64 = (if 0 \<le> v then v else v + 2 ^ 64)"
    proof (cases "0 \<le> v")
      case False
      have "v mod 2 ^ 64 = (v + 2 ^ 64) mod 2 ^ 64" by (rule mod_add_self2 [symmetric])
      also have "\<dots> = v + 2 ^ 64" using False assms(1) by (intro mod_pos_pos_trivial) auto
      finally show ?thesis using False by simp
    qed (use assms(2) in simp)
    moreover have e: "lpEncodeIntegerGetType v = 0xF4 # le_bytes 8 v"
      using 6 unfolding lpEncodeIntegerGetType_def Let_def by (simp only: if_False if_True simp_thms)
    ultimately show ?thesis unfolding e using assms ld [of _ 8 v]
      by (simp add: lpGetWithBuf_def enc_class rd_def lp_int_return_None)
  qed
qed

lemma get_str:
  assumes "length s < 2 ^ 32"
  shows "lpGetWithBuf (enc_str s) 0 None = Some (LpStr (length (enc_str s) - length s) (length s))"
proof -
  consider "length s < 64" | "64 \<le> length s" "length s < 4096" | "4096 \<le> length s" by linarith
  then show ?thesis
  proof cases
    case 1
    from enc_str_6 [OF 1] show ?thesis by (auto simp: lpGetWithBuf_def enc_class rd_def)
  next
    case 2
    from enc_str_12 [OF 2] show ?thesis by (auto simp: lpGetWithBuf_def enc_class rd_def)
  next
    case 3
    from enc_str_32 [OF 3 assms] show ?thesis by (auto simp: lpGetWithBuf_def enc_class rd_def)
  qed
qed

lemma drop_enc_str: "drop (length (enc_str s) - length s) (enc_str s) = s"
  by (simp add: enc_str_def)

lemma lp_val_int: "LLONG_MIN \<le> v \<Longrightarrow> v \<le> LLONG_MAX \<Longrightarrow> lp_val (lpEncodeIntegerGetType v) = VInt v"
  by (simp add: lp_val_def get_int)

lemma lp_val_encode:
  assumes "length s < 2 ^ 32"
  shows "lp_val (lp_encode s) = (case string2ll s of Some v \<Rightarrow> VInt v | None \<Rightarrow> VStr s)"
proof (cases "string2ll s")
  case None
  then show ?thesis using assms by (simp add: lp_encode_def lpStringToInt64_eq lp_val_def get_str drop_enc_str)
next
  case (Some v)
  then show ?thesis using string2ll_sound [OF Some]
    by (simp add: lp_encode_def lpStringToInt64_eq lp_val_int)
qed

lemma lp_str_encode: "length s < 2 ^ 32 \<Longrightarrow> lp_str (lp_encode s) = s"
  using string2ll_sound [of s] by (simp add: lp_str_def lp_val_encode split: option.splits)

lemma lp_elem_encode: "length s < 2 ^ 32 - 5 \<Longrightarrow> lp_elem (lp_encode s)"
  by (simp add: lp_encode_def lp_elem_int lp_elem_enc_str split: option.splits)


subsection \<open>The getters\<close>

lemma lp_load_ctx: "lp_load b i n = Some v \<Longrightarrow> lp_load (A @ b @ C) (length A + i) n = Some v"
  using rd_n_ctx [of b "i + 1" n _ A C] by (auto simp: lp_load_def bind_eq_Some_conv add.assoc)

lemma enc_class_cases:
  obtains "unat (x :: u8) < 128" | "128 \<le> unat x" "unat x < 192" | "192 \<le> unat x" "unat x < 224"
  | "224 \<le> unat x" "unat x < 240" | "unat x = 240" | "unat x = 241" | "unat x = 242" | "unat x = 243" | "unat x = 244"
  | "244 < unat x"
  by linarith

definition shift_got :: "nat \<Rightarrow> lp_got \<Rightarrow> lp_got" where
  "shift_got k r = (case r of LpStr off n \<Rightarrow> LpStr (k + off) n | _ \<Rightarrow> r)"

lemma get_ctx:
  assumes "lpGetWithBuf b 0 None = Some r"
  shows "lpGetWithBuf (A @ b @ C) (length A) None = Some (shift_got (length A) r)"
proof -
  obtain x where x: "rd b 0 = Some x" using assms by (auto simp: lpGetWithBuf_def bind_eq_Some_conv)
  note x' = rd_ctx [OF x, of A C, simplified]
  note ctx = x x' str_len_ctx [of b 0 _ A C, simplified] lp_load_ctx [of b 0 _ _ A C, simplified]
    rd_ctx [of b 1 _ A C, simplified]
  show ?thesis
    by (cases rule: enc_class_cases [of x])
      (use assms ctx in \<open>auto simp: lpGetWithBuf_def enc_class bind_eq_Some_conv lp_int_return_None shift_got_def\<close>)
qed

text \<open>The two getters agree: \<open>lpGetWithSize\<close>, which tests the encodings in another order and also computes
  the size of the entry, returns the same value as \<open>lpGetWithBuf\<close> for every block, position and buffer.\<close>

theorem lpGetWithSize_eq: "map_option fst (lpGetWithSize lp p intbuf es) = lpGetWithBuf lp p intbuf"
proof (cases "rd lp p")
  case (Some x)
  show ?thesis
    by (cases rule: enc_class_cases [of x])
      (use Some in \<open>simp_all add: lpGetWithSize_def lpGetWithBuf_def enc_class Option.map_conv_bind_option comp_def\<close>)
qed (simp add: lpGetWithSize_def lpGetWithBuf_def)

lemma str_len_32_less: "LP_ENCODING_32BIT_STR_LEN b i = Some n \<Longrightarrow> n < 2 ^ 32 \<and> i + 5 \<le> length b"
proof -
  assume "LP_ENCODING_32BIT_STR_LEN b i = Some n"
  then obtain bs where bs: "rd_n b (i + 1) 4 = Some bs" "n = nat (le_uint bs)"
    by (auto simp: LP_ENCODING_32BIT_STR_LEN_def bind_eq_Some_conv)
  then have "length bs = 4" "i + 5 \<le> length b" by (auto simp: rd_n_eq_Some)
  with le_uint_bounds [of bs] bs(2) show ?thesis by (simp add: nat_less_iff)
qed

lemma lp_elem_cases:
  assumes "lp_elem b"
  shows "\<exists>x r. rd b 0 = Some x \<and> lpGetWithBuf b 0 None = Some r \<and>
     (\<forall>es. lpGetWithSize b 0 None es = Some (r, length (lp_block b))) \<and>
     (case r of LpStr off n \<Rightarrow> off + n = length b | LpInt _ \<Rightarrow> True | LpBuf _ _ \<Rightarrow> False)"
proof -
  obtain x c where b: "b = x # c" "x \<noteq> 0xFF" using assms by (cases b) (auto simp: lp_elem_def)
  have x: "rd b 0 = Some x" by (simp add: b rd_def)
  have sz: "lpCurrentEncodedSizeUnsafe b 0 = Some (length b)" using assms by (simp add: lp_elem_def)
  have l: "lp_load b 0 k \<noteq> None" if "length b = k + 1" for k using that by (simp add: lp_load_def rd_n_def)
  show ?thesis
  proof (cases rule: enc_class_cases [of x])
    case 2
    obtain n where "LP_ENCODING_6BIT_STR_LEN b 0 = Some n" "1 + n = length b"
      using sz x 2 by (auto simp: lpCurrentEncodedSizeUnsafe_def enc_class bind_eq_Some_conv)
    then show ?thesis using 2 x by (simp add: lpGetWithBuf_def lpGetWithSize_def enc_class length_lp_block add.commute)
  next
    case 4
    obtain n where "LP_ENCODING_12BIT_STR_LEN b 0 = Some n" "2 + n = length b"
      using sz x 4 by (auto simp: lpCurrentEncodedSizeUnsafe_def enc_class bind_eq_Some_conv)
    then show ?thesis using 4 x by (simp add: lpGetWithBuf_def lpGetWithSize_def enc_class length_lp_block add.commute)
  next
    case 3
    then have "length b = 2" using sz x by (simp add: lpCurrentEncodedSizeUnsafe_def enc_class)
    then have "rd b 1 \<noteq> None" by (simp add: rd_def)
    then show ?thesis using 3 x \<open>length b = 2\<close>
      by (auto simp: lpGetWithBuf_def lpGetWithSize_def enc_class lp_int_return_None length_lp_block lpEncodeBacklenBytes_def)
  next
    case 5
    obtain n where n: "LP_ENCODING_32BIT_STR_LEN b 0 = Some n" "(5 + n) mod 2 ^ 32 = length b"
      using sz x 5 by (auto simp: lpCurrentEncodedSizeUnsafe_def enc_class bind_eq_Some_conv)
    have "5 + n = length b"
    proof (rule ccontr)
      assume "5 + n \<noteq> length b"
      then have "\<not> 5 + n < 2 ^ 32" using n(2) by auto
      moreover have "n < 2 ^ 32" using str_len_32_less [OF n(1)] by blast
      ultimately have "(5 + n) mod 2 ^ 32 < 5" by (simp add: mod_if) linarith
      then show False using n str_len_32_less [OF n(1)] by simp
    qed
    then show ?thesis using 5 x n(1)
      by (simp add: lpGetWithBuf_def lpGetWithSize_def enc_class length_lp_block add.commute)
  next
    case 10
    then have "lpCurrentEncodedSizeUnsafe b 0 = Some 0" using x b(2) by (simp add: lpCurrentEncodedSizeUnsafe_def enc_class)
    then show ?thesis using sz b by simp
  qed (use sz x l in \<open>auto simp: lpGetWithBuf_def lpGetWithSize_def lpCurrentEncodedSizeUnsafe_def enc_class
        lp_int_return_None length_lp_block lpEncodeBacklenBytes_def\<close>)
qed


text \<open>What a client gets: the value of an element, through the getter and the bytes it points to.\<close>

definition lp_read :: "u8 list \<Rightarrow> nat \<Rightarrow> lp_value res" where
  "lp_read lp p = do {
     r \<leftarrow> lpGet lp p None;
     case r of LpStr off n \<Rightarrow> do { s \<leftarrow> rd_n lp off n; Some (VStr s) } | LpInt v \<Rightarrow> Some (VInt v) | LpBuf _ _ \<Rightarrow> None }"

lemma lp_mk_read:
  assumes "lp_elem b"
  shows "lp_read (lp_mk num (xs @ b # ys) pad) (lp_off xs) = Some (lp_val b)"
proof -
  obtain H C where H: "lp_mk num (xs @ b # ys) pad = H @ b @ C" "length H = lp_off xs" by (rule lp_mk_at)
  obtain r where r: "lpGetWithBuf b 0 None = Some r"
    "case r of LpStr off n \<Rightarrow> off + n = length b | LpInt _ \<Rightarrow> True | LpBuf _ _ \<Rightarrow> False"
    using lp_elem_cases [OF assms] by blast
  show ?thesis
  proof (cases r)
    case (LpStr off n)
    then have "rd_n b off n = Some (take n (drop off b))" using r(2) by (simp add: rd_n_def)
    from rd_n_ctx [OF this, of H C] show ?thesis
      using get_ctx [OF r(1), of H C] H LpStr r(1) by (simp add: lp_read_def lpGet_def lp_val_def shift_got_def)
  qed (use r get_ctx [OF r(1), of H C] H in \<open>auto simp: lp_read_def lpGet_def lp_val_def shift_got_def\<close>)
qed

end
