(* ===== verification/Listpack_Edit.thy ===== *)
theory Listpack_Edit
  imports Listpack_Values
begin

text \<open>
  The editing operations of listpacks implement the list operations on the represented elements:
  \<open>lpInsert\<close> in all its modes and its wrappers, bulk insertion, range deletion and merging.
\<close>

subsection \<open>Blocks of memory\<close>

definition lp_raw :: "nat \<Rightarrow> nat \<Rightarrow> u8 list \<Rightarrow> u8 list" where
  "lp_raw t n r = le_bytes 4 (int t) @ le_bytes 2 (int n) @ r"

lemma lp_mk_raw: "lp_mk num bs pad = lp_raw (lp_off bs + 1) num (lp_body bs @ LP_EOF # pad)"
  by (simp add: lp_mk_def lp_raw_def)

lemma length_lp_raw: "length (lp_raw t n r) = 6 + length r"
  by (simp add: lp_raw_def)

lemma rd_lp_raw: "rd (lp_raw t n r) (6 + i) = rd r i"
  by (simp add: rd_def lp_raw_def nth_append)

lemma lp_raw_num: "n < 65536 \<Longrightarrow> lpGetNumElements (lp_raw t n r) = Some n"
  unfolding lpGetNumElements_def lp_raw_def
  using rd_n_at [of 4 "le_bytes 4 (int t)" 2 "le_bytes 2 (int n)"] by (simp add: le_uint_le_bytes)

lemma lp_raw_set_num: "lpSetNumElements (lp_raw t n r) (int m) = Some (lp_raw t m r)"
  unfolding lpSetNumElements_def lp_raw_def by (rule wr_n_at) simp_all

lemma lp_raw_set_total: "lpSetTotalBytes (lp_raw t n r) (int m) = Some (lp_raw m n r)"
  unfolding lpSetTotalBytes_def lp_raw_def
  using wr_n_at [of 0 "[]" "le_bytes 4 (int m)" "le_bytes 4 (int t)"] by simp

lemma lp_raw_total: "t < 2 ^ 32 \<Longrightarrow> lpGetTotalBytes (lp_raw t n r) = Some t"
  unfolding lpGetTotalBytes_def lp_raw_def
  using rd_n_at [of 0 "[]" 4 "le_bytes 4 (int t)"] by (simp add: le_uint_le_bytes)

text \<open>Moving the tail \<open>T\<close> after \<open>B\<close> so that a gap of \<open>k\<close> bytes remains.\<close>

lemma mem_move_gap:
  assumes "length H + k + length T \<le> length (H @ B @ T @ R)"
  obtains G R' where "length G = k" "mem_move (H @ B @ T @ R) (length H + k) (length H + length B) (length T) = Some (H @ G @ T @ R')"
    "length (H @ G @ T @ R') = length (H @ B @ T @ R)"
proof -
  let ?M = "H @ B @ T @ R"
  have r: "rd_n ?M (length H + length B) (length T) = Some T"
    using rd_n_at [of "length H + length B" "H @ B" "length T" T R] by simp
  have "take (length H + k) ?M = H @ take k (B @ T @ R)" by simp
  moreover have "length (take k (B @ T @ R)) = k" using assms by simp
  ultimately show thesis
    using that [of "take k (B @ T @ R)" "drop (length H + k + length T) ?M"] r assms
    by (simp add: mem_move_def wr_n_def del: append_assoc drop_append)
qed


lemma re_alloc_grow: "length xs \<le> n \<Longrightarrow> re_alloc junk n xs = xs @ map junk [length xs..<n]"
  by (simp add: re_alloc_def)

lemma re_alloc_shrink: "n \<le> length xs \<Longrightarrow> re_alloc junk n xs = take n xs"
  by (simp add: re_alloc_def)

lemma lpInsert_room_eq:
  fixes k :: nat
  assumes "old_bytes = 6 + length X + length B + length T" "new_bytes = 6 + length X + k + length T"
    and "lp = lp_raw t n (X @ B @ T @ R)"
    and "if whr = LP_BEFORE then B = [] else r = length B"
  obtains G R' where "length G = k"
    "lpInsert_room junk lp whr (6 + length X) k r old_bytes new_bytes = Some (lp_raw t n (X @ G @ T @ R'))"
proof -
  define H where "H = le_bytes 4 (int t) @ le_bytes 2 (int n) @ X"
  have H: "length H = 6 + length X" "lp_raw t n (X @ Y) = H @ Y" for Y by (simp_all add: H_def lp_raw_def)
  define lp1 where "lp1 = (if new_bytes > old_bytes \<and> new_bytes > length lp then re_alloc junk new_bytes lp else lp)"
  obtain R1 where lp1: "lp1 = H @ B @ T @ R1" "length lp1 \<ge> new_bytes"
  proof (cases "new_bytes > old_bytes \<and> new_bytes > length lp")
    case True
    then have "lp1 = lp @ map junk [length lp..<new_bytes]" by (simp add: lp1_def re_alloc_grow)
    with that [of "R @ map junk [length lp..<new_bytes]"] True show thesis by (simp add: assms(3) H(2))
  next
    case False
    then show thesis using that [of R] assms H by (auto simp: lp1_def)
  qed
  obtain G R' where G: "length G = k" "mem_move lp1 (length H + k) (length H + length B) (length T) = Some (H @ G @ T @ R')"
    "length (H @ G @ T @ R') = length lp1"
    using mem_move_gap [of H k T B R1] lp1 assms(2) H(1) by auto
  have mv: "(if whr = LP_BEFORE then mem_move lp1 (6 + length X + k) (6 + length X) (old_bytes - (6 + length X))
     else mem_move lp1 (6 + length X + k) (6 + length X + r) (old_bytes - (6 + length X) - r)) = Some (H @ G @ T @ R')"
    using G(2) assms(1,4) H(1) by (auto split: if_splits)
  show thesis
  proof (cases "new_bytes < old_bytes")
    case True
    have "re_alloc junk new_bytes (H @ G @ T @ R') = H @ G @ T"
      using lp1(2) G(1,3) assms(2) H(1) by (subst re_alloc_shrink) simp_all
    then show thesis using that [of G "[]"] G(1) True H mv
      unfolding lpInsert_room_def Let_def lp1_def [symmetric] by simp
  next
    case False
    then show thesis using that [of G R'] G(1) H mv
      unfolding lpInsert_room_def Let_def lp1_def [symmetric] by simp
  qed
qed

subsection \<open>Insertion\<close>

definition ele_bytes :: "lp_ele \<Rightarrow> u8 list" where
  "ele_bytes ele = (case ele of EleStr s \<Rightarrow> lp_encode s | EleInt e \<Rightarrow> e | EleNone \<Rightarrow> [])"

definition ele_ok :: "lp_ele \<Rightarrow> bool" where
  "ele_ok ele = (case ele of EleStr s \<Rightarrow> length s < 2 ^ 32 | EleInt e \<Rightarrow> lp_elem e | EleNone \<Rightarrow> True)"

lemma ele_enclen:
  "(case ele of EleStr s \<Rightarrow> lpEncodeGetType s | EleInt e \<Rightarrow> (LP_ENCODING_INT e, length e) | EleNone \<Rightarrow> (LP_ENCODING_STRING, 0))
   = (case ele of EleStr s \<Rightarrow> fst (lpEncodeGetType s) | EleInt e \<Rightarrow> LP_ENCODING_INT e | EleNone \<Rightarrow> LP_ENCODING_STRING,
      length (ele_bytes ele))"
  by (simp add: ele_bytes_def lpEncodeGetType_eq split: lp_ele.splits option.splits)

lemma ele_write:
  assumes "ele \<noteq> EleNone" "length G = length (ele_bytes ele)" "off = length A"
  shows "(case (case ele of EleStr s \<Rightarrow> fst (lpEncodeGetType s) | EleInt e \<Rightarrow> LP_ENCODING_INT e | EleNone \<Rightarrow> LP_ENCODING_STRING)
     of LP_ENCODING_INT e \<Rightarrow> wr_n (A @ G @ C) off e
      | LP_ENCODING_STRING \<Rightarrow> (case ele of EleStr s \<Rightarrow> lpEncodeString (A @ G @ C) off s | _ \<Rightarrow> None))
    = Some (A @ ele_bytes ele @ C)"
proof (cases ele)
  case (EleStr s)
  show ?thesis
  proof (cases "lpStringToInt64 s")
    case None
    then show ?thesis using EleStr assms lpEncodeString_at [of G s off A C]
      by (simp add: lpEncodeGetType_eq ele_bytes_def lp_encode_def)
  next
    case (Some v)
    then show ?thesis using EleStr assms wr_n_at [of off A "lp_encode s" G C]
      by (simp add: lpEncodeGetType_eq ele_bytes_def)
  qed
qed (use assms wr_n_at [of off A _ G C] in \<open>auto simp: ele_bytes_def\<close>)


lemma lp_elem_ele: "ele \<noteq> EleNone \<Longrightarrow> ele_ok ele \<Longrightarrow> length (ele_bytes ele) < 2 ^ 32 \<Longrightarrow> lp_elem (ele_bytes ele)"
proof (cases ele)
  case (EleStr s)
  assume "ele_ok ele" "length (ele_bytes ele) < 2 ^ 32"
  show ?thesis
  proof (cases "lpStringToInt64 s")
    case None
    then have "length (enc_str s) < 2 ^ 32"
      using EleStr \<open>length (ele_bytes ele) < 2 ^ 32\<close> by (simp add: ele_bytes_def lp_encode_def)
    then have "length s < 2 ^ 32 - 5" by (simp add: enc_str_def split: if_splits)
    then show ?thesis using EleStr lp_elem_encode by (simp add: ele_bytes_def)
  qed (use EleStr in \<open>simp add: ele_bytes_def lp_encode_def lp_elem_int\<close>)
qed (auto simp: ele_ok_def ele_bytes_def)

text \<open>The part of \<open>lpInsert\<close> after the position is fixed: element bytes and back length are written
  into the gap between the elements before and after.\<close>

lemma lpInsert_store_eq:
  assumes "ele \<noteq> EleNone" "length G = length (lp_block (ele_bytes ele))"
  shows "lpInsert_store (lp_raw t n (X @ G @ C)) ele
      (case ele of EleStr s \<Rightarrow> fst (lpEncodeGetType s) | EleInt e \<Rightarrow> LP_ENCODING_INT e | EleNone \<Rightarrow> LP_ENCODING_STRING)
      (6 + length X) (length (ele_bytes ele)) (lpEncodeBacklen (length (ele_bytes ele)))
    = Some (lp_raw t n (X @ lp_block (ele_bytes ele) @ C))"
proof -
  define H where "H = le_bytes 4 (int t) @ le_bytes 2 (int n) @ X"
  have H: "length H = 6 + length X" "lp_raw t n (X @ Y) = H @ Y" for Y by (simp_all add: H_def lp_raw_def)
  define m where "m = length (ele_bytes ele)"
  define G1 G2 where "G1 = take m G" and "G2 = drop m G"
  have G: "G = G1 @ G2" "length G1 = m" "length G2 = length (lpEncodeBacklen m)"
    using assms(2) by (simp_all add: G1_def G2_def m_def lp_block_def)
  have w: "wr_n (H @ ele_bytes ele @ G2 @ C) (6 + length X + m) (lpEncodeBacklen m) = Some (H @ ele_bytes ele @ lpEncodeBacklen m @ C)"
    using wr_n_at [of "6 + length X + m" "H @ ele_bytes ele" "lpEncodeBacklen m" G2 C] G H(1) by (simp add: m_def)
  have *: "X @ G @ C = X @ (G1 @ G2 @ C)" by (simp add: G(1))
  show ?thesis
    unfolding lpInsert_store_def * H(2) ele_write [OF assms(1) G(2) [unfolded m_def] H(1) [symmetric]] Option.bind.bind_lunit
      m_def [symmetric] w by (simp add: lp_block_def m_def)
qed

lemma lpInsert_header_eq:
  assumes "n < 65536" "del \<Longrightarrow> 0 < n"
  shows "lpInsert_header (lp_raw t n r) whr del m = Some (lp_raw m
    (if (whr \<noteq> LP_REPLACE \<or> del) \<and> n \<noteq> 65535 then if del then n - 1 else n + 1 else n) r)"
proof -
  have "lpSetNumElements (lp_raw t n r) (int n + 1) = Some (lp_raw t (n + 1) r)"
    using lp_raw_set_num [of t n r "n + 1"] by (simp add: add.commute)
  moreover have "del \<Longrightarrow> lpSetNumElements (lp_raw t n r) (int n - 1) = Some (lp_raw t (n - 1) r)"
    using lp_raw_set_num [of t n r "n - 1"] assms(2) by (simp add: of_nat_diff)
  ultimately show ?thesis using assms(1)
    by (auto simp: lpInsert_header_def lp_raw_num lp_raw_set_total)
qed

lemma lpInsert_before:
  assumes "ele \<noteq> EleNone" "ele_ok ele" "lp_num_ok num (xs @ ys)" "lp_off (xs @ ys) + 1 < 2 ^ 32"
  shows "if lp_off (xs @ ele_bytes ele # ys) + 1 < 2 ^ 32
    then \<exists>num' pad'. lpInsert junk (lp_mk num (xs @ ys) pad) ele (lp_off xs) LP_BEFORE =
        Some (Some (lp_mk num' (xs @ ele_bytes ele # ys) pad', Some (lp_off xs))) \<and> lp_num_ok num' (xs @ ele_bytes ele # ys)
    else lpInsert junk (lp_mk num (xs @ ys) pad) ele (lp_off xs) LP_BEFORE = Some None"
proof -
  define e where "e = ele_bytes ele"
  define old_bytes where "old_bytes = lp_off (xs @ ys) + 1"
  define k where "k = length e + length (lpEncodeBacklen (length e))"
  define new_bytes where "new_bytes = old_bytes + k"
  define lp where "lp = lp_mk num (xs @ ys) pad"
  have new: "new_bytes = lp_off (xs @ e # ys) + 1"
    by (simp add: new_bytes_def old_bytes_def k_def lp_off_append lp_block_def)
  have tot: "lpGetTotalBytes lp = Some old_bytes" unfolding lp_def old_bytes_def by (rule lp_mk_total [OF assms(4)])
  have pre: "lpInsert junk lp ele (lp_off xs) LP_BEFORE =
    (if new_bytes > 2 ^ 32 - 1 then Some None else do {
       lp \<leftarrow> lpInsert_room junk lp LP_BEFORE (lp_off xs) k 0 old_bytes new_bytes;
       lp \<leftarrow> lpInsert_store lp ele
         (case ele of EleStr s \<Rightarrow> fst (lpEncodeGetType s) | EleInt e \<Rightarrow> LP_ENCODING_INT e | EleNone \<Rightarrow> LP_ENCODING_STRING)
         (lp_off xs) (length e) (lpEncodeBacklen (length e));
       lp \<leftarrow> lpInsert_header lp LP_BEFORE False new_bytes;
       Some (Some (lp, Some (lp_off xs))) })"
    unfolding lpInsert_def ele_enclen e_def [symmetric] Let_def using assms(1) tot
    by (simp add: new_bytes_def k_def add.assoc)
  show ?thesis
  proof (cases "lp_off (xs @ e # ys) + 1 < 2 ^ 32")
    case False
    then show ?thesis using pre new unfolding lp_def e_def by simp
  next
    case True
    define T where "T = lp_body ys @ [LP_EOF]"
    have raw: "lp = lp_raw old_bytes num (lp_body xs @ [] @ T @ pad)"
      by (simp add: lp_def lp_mk_raw old_bytes_def T_def)
    have off: "lp_off xs = 6 + length (lp_body xs)" by (simp add: lp_off_def)
    have num: "num < 65536" using assms(3) by (auto simp: lp_num_ok_def)
    obtain G R where G: "length G = k"
      "lpInsert_room junk lp LP_BEFORE (6 + length (lp_body xs)) k 0 old_bytes new_bytes
        = Some (lp_raw old_bytes num (lp_body xs @ G @ T @ R))"
      using lpInsert_room_eq [OF _ _ raw, of old_bytes new_bytes k LP_BEFORE 0 junk]
      by (auto simp: old_bytes_def new_bytes_def off T_def lp_off_append)
    have st: "lpInsert_store (lp_raw old_bytes num (lp_body xs @ G @ T @ R)) ele
        (case ele of EleStr s \<Rightarrow> fst (lpEncodeGetType s) | EleInt e \<Rightarrow> LP_ENCODING_INT e | EleNone \<Rightarrow> LP_ENCODING_STRING)
        (lp_off xs) (length e) (lpEncodeBacklen (length e))
      = Some (lp_raw old_bytes num (lp_body xs @ lp_block e @ T @ R))"
      unfolding e_def off using assms(1) G(1) by (intro lpInsert_store_eq) (simp_all add: k_def e_def lp_block_def)
    define num' where "num' = (if num \<noteq> 65535 then num + 1 else num)"
    have "lpInsert junk lp ele (lp_off xs) LP_BEFORE = Some (Some (lp_mk num' (xs @ e # ys) R, Some (lp_off xs)))"
      unfolding pre G(2) [folded off] Option.bind.bind_lunit st
      using True new num lpInsert_header_eq [of num False old_bytes "lp_body xs @ lp_block e @ T @ R" LP_BEFORE new_bytes]
      by (simp add: num'_def lp_mk_raw T_def)
    moreover have "lp_num_ok num' (xs @ e # ys)" using assms(3) by (auto simp: lp_num_ok_def num'_def)
    ultimately show ?thesis using True unfolding lp_def e_def by auto
  qed
qed


lemma lpInsert_after:
  assumes "ele \<noteq> EleNone" "lp_elem b" "lp_off (xs @ b # ys) + 1 < 2 ^ 32"
  shows "lpInsert junk (lp_mk num (xs @ b # ys) pad) ele (lp_off xs) LP_AFTER =
    lpInsert junk (lp_mk num (xs @ b # ys) pad) ele (lp_off (xs @ [b])) LP_BEFORE"
proof -
  have "lp_off (xs @ [b]) < lp_off (xs @ b # ys) + 1" "6 \<le> lp_off (xs @ [b])"
    by (simp_all add: lp_off_def)
  then have "ASSERT_INTEGRITY (lp_mk num (xs @ b # ys) pad) (lp_off (xs @ [b])) = Some ()"
    using lp_mk_total [OF assms(3), of num pad] by (simp add: ASSERT_INTEGRITY_def)
  then show ?thesis using assms(1) lp_mk_skip [OF assms(2), of num xs ys pad]
    by (simp add: lpInsert_def del: lp_off_simps)
qed

text \<open>Replacing and deleting share the size of the old block.\<close>

lemma lp_mk_replaced:
  assumes "lp_elem b" "lp_off (xs @ b # ys) + 1 < 2 ^ 32"
  shows "do { r \<leftarrow> lpCurrentEncodedSizeUnsafe (lp_mk num (xs @ b # ys) pad) (lp_off xs);
      let r = (r + lpEncodeBacklenBytes r) mod 2 ^ 32;
      ASSERT_INTEGRITY_LEN (lp_mk num (xs @ b # ys) pad) (lp_off xs) r;
      Some r } = Some (length (lp_block b))"
proof -
  have "lp_off xs + length (lp_block b) < lp_off (xs @ b # ys) + 1" "6 \<le> lp_off xs" "length (lp_block b) < 2 ^ 32"
    using assms(2) by (simp_all add: lp_off_def)
  then show ?thesis using lp_mk_total [OF assms(2), of num pad]
    by (simp add: lp_mk_size [OF assms(1)] ASSERT_INTEGRITY_LEN_def length_lp_block)
qed

lemma lpInsert_replace:
  assumes "ele \<noteq> EleNone" "lp_elem b" "lp_num_ok num (xs @ b # ys)" "lp_off (xs @ b # ys) + 1 < 2 ^ 32"
  shows "if lp_off (xs @ ele_bytes ele # ys) + 1 < 2 ^ 32
    then \<exists>num' pad'. lpInsert junk (lp_mk num (xs @ b # ys) pad) ele (lp_off xs) LP_REPLACE =
        Some (Some (lp_mk num' (xs @ ele_bytes ele # ys) pad', Some (lp_off xs))) \<and> lp_num_ok num' (xs @ ele_bytes ele # ys)
    else lpInsert junk (lp_mk num (xs @ b # ys) pad) ele (lp_off xs) LP_REPLACE = Some None"
proof -
  define e where "e = ele_bytes ele"
  define old_bytes where "old_bytes = lp_off (xs @ b # ys) + 1"
  define k where "k = length e + length (lpEncodeBacklen (length e))"
  define r where "r = length (lp_block b)"
  define new_bytes where "new_bytes = old_bytes + k - r"
  define lp where "lp = lp_mk num (xs @ b # ys) pad"
  have new: "new_bytes = lp_off (xs @ e # ys) + 1"
    by (simp add: new_bytes_def old_bytes_def k_def r_def lp_off_append lp_block_def)
  have tot: "lpGetTotalBytes lp = Some old_bytes" unfolding lp_def old_bytes_def by (rule lp_mk_total [OF assms(4)])
  have pre: "lpInsert junk lp ele (lp_off xs) LP_REPLACE =
    (if new_bytes > 2 ^ 32 - 1 then Some None else do {
       lp \<leftarrow> lpInsert_room junk lp LP_REPLACE (lp_off xs) k r old_bytes new_bytes;
       lp \<leftarrow> lpInsert_store lp ele
         (case ele of EleStr s \<Rightarrow> fst (lpEncodeGetType s) | EleInt e \<Rightarrow> LP_ENCODING_INT e | EleNone \<Rightarrow> LP_ENCODING_STRING)
         (lp_off xs) (length e) (lpEncodeBacklen (length e));
       lp \<leftarrow> lpInsert_header lp LP_REPLACE False new_bytes;
       Some (Some (lp, Some (lp_off xs))) })"
    using assms(1) tot lp_mk_replaced [OF assms(2,4), of num pad, folded r_def lp_def, unfolded Let_def]
    unfolding lpInsert_def ele_enclen e_def [symmetric] Let_def
    by (simp add: new_bytes_def k_def add.assoc)
  show ?thesis
  proof (cases "lp_off (xs @ e # ys) + 1 < 2 ^ 32")
    case False
    then show ?thesis using pre new unfolding lp_def e_def by simp
  next
    case True
    define T where "T = lp_body ys @ [LP_EOF]"
    have raw: "lp = lp_raw old_bytes num (lp_body xs @ lp_block b @ T @ pad)"
      by (simp add: lp_def lp_mk_raw old_bytes_def T_def)
    have off: "lp_off xs = 6 + length (lp_body xs)" by (simp add: lp_off_def)
    have num: "num < 65536" using assms(3) by (auto simp: lp_num_ok_def)
    obtain G R where G: "length G = k"
      "lpInsert_room junk lp LP_REPLACE (6 + length (lp_body xs)) k r old_bytes new_bytes
        = Some (lp_raw old_bytes num (lp_body xs @ G @ T @ R))"
      using lpInsert_room_eq [OF _ _ raw, of old_bytes new_bytes k LP_REPLACE r junk]
      by (auto simp: old_bytes_def new_bytes_def off T_def lp_off_append r_def)
    have st: "lpInsert_store (lp_raw old_bytes num (lp_body xs @ G @ T @ R)) ele
        (case ele of EleStr s \<Rightarrow> fst (lpEncodeGetType s) | EleInt e \<Rightarrow> LP_ENCODING_INT e | EleNone \<Rightarrow> LP_ENCODING_STRING)
        (lp_off xs) (length e) (lpEncodeBacklen (length e))
      = Some (lp_raw old_bytes num (lp_body xs @ lp_block e @ T @ R))"
      unfolding e_def off using assms(1) G(1) by (intro lpInsert_store_eq) (simp_all add: k_def e_def lp_block_def)
    have "lpInsert junk lp ele (lp_off xs) LP_REPLACE = Some (Some (lp_mk num (xs @ e # ys) R, Some (lp_off xs)))"
      unfolding pre G(2) [folded off] Option.bind.bind_lunit st
      using True new num lpInsert_header_eq [of num False old_bytes "lp_body xs @ lp_block e @ T @ R" LP_REPLACE new_bytes]
      by (simp add: lp_mk_raw T_def)
    moreover have "lp_num_ok num (xs @ e # ys)" using assms(3) by (auto simp: lp_num_ok_def)
    ultimately show ?thesis using True unfolding lp_def e_def by auto
  qed
qed

lemma lpInsert_delete:
  assumes "\<forall>b \<in> set (b # ys). lp_elem b" "lp_num_ok num (xs @ b # ys)" "lp_off (xs @ b # ys) + 1 < 2 ^ 32"
  shows "\<exists>num' pad'. lpInsert junk (lp_mk num (xs @ b # ys) pad) EleNone (lp_off xs) whr =
        Some (Some (lp_mk num' (xs @ ys) pad', if ys = [] then None else Some (lp_off xs))) \<and> lp_num_ok num' (xs @ ys)"
proof -
  define old_bytes where "old_bytes = lp_off (xs @ b # ys) + 1"
  define r where "r = length (lp_block b)"
  define new_bytes where "new_bytes = old_bytes - r"
  define lp where "lp = lp_mk num (xs @ b # ys) pad"
  define T where "T = lp_body ys @ [LP_EOF]"
  have b: "lp_elem b" using assms(1) by simp
  have new: "new_bytes = lp_off (xs @ ys) + 1" "new_bytes \<le> old_bytes"
    by (simp_all add: new_bytes_def old_bytes_def r_def lp_off_append)
  have tot: "lpGetTotalBytes lp = Some old_bytes" unfolding lp_def old_bytes_def by (rule lp_mk_total [OF assms(3)])
  have le: "\<not> old_bytes - r > 2 ^ 32 - 1" using assms(3) by (simp add: old_bytes_def)
  have pre: "lpInsert junk lp EleNone (lp_off xs) whr = do {
       lp \<leftarrow> lpInsert_room junk lp LP_REPLACE (lp_off xs) 0 r old_bytes new_bytes;
       newp \<leftarrow> do { b \<leftarrow> rd lp (lp_off xs); Some (if b = LP_EOF then None else Some (lp_off xs)) };
       lp \<leftarrow> lpInsert_header lp LP_REPLACE True new_bytes;
       Some (Some (lp, newp)) }"
    using tot lp_mk_replaced [OF b assms(3), of num pad, folded r_def lp_def, unfolded Let_def] le
    unfolding lpInsert_def Let_def
    by (simp add: new_bytes_def)
  have raw: "lp = lp_raw old_bytes num (lp_body xs @ lp_block b @ T @ pad)"
    by (simp add: lp_def lp_mk_raw old_bytes_def T_def)
  have off: "lp_off xs = 6 + length (lp_body xs)" by (simp add: lp_off_def)
  have num: "num < 65536" "0 < num" using assms(2) by (auto simp: lp_num_ok_def)
  obtain G R where G: "length G = 0"
    "lpInsert_room junk lp LP_REPLACE (6 + length (lp_body xs)) 0 r old_bytes new_bytes
      = Some (lp_raw old_bytes num (lp_body xs @ G @ T @ R))"
    using lpInsert_room_eq [OF _ _ raw, of old_bytes new_bytes 0 LP_REPLACE r junk]
    by (auto simp: old_bytes_def new_bytes_def off T_def lp_off_append r_def)
  have rdT: "rd (lp_raw old_bytes num (lp_body xs @ T @ R)) (lp_off xs) = Some (case ys of [] \<Rightarrow> LP_EOF | b # _ \<Rightarrow> hd b)"
  proof -
    have "rd (lp_mk num (xs @ ys) R) (lp_off xs) = Some (case ys of [] \<Rightarrow> LP_EOF | b # _ \<Rightarrow> hd b)"
      using assms(1) by (intro lp_mk_rd_next) simp
    then show ?thesis by (simp add: lp_mk_raw T_def off rd_lp_raw)
  qed
  have hd: "(case ys of [] \<Rightarrow> LP_EOF | b # _ \<Rightarrow> hd b) = LP_EOF \<longleftrightarrow> ys = []"
    using assms(1) lp_elem_hd by (cases ys) auto
  define num' where "num' = (if num \<noteq> 65535 then num - 1 else num)"
  have "lpInsert junk lp EleNone (lp_off xs) whr =
      Some (Some (lp_mk num' (xs @ ys) R, if ys = [] then None else Some (lp_off xs)))"
    unfolding pre G(2) [folded off] Option.bind.bind_lunit
    using G(1) rdT hd num new lpInsert_header_eq [of num True old_bytes "lp_body xs @ T @ R" LP_REPLACE new_bytes]
    by (simp add: num'_def lp_mk_raw T_def del: LP_EOF_def)
  moreover have "lp_num_ok num' (xs @ ys)" using assms(2) by (auto simp: lp_num_ok_def num'_def)
  ultimately show ?thesis unfolding lp_def by blast
qed


subsection \<open>Refinement of list operations\<close>

definition abs_insert :: "u8 list list \<Rightarrow> nat \<Rightarrow> lp_where \<Rightarrow> u8 list \<Rightarrow> u8 list list" where
  "abs_insert bs i whr e =
     (case whr of LP_BEFORE \<Rightarrow> take i bs @ e # drop i bs
      | LP_AFTER \<Rightarrow> take (Suc i) bs @ e # drop (Suc i) bs
      | LP_REPLACE \<Rightarrow> bs[i := e])"

lemma lp_repr_mk:
  assumes "lp_repr lp bs"
  obtains num pad where "lp = lp_mk num bs pad" "lp_num_ok num bs" "lp_off bs + 1 < 2 ^ 32" "\<forall>b \<in> set bs. lp_elem b"
  using assms by (auto simp: lp_repr_def)

lemma lp_repr_mkI:
  "lp_num_ok num bs \<Longrightarrow> lp_off bs + 1 < 2 ^ 32 \<Longrightarrow> \<forall>b \<in> set bs. lp_elem b \<Longrightarrow> lp_repr (lp_mk num bs pad) bs"
  by (auto simp: lp_repr_def)

lemma length_ele_bytes: "lp_off (xs @ e # ys) + 1 < 2 ^ 32 \<Longrightarrow> length e < 2 ^ 32"
  by (simp add: lp_off_append length_lp_block)

lemma lpInsert_repr:
  assumes "lp_repr lp bs" "ele \<noteq> EleNone" "ele_ok ele" "i \<le> length bs" "whr \<noteq> LP_BEFORE \<Longrightarrow> i < length bs"
    and "bs' = abs_insert bs i whr (ele_bytes ele)"
  shows "if lp_off bs' + 1 < 2 ^ 32
    then \<exists>lp'. lpInsert junk lp ele (lp_off (take i bs)) whr =
        Some (Some (lp', Some (lp_off (take (if whr = LP_AFTER then Suc i else i) bs')))) \<and> lp_repr lp' bs'
    else lpInsert junk lp ele (lp_off (take i bs)) whr = Some None"
proof -
  define e where "e = ele_bytes ele"
  obtain num pad where r: "lp = lp_mk num bs pad" "lp_num_ok num bs" "lp_off bs + 1 < 2 ^ 32" "\<forall>b \<in> set bs. lp_elem b"
    using assms(1) by (rule lp_repr_mk)
  have el: "lp_off (xs @ e # ys) + 1 < 2 ^ 32 \<Longrightarrow> lp_elem e" for xs ys
    unfolding e_def using assms(2,3) length_ele_bytes by (intro lp_elem_ele)
  have set': "b \<in> set (take j bs) \<Longrightarrow> lp_elem b" "b \<in> set (drop j bs) \<Longrightarrow> lp_elem b" for b j
    using r(4) by (auto dest: in_set_takeD in_set_dropD)
  have ins: "if lp_off (take j bs @ e # drop j bs) + 1 < 2 ^ 32
    then \<exists>lp'. lpInsert junk lp ele (lp_off (take j bs)) LP_BEFORE =
        Some (Some (lp', Some (lp_off (take j bs)))) \<and> lp_repr lp' (take j bs @ e # drop j bs)
    else lpInsert junk lp ele (lp_off (take j bs)) LP_BEFORE = Some None" for j
    using lpInsert_before [OF assms(2,3), of num "take j bs" "drop j bs" junk pad] r el set'
    by (auto simp: e_def [symmetric] split: if_splits intro!: lp_repr_mkI)
  show ?thesis
  proof (cases whr)
    case LP_BEFORE
    then show ?thesis using ins [of i] assms(4) unfolding assms(6) abs_insert_def e_def [symmetric] by simp
  next
    case LP_AFTER
    then have i: "i < length bs" using assms(5) by simp
    then have bs: "bs = take i bs @ bs ! i # drop (Suc i) bs" "take (Suc i) bs = take i bs @ [bs ! i]"
      by (simp_all add: id_take_nth_drop take_Suc_conv_app_nth)
    have "lpInsert junk lp ele (lp_off (take i bs)) LP_AFTER = lpInsert junk lp ele (lp_off (take (Suc i) bs)) LP_BEFORE"
      using lpInsert_after [OF assms(2), of "bs ! i" "take i bs" "drop (Suc i) bs" junk num pad] r i
      unfolding bs(2) by (simp add: bs(1) [symmetric] del: lp_off_simps)
    with ins [of "Suc i"] LP_AFTER i show ?thesis unfolding assms(6) abs_insert_def e_def [symmetric] by simp
  next
    case LP_REPLACE
    then have i: "i < length bs" using assms(5) by simp
    then have bs: "bs = take i bs @ bs ! i # drop (Suc i) bs" "bs[i := e] = take i bs @ e # drop (Suc i) bs"
      by (simp_all add: id_take_nth_drop upd_conv_take_nth_drop)
    have bi: "lp_elem (bs ! i)" "lp_num_ok num (take i bs @ bs ! i # drop (Suc i) bs)"
      "lp_off (take i bs @ bs ! i # drop (Suc i) bs) + 1 < 2 ^ 32"
      using r i unfolding bs(1) [symmetric] by simp_all
    have "if lp_off (take i bs @ e # drop (Suc i) bs) + 1 < 2 ^ 32
      then \<exists>num' pad'. lpInsert junk lp ele (lp_off (take i bs)) LP_REPLACE =
          Some (Some (lp_mk num' (take i bs @ e # drop (Suc i) bs) pad', Some (lp_off (take i bs)))) \<and>
          lp_num_ok num' (take i bs @ e # drop (Suc i) bs)
      else lpInsert junk lp ele (lp_off (take i bs)) LP_REPLACE = Some None"
      using lpInsert_replace [OF assms(2) bi(1) bi(2,3), of junk pad] unfolding r(1) e_def bs(1) [symmetric] .
    then show ?thesis using LP_REPLACE assms(6) el set' i
      unfolding abs_insert_def e_def [symmetric] bs(2)
      by (auto simp: bs(2) split: if_splits intro!: lp_repr_mkI)
  qed
qed


lemma lpDelete_repr:
  assumes "lp_repr lp bs" "i < length bs"
  shows "\<exists>lp'. lpDelete junk lp (lp_off (take i bs)) =
     Some (Some (lp', if Suc i < length bs then Some (lp_off (take i bs)) else None)) \<and>
     lp_repr lp' (take i bs @ drop (Suc i) bs)"
proof -
  obtain num pad where r: "lp = lp_mk num bs pad" "lp_num_ok num bs" "lp_off bs + 1 < 2 ^ 32" "\<forall>b \<in> set bs. lp_elem b"
    using assms(1) by (rule lp_repr_mk)
  have bs: "bs = take i bs @ bs ! i # drop (Suc i) bs" using assms(2) by (rule id_take_nth_drop)
  have el: "\<forall>b \<in> set (bs ! i # drop (Suc i) bs). lp_elem b" "\<forall>b \<in> set (take i bs @ drop (Suc i) bs). lp_elem b"
    using r(4) assms(2) by (auto dest: in_set_takeD in_set_dropD)
  obtain num' pad' where "lpInsert junk lp EleNone (lp_off (take i bs)) LP_REPLACE =
      Some (Some (lp_mk num' (take i bs @ drop (Suc i) bs) pad', if drop (Suc i) bs = [] then None else Some (lp_off (take i bs))))"
    "lp_num_ok num' (take i bs @ drop (Suc i) bs)"
    using lpInsert_delete [OF el(1), of num "take i bs" junk pad LP_REPLACE] r(1-3) unfolding bs [symmetric] by blast
  moreover have "lp_off (take i bs @ drop (Suc i) bs) \<le> lp_off bs"
    by (subst (3) bs) (simp add: lp_off_append)
  ultimately show ?thesis using r(3) el(2) unfolding lpDelete_def
    by (auto intro!: lp_repr_mkI)
qed

lemma lpNew_repr: "\<exists>lp. lpNew junk capacity = Some lp \<and> lp_repr lp []"
proof -
  define m where "m = (if capacity > LP_HDR_SIZE + 1 then capacity else LP_HDR_SIZE + 1)"
  define M where "M = re_alloc junk m []"
  have M: "length M = m" "7 \<le> m" by (simp_all add: M_def m_def)
  obtain A B x P where P: "M = A @ B @ x # P" "length A = 4" "length B = 2"
  proof -
    obtain x P where "drop 2 (drop 4 M) = x # P" using M by (cases "drop 2 (drop 4 M)") auto
    then have "M = take 4 M @ take 2 (drop 4 M) @ x # P" by (metis append_take_drop_id)
    then show thesis using that [of "take 4 M" "take 2 (drop 4 M)" x P] M by simp
  qed
  have "lpSetTotalBytes M (int LP_HDR_SIZE + 1) = Some (le_bytes 4 7 @ B @ x # P)"
    using P wr_n_at [of 0 "[]" "le_bytes 4 7" A "B @ x # P"] by (simp add: lpSetTotalBytes_def)
  moreover have "lpSetNumElements (le_bytes 4 7 @ B @ x # P) 0 = Some (le_bytes 4 7 @ le_bytes 2 0 @ x # P)"
    unfolding lpSetNumElements_def by (rule wr_n_at) (simp_all add: P)
  moreover have "wr (le_bytes 4 7 @ le_bytes 2 0 @ x # P) LP_HDR_SIZE LP_EOF = Some (le_bytes 4 7 @ le_bytes 2 0 @ LP_EOF # P)"
    using wr_at [of LP_HDR_SIZE "le_bytes 4 7 @ le_bytes 2 0" x P LP_EOF] by simp
  moreover have "le_bytes 4 7 @ le_bytes 2 0 @ LP_EOF # P = lp_mk 0 [] P" by (simp add: lp_mk_def)
  ultimately have "lpNew junk capacity = Some (lp_mk 0 [] P)" unfolding lpNew_def Let_def m_def [symmetric] M_def [symmetric] by simp
  then show ?thesis by (auto simp: lp_num_ok_def intro!: lp_repr_mkI)
qed


lemma lp_repr_total: "lp_repr lp bs \<Longrightarrow> lpGetTotalBytes lp = Some (lp_off bs + 1)"
  by (metis lp_mk_total lp_repr_mk)

lemma lpAppend_repr:
  assumes "lp_repr lp bs" "length s < 2 ^ 32"
  shows "if lp_off (bs @ [lp_encode s]) + 1 < 2 ^ 32
    then \<exists>lp'. lpAppend junk lp s = Some (Some lp') \<and> lp_repr lp' (bs @ [lp_encode s])
    else lpAppend junk lp s = Some None"
  using lpInsert_repr [OF assms(1), of "EleStr s" "length bs" LP_BEFORE "bs @ [lp_encode s]" junk] assms(2)
    lp_repr_total [OF assms(1)]
  by (auto simp: lpAppend_def ele_ok_def ele_bytes_def abs_insert_def split: if_splits simp del: lp_off_simps)

lemma lpAppendInteger_repr:
  assumes "lp_repr lp bs"
  shows "if lp_off (bs @ [lpEncodeIntegerGetType v]) + 1 < 2 ^ 32
    then \<exists>lp'. lpAppendInteger junk lp v = Some (Some lp') \<and> lp_repr lp' (bs @ [lpEncodeIntegerGetType v])
    else lpAppendInteger junk lp v = Some None"
  using lpInsert_repr [OF assms(1), of "EleInt (lpEncodeIntegerGetType v)" "length bs" LP_BEFORE "bs @ [lpEncodeIntegerGetType v]" junk]
    lp_repr_total [OF assms(1)]
  by (auto simp: lpAppendInteger_def lpInsertInteger_def ele_ok_def ele_bytes_def abs_insert_def lp_elem_int
      split: if_splits simp del: lp_off_simps)

lemma lp_repr_first: "lp_repr lp bs \<Longrightarrow> lpFirst lp = Some (if bs = [] then None else Some (lp_off []))"
  by (metis lp_mk_first lp_repr_mk)

lemma lpPrepend_repr:
  assumes "lp_repr lp bs" "length s < 2 ^ 32"
  shows "if lp_off (lp_encode s # bs) + 1 < 2 ^ 32
    then \<exists>lp'. lpPrepend junk lp s = Some (Some lp') \<and> lp_repr lp' (lp_encode s # bs)
    else lpPrepend junk lp s = Some None"
proof (cases bs)
  case Nil
  then show ?thesis using lpAppend_repr [OF assms, of junk] lp_repr_first [OF assms(1)]
    by (auto simp: lpPrepend_def split: if_splits)
next
  case (Cons b ys)
  then show ?thesis
    using lpInsert_repr [OF assms(1), of "EleStr s" 0 LP_BEFORE "lp_encode s # bs" junk] assms(2) lp_repr_first [OF assms(1)]
    by (auto simp: lpPrepend_def ele_ok_def ele_bytes_def abs_insert_def split: if_splits)
qed

lemma lpReplace_repr:
  assumes "lp_repr lp bs" "length s < 2 ^ 32" "i < length bs"
  shows "if lp_off (bs[i := lp_encode s]) + 1 < 2 ^ 32
    then \<exists>lp'. lpReplace junk lp (lp_off (take i bs)) s = Some (Some (lp', Some (lp_off (take i bs)))) \<and>
      lp_repr lp' (bs[i := lp_encode s])
    else lpReplace junk lp (lp_off (take i bs)) s = Some None"
  using lpInsert_repr [OF assms(1), of "EleStr s" i LP_REPLACE "bs[i := lp_encode s]" junk] assms(2,3)
  by (auto simp: lpReplace_def ele_ok_def ele_bytes_def abs_insert_def split: if_splits)

end
