(* ===== verification/Listpack_Search.thy ===== *)
theory Listpack_Search
  imports Listpack_Values
begin

unbundle bit_operations_syntax

text \<open>
  Searching a listpack (\<open>lpFind\<close>) and validating one of unknown origin (\<open>lpValidateIntegrity\<close>).
\<close>

subsection \<open>Search\<close>

lemma lp_load_bounds: "lp_load b i n = Some v \<Longrightarrow> 0 \<le> v \<and> v < 256 ^ n"
proof -
  assume "lp_load b i n = Some v"
  then obtain bs where bs: "rd_n b (i + 1) n = Some bs" "v = le_uint bs" by (auto simp: lp_load_def bind_eq_Some_conv)
  then have "length bs = n" by (simp add: rd_n_eq_Some)
  with le_uint_bounds [of bs] bs(2) show ?thesis by simp
qed

lemma lp_elem_int_range:
  assumes "lp_elem b" "lpGetWithBuf b 0 None = Some (LpInt v)"
  shows "LLONG_MIN \<le> v \<and> v \<le> LLONG_MAX"
proof -
  obtain x where x: "rd b 0 = Some x" using assms(2) by (auto simp: lpGetWithBuf_def bind_eq_Some_conv)
  have x2: "0 \<le> uint (x :: u8)" "uint x < 256" for x using uint_lt2p [of x] by simp_all
  show ?thesis
  proof (cases rule: enc_class_cases [of x])
    case 1
    then show ?thesis using assms(2) x x2 [of "x AND 127"]
      by (auto simp: lpGetWithBuf_def enc_class lp_int_return_None split: if_splits)
  next
    case 3
    then obtain y where "rd b 1 = Some y" using assms(2) x by (auto simp: lpGetWithBuf_def enc_class bind_eq_Some_conv)
    then show ?thesis using 3 assms(2) x x2 [of "x AND 31"] x2 [of y]
      by (auto simp: lpGetWithBuf_def enc_class lp_int_return_None split: if_splits intro: order_trans [of _ "0::int"])
  next
    case 10
    then show ?thesis using assms(2) x x2 [of x]
      by (auto simp: lpGetWithBuf_def enc_class lp_int_return_None split: if_splits)
  next
    case 6
    then show ?thesis using assms(2) x lp_load_bounds [of b 0 2]
      by (auto simp: lpGetWithBuf_def enc_class bind_eq_Some_conv lp_int_return_None split: if_splits)
  next
    case 7
    then show ?thesis using assms(2) x lp_load_bounds [of b 0 3]
      by (auto simp: lpGetWithBuf_def enc_class bind_eq_Some_conv lp_int_return_None split: if_splits)
  next
    case 8
    then show ?thesis using assms(2) x lp_load_bounds [of b 0 4]
      by (auto simp: lpGetWithBuf_def enc_class bind_eq_Some_conv lp_int_return_None split: if_splits)
  next
    case 9
    then show ?thesis using assms(2) x lp_load_bounds [of b 0 8]
      by (auto simp: lpGetWithBuf_def enc_class bind_eq_Some_conv lp_int_return_None split: if_splits)
  qed (use assms(2) x in \<open>auto simp: lpGetWithBuf_def enc_class bind_eq_Some_conv lp_int_return_None split: if_splits\<close>)
qed


text \<open>The reference: skip \<open>c\<close> elements, then compare every \<open>skip + 1\<close>-th with \<open>s\<close>.\<close>

fun find_from :: "u8 list \<Rightarrow> nat \<Rightarrow> nat \<Rightarrow> u8 list list \<Rightarrow> nat option" where
  "find_from s skip c [] = None"
| "find_from s skip 0 (b # bs) = (if lp_str b = s then Some 0 else map_option Suc (find_from s skip skip bs))"
| "find_from s skip (Suc c) (b # bs) = map_option Suc (find_from s skip c bs)"

definition find_arg_ok :: "u8 list \<Rightarrow> lpFindArg \<Rightarrow> bool" where
  "find_arg_ok s a \<longleftrightarrow> fa_s a = s \<and>
     (fa_vencoding a = 0 \<or> fa_vencoding a = 255 \<and> string2ll s = None \<or> fa_vencoding a = 1 \<and> string2ll s = Some (fa_vll a))"

lemma get_size_ctx:
  assumes "lpGetWithSize b 0 None es = Some (r, n)"
  shows "lpGetWithSize (A @ b @ C) (length A) None es = Some (shift_got (length A) r, n)"
proof -
  obtain x where x: "rd b 0 = Some x" using assms by (auto simp: lpGetWithSize_def bind_eq_Some_conv)
  note x' = rd_ctx [OF x, of A C, simplified]
  note ctx = x x' str_len_ctx [of b 0 _ A C, simplified] lp_load_ctx [of b 0 _ _ A C, simplified]
    rd_ctx [of b 1 _ A C, simplified]
  show ?thesis
    by (cases rule: enc_class_cases [of x])
      (use assms ctx in \<open>auto simp: lpGetWithSize_def enc_class bind_eq_Some_conv lp_int_return_None shift_got_def\<close>)
qed

lemma lp_mk_get:
  assumes "lp_elem b"
  obtains v where "\<And>es. lpGetWithSize (lp_mk num (xs @ b # ys) pad) (lp_off xs) None es = Some (v, length (lp_block b))"
    "case v of LpStr off n \<Rightarrow> rd_n (lp_mk num (xs @ b # ys) pad) off n = Some (lp_str b) \<and> length (lp_str b) = n
       | LpInt i \<Rightarrow> lp_str b = ll_str i \<and> LLONG_MIN \<le> i \<and> i \<le> LLONG_MAX | LpBuf _ _ \<Rightarrow> False"
proof -
  obtain H C where H: "lp_mk num (xs @ b # ys) pad = H @ b @ C" "length H = lp_off xs" by (rule lp_mk_at)
  obtain r where r: "lpGetWithBuf b 0 None = Some r" "\<And>es. lpGetWithSize b 0 None es = Some (r, length (lp_block b))"
    "case r of LpStr off n \<Rightarrow> off + n = length b | LpInt _ \<Rightarrow> True | LpBuf _ _ \<Rightarrow> False"
    using lp_elem_cases [OF assms] by blast
  have 1: "lpGetWithSize (H @ b @ C) (length H) None es = Some (shift_got (length H) r, length (lp_block b))" for es
    by (rule get_size_ctx [OF r(2)])
  show thesis
  proof (rule that [of "shift_got (length H) r"])
    show "lpGetWithSize (lp_mk num (xs @ b # ys) pad) (lp_off xs) None es = Some (shift_got (length H) r, length (lp_block b))" for es
      using 1 H by simp
    show "case shift_got (length H) r of LpStr off n \<Rightarrow> rd_n (lp_mk num (xs @ b # ys) pad) off n = Some (lp_str b) \<and> length (lp_str b) = n
       | LpInt i \<Rightarrow> lp_str b = ll_str i \<and> LLONG_MIN \<le> i \<and> i \<le> LLONG_MAX | LpBuf _ _ \<Rightarrow> False"
    proof (cases r)
      case (LpStr off n)
      then have "rd_n b off n = Some (take n (drop off b))" using r(3) by (simp add: rd_n_def)
      from rd_n_ctx [OF this, of H C] LpStr r H show ?thesis by (simp add: shift_got_def lp_str_def lp_val_def)
    qed (use r lp_elem_int_range [OF assms] in \<open>auto simp: shift_got_def lp_str_def lp_val_def\<close>)
  qed
qed


lemma lpFindCmp_eq:
  assumes "find_arg_ok s a" "case v of LpStr off n \<Rightarrow> rd_n lp off n = Some t \<and> length t = n
       | LpInt i \<Rightarrow> t = ll_str i \<and> LLONG_MIN \<le> i \<and> i \<le> LLONG_MAX | LpBuf _ _ \<Rightarrow> False"
  obtains a' where "lpFindCmp lp a p v = Some (a', t = s)" "find_arg_ok s a'"
proof (cases v)
  case (LpStr off n)
  then have "lpFindCmp lp a p v = Some (a, t = s)"
    using assms by (cases "length t = length s") (auto simp: lpFindCmp_def find_arg_ok_def)
  then show thesis using assms(1) that by blast
next
  case (LpInt i)
  then have i: "t = ll_str i" "LLONG_MIN \<le> i" "i \<le> LLONG_MAX" using assms(2) by simp_all
  have eq: "string2ll s = Some i \<longleftrightarrow> t = s" using string2ll_canonical [OF i(2,3)] string2ll_sound [of s i] i(1) by auto
  have long: "length s \<ge> 32 \<or> length s = 0 \<Longrightarrow> string2ll s = None" by (auto simp: string2ll_def LONG_STR_SIZE_def)
  define a' where "a' =
      (if fa_vencoding a = 0 then
         if length (fa_s a) \<ge> 32 \<or> length (fa_s a) = 0 then a\<lparr>fa_vencoding := 255\<rparr>
         else (case lpStringToInt64 (fa_s a) of None \<Rightarrow> a\<lparr>fa_vencoding := 255\<rparr>
               | Some l \<Rightarrow> a\<lparr>fa_vencoding := 1, fa_vll := l\<rparr>)
       else a)"
  have "find_arg_ok s a'" "(fa_vencoding a' \<noteq> 255 \<and> i = fa_vll a') = (string2ll s = Some i)"
    using assms(1) long by (auto simp: a'_def find_arg_ok_def lpStringToInt64_eq split: option.splits)
  then show thesis using that [of a'] LpInt eq by (simp add: lpFindCmp_def a'_def [symmetric])
qed (use assms in auto)

lemma lp_mk_validate_eof:
  assumes "lp_off xs + 1 < 2 ^ 32"
  shows "lpAssertValidEntry (lp_mk num xs pad) (lp_off xs + 1) (lp_off xs) = Some ()"
  using lp_mk_eof [of num xs pad] by (simp add: lpAssertValidEntry_def lpValidateNext_def OUT_OF_RANGE_def lp_off_def)

lemma lp_mk_step_ok:
  assumes "\<forall>b \<in> set ys. lp_elem b" "lp_off (xs @ ys) + 1 < 2 ^ 32"
  shows "(if lp_off xs + 8 \<ge> lp_off (xs @ ys) + 1
      then lpAssertValidEntry (lp_mk num (xs @ ys) pad) (lp_off (xs @ ys) + 1) (lp_off xs)
      else chk (lp_off xs \<ge> LP_HDR_SIZE \<and> lp_off xs < lp_off (xs @ ys) + 1)) = Some ()"
proof (cases ys)
  case Nil
  then show ?thesis using lp_mk_validate_eof [of xs num pad] assms(2) by simp
next
  case (Cons b zs)
  then have "lpAssertValidEntry (lp_mk num (xs @ ys) pad) (lp_off (xs @ ys) + 1) (lp_off xs) = Some ()"
    using lp_mk_assert [of b xs zs num pad] assms by simp
  moreover have "lp_off xs \<ge> LP_HDR_SIZE" "lp_off xs < lp_off (xs @ ys) + 1" by (simp_all add: lp_off_def)
  ultimately show ?thesis by simp
qed

lemma lpFind_loop_eq:
  assumes "\<forall>b \<in> set zs. lp_elem b" "lp_off zs + 1 < 2 ^ 32" and lp: "lp = lp_mk num zs pad"
  shows "xs @ ys = zs \<Longrightarrow> ys \<noteq> [] \<Longrightarrow> find_arg_ok s a \<Longrightarrow>
    lpFind_loop (lpFindCmp lp) skip lp (lp_off zs + 1) (lp_off xs) c es a =
     Some (map_option (\<lambda>j. lp_off (xs @ take j ys)) (find_from s skip c ys))"
proof (induction ys arbitrary: xs c es a)
  case (Cons b ys)
  have b: "lp_elem b" and ys: "\<forall>b \<in> set ys. lp_elem b" using Cons.prems(1) assms(1) by auto
  have z: "zs = xs @ b # ys" "zs = (xs @ [b]) @ ys" using Cons.prems(1) by simp_all
  define q where "q = lp_off (xs @ [b])"
  have q: "q = lp_off xs + length (lp_block b)" "lp_off xs < q" "q < lp_off zs + 1" "6 \<le> lp_off xs"
    unfolding q_def z using b by (auto simp: length_lp_block lpEncodeBacklenBytes_def lp_off_def)
  have ok: "(if q + 8 \<ge> lp_off zs + 1 then lpAssertValidEntry lp (lp_off zs + 1) q
      else chk (q \<ge> LP_HDR_SIZE \<and> q < lp_off zs + 1)) = Some ()"
    using lp_mk_step_ok [OF ys, of "xs @ [b]" num pad] assms(2) unfolding lp q_def z(2) [symmetric] by blast
  have rdq: "rd lp q = Some (case ys of [] \<Rightarrow> LP_EOF | b # _ \<Rightarrow> hd b)"
    using lp_mk_rd_next [OF ys, of num "xs @ [b]" pad] unfolding lp q_def z(2) [symmetric] .
  have step: "do {
         (if q + 8 \<ge> lp_off zs + 1 then lpAssertValidEntry lp (lp_off zs + 1) q
          else chk (q \<ge> LP_HDR_SIZE \<and> q < lp_off zs + 1));
         b \<leftarrow> rd lp q;
         if b = LP_EOF then Some None
         else if lp_off xs < q then lpFind_loop (lpFindCmp lp) skip lp (lp_off zs + 1) q c' es' a'
         else None } = Some (map_option (\<lambda>j. lp_off (xs @ take j (b # ys))) (map_option Suc (find_from s skip c' ys)))"
    if "find_arg_ok s a'" for c' es' a'
  proof (cases ys)
    case Nil
    then show ?thesis unfolding ok rdq by simp
  next
    case (Cons d ds)
    then have "hd d \<noteq> LP_EOF" using ys lp_elem_hd by simp
    then show ?thesis unfolding ok rdq using Cons q(2) Cons.IH [of "xs @ [b]" a' c' es'] z(2) that
      by (simp add: q_def option.map_comp comp_def del: LP_EOF_def lp_off_simps)
  qed
  show ?case
  proof (cases c)
    case 0
    obtain v where v: "lpGetWithSize lp (lp_off xs) None es = Some (v, length (lp_block b))"
      "case v of LpStr off n \<Rightarrow> rd_n lp off n = Some (lp_str b) \<and> length (lp_str b) = n
       | LpInt i \<Rightarrow> lp_str b = ll_str i \<and> LLONG_MIN \<le> i \<and> i \<le> LLONG_MAX | LpBuf _ _ \<Rightarrow> False"
      using lp_mk_get [OF b, of num xs ys pad] unfolding lp z(1) by blast
    obtain a' where a': "lpFindCmp lp a (lp_off xs) v = Some (a', lp_str b = s)" "find_arg_ok s a'"
      using lpFindCmp_eq [OF Cons.prems(3) v(2)] by blast
    have "(case v of LpInt _ \<Rightarrow> Some () | _ \<Rightarrow> chk (lp_off xs \<ge> LP_HDR_SIZE \<and> lp_off xs + length (lp_block b) < lp_off zs + 1)) = Some ()"
      using v(2) q by (auto split: lp_got.splits)
    then show ?thesis using 0 v(1) a' step [OF a'(2), of skip "length (lp_block b)"]
      by (subst lpFind_loop.simps) (simp add: q(1) [symmetric] del: LP_EOF_def)
  next
    case (Suc c')
    have "lpSkip lp (lp_off xs) = Some q" using lp_mk_skip [OF b, of num xs ys pad] unfolding lp z(1) q_def .
    then show ?thesis using Suc step [OF Cons.prems(3), of c' es]
      by (subst lpFind_loop.simps) (simp del: LP_EOF_def)
  qed
qed simp

lemma lpFind_repr:
  assumes "lp_repr lp bs" "i < length bs"
  shows "lpFind lp (Some (lp_off (take i bs))) s skip =
    Some (map_option (\<lambda>j. lp_off (take (i + j) bs)) (find_from s skip 0 (drop i bs)))"
proof -
  obtain num pad where r: "lp = lp_mk num bs pad" "lp_off bs + 1 < 2 ^ 32" "\<forall>b \<in> set bs. lp_elem b"
    using assms(1) by (auto simp: lp_repr_def)
  have "take i bs @ take j (drop i bs) = take (i + j) bs" for j by (simp add: take_add)
  then show ?thesis
    using lpFind_loop_eq [OF r(3,2,1), of "take i bs" "drop i bs" s "\<lparr>fa_s = s, fa_vencoding = 0, fa_vll = 0\<rparr>" skip 0]
      lp_mk_bytes [OF r(2), of num pad] assms(2) r(1)
    by (simp add: lpFind_def lpFindCbInternal_def find_arg_ok_def)
qed


subsection \<open>Validation of arbitrary bytes\<close>

definition backlen_digits :: "nat \<Rightarrow> nat \<Rightarrow> nat \<Rightarrow> nat \<Rightarrow> nat \<Rightarrow> nat" where
  "backlen_digits a b c d e = a mod 128 + b mod 128 * 2 ^ 7 + c mod 128 * 2 ^ 14 + d mod 128 * 2 ^ 21 + e mod 128 * 2 ^ 28"

lemma backlen_digits: "backlen_digits a b c d e < 2 ^ 35 \<and> backlen_digits a b c d e mod 128 = a mod 128"
proof -
  have "backlen_digits a b c d e = a mod 128 + 128 * (b mod 128 + c mod 128 * 2 ^ 7 + d mod 128 * 2 ^ 14 + e mod 128 * 2 ^ 21)"
    by (simp add: backlen_digits_def algebra_simps)
  then have "backlen_digits a b c d e mod 128 = a mod 128" by (simp only: mod_mult_self2 mod_mod_trivial)
  moreover have "x mod 128 \<le> 127" for x :: nat using mod_less_divisor [of 128 x] by linarith
  then have "backlen_digits a b c d e \<le> 127 + 127 * 2 ^ 7 + 127 * 2 ^ 14 + 127 * 2 ^ 21 + 127 * 2 ^ 28"
    unfolding backlen_digits_def by (intro add_mono mult_le_mono1)
  ultimately show ?thesis by simp
qed

lemma lpDecodeBacklen_total:
  assumes "4 \<le> p" "p < length lp"
  shows "\<exists>v. lpDecodeBacklen lp p = Some v \<and> (v = 2 ^ 64 - 1 \<or> (\<exists>b c d e. v = backlen_digits (unat (lp ! p)) b c d e))"
proof -
  define B where "B = (\<lambda>k. lp ! (p - k))"
  have r: "rd lp p = Some (B 0)" "rd_back lp p 1 = Some (B 1)" "rd_back lp p 2 = Some (B 2)"
    "rd_back lp p 3 = Some (B 3)" "rd_back lp p 4 = Some (B 4)"
    using assms by (simp_all add: B_def rd_back_def rd_def)
  have ex: "\<exists>b' c d e. unat b mod 128 = backlen_digits (unat b) b' c d e"
    "\<exists>b' c d e. unat b mod 128 + unat b1 mod 128 * 2 ^ 7 = backlen_digits (unat b) b' c d e"
    "\<exists>b' c d e. unat b mod 128 + unat b1 mod 128 * 2 ^ 7 + unat b2 mod 128 * 2 ^ 14 = backlen_digits (unat b) b' c d e"
    "\<exists>b' c d e. unat b mod 128 + unat b1 mod 128 * 2 ^ 7 + unat b2 mod 128 * 2 ^ 14 + unat b3 mod 128 * 2 ^ 21 =
      backlen_digits (unat b) b' c d e"
    "\<exists>b' c d e. unat b mod 128 + unat b1 mod 128 * 2 ^ 7 + unat b2 mod 128 * 2 ^ 14 + unat b3 mod 128 * 2 ^ 21 + unat b4 mod 128 * 2 ^ 28 =
      backlen_digits (unat b) b' c d e" for b b1 b2 b3 b4 :: u8
    unfolding backlen_digits_def by (metis add.right_neutral mult_zero_left mod_0)+
  have B0: "lp ! p = B 0" by (simp add: B_def)
  show ?thesis
    unfolding lpDecodeBacklen_def r bind.bind_lunit Let_def and_127 B0
    by (cases "B 0 AND 128 = 0"; cases "B 1 AND 128 = 0"; cases "B 2 AND 128 = 0"; cases "B 3 AND 128 = 0"; cases "B 4 AND 128 = 0")
      (simp_all only: if_True if_False simp_thms option.inject ex)
qed


lemma size_total:
  assumes "p + lpCurrentEncodedSizeBytes (lp ! p) < n" "n \<le> length lp"
  shows "\<exists>e. lpCurrentEncodedSizeUnsafe lp p = Some e"
proof -
  have p: "rd lp p = Some (lp ! p)" using assms by (simp add: rd_def)
  show ?thesis
    by (cases rule: enc_class_cases [of "lp ! p"])
      (use assms p in \<open>simp_all add: lpCurrentEncodedSizeUnsafe_def lpCurrentEncodedSizeBytes_def enc_class
        LP_ENCODING_6BIT_STR_LEN_def LP_ENCODING_12BIT_STR_LEN_def LP_ENCODING_32BIT_STR_LEN_def rd_def rd_n_def\<close>)
qed

lemma lpValidateNext_total:
  assumes "n \<le> length lp"
  shows "lpValidateNext lp pp n \<noteq> None"
proof (cases pp)
  case (Some p)
  show ?thesis
  proof (cases "OUT_OF_RANGE n p \<or> lp ! p = LP_EOF \<or> lpCurrentEncodedSizeBytes (lp ! p) = 0 \<or>
      OUT_OF_RANGE n (p + lpCurrentEncodedSizeBytes (lp ! p))")
    case True
    then show ?thesis using Some assms by (auto simp: lpValidateNext_def OUT_OF_RANGE_def rd_def)
  next
    case False
    then have r: "6 \<le> p" "p < length lp" "p + lpCurrentEncodedSizeBytes (lp ! p) < n" using assms by (auto simp: OUT_OF_RANGE_def)
    obtain e where e: "lpCurrentEncodedSizeUnsafe lp p = Some e" using size_total [OF r(3) assms] by blast
    define q where "q = p + (e + lpEncodeBacklenBytes e)"
    show ?thesis
    proof (cases "OUT_OF_RANGE n q")
      case True
      then show ?thesis using False Some e r by (simp add: lpValidateNext_def rd_def q_def)
    next
      case F2: False
      have "4 \<le> q - 1" "q - 1 < length lp" using F2 r assms by (auto simp: OUT_OF_RANGE_def q_def lpEncodeBacklenBytes_def)
      then obtain v where "lpDecodeBacklen lp (q - 1) = Some v" using lpDecodeBacklen_total by blast
      then show ?thesis using False F2 Some e r by (auto simp add: lpValidateNext_def rd_def q_def Let_def)
    qed
  qed
qed (simp add: lpValidateNext_def)

lemma lpValidateNext_TrueD:
  assumes "lpValidateNext lp (Some p) n = Some (True, Some q)" "n \<le> length lp" "n < 2 ^ 32"
  obtains e where "lpCurrentEncodedSizeUnsafe lp p = Some e" "q = p + (e + lpEncodeBacklenBytes e)" "6 \<le> p" "q < n"
    "lpDecodeBacklen lp (q - 1) = Some e" "lp ! p \<noteq> LP_EOF" "lpCurrentEncodedSizeBytes (lp ! p) \<noteq> 0"
    "p + lpCurrentEncodedSizeBytes (lp ! p) < n" "e mod 128 = unat (lp ! (q - 1)) mod 128"
proof -
  obtain e v where e: "lpCurrentEncodedSizeUnsafe lp p = Some e" "q = p + (e + lpEncodeBacklenBytes e)" "6 \<le> p" "q < n"
    "lpDecodeBacklen lp (q - 1) = Some v" "(v + lpEncodeBacklenBytes e) mod 2 ^ 64 = e + lpEncodeBacklenBytes e"
    "lp ! p \<noteq> LP_EOF" "lpCurrentEncodedSizeBytes (lp ! p) \<noteq> 0" "p + lpCurrentEncodedSizeBytes (lp ! p) < n"
    using assms(1) unfolding lpValidateNext_def Let_def
    by (auto simp: bind_eq_Some_conv OUT_OF_RANGE_def rd_eq_Some simp del: LP_EOF_def split: if_splits)
  have k: "1 \<le> lpEncodeBacklenBytes e" "lpEncodeBacklenBytes e \<le> 5" by (auto simp: lpEncodeBacklenBytes_def)
  have "4 \<le> q - 1" "q - 1 < length lp" using e(2-4) k assms(2) by auto
  then obtain b c d f where "v = 2 ^ 64 - 1 \<or> v = backlen_digits (unat (lp ! (q - 1))) b c d f"
    using lpDecodeBacklen_total [of "q - 1" lp] e(5) by auto
  then have v: "v = 2 ^ 64 - 1 \<or> v < 2 ^ 35 \<and> v mod 128 = unat (lp ! (q - 1)) mod 128" using backlen_digits by auto
  have "v \<noteq> 2 ^ 64 - 1"
  proof
    assume "v = 2 ^ 64 - 1"
    then have "v + lpEncodeBacklenBytes e = (lpEncodeBacklenBytes e - 1) + 2 ^ 64" using k by simp
    then have "(v + lpEncodeBacklenBytes e) mod 2 ^ 64 = (lpEncodeBacklenBytes e - 1) mod 2 ^ 64" by (simp only: mod_add_self2)
    also have "\<dots> = lpEncodeBacklenBytes e - 1" using k by (intro mod_less) simp
    finally show False using e(6) k by linarith
  qed
  then have v': "v < 2 ^ 35" "v mod 128 = unat (lp ! (q - 1)) mod 128" using v by auto
  have "(v + lpEncodeBacklenBytes e) mod 2 ^ 64 = v + lpEncodeBacklenBytes e" using v'(1) k by (intro mod_less) simp
  then have "v = e" using e(6) by linarith
  then show thesis using that e v' by blast
qed


text \<open>The length of a 32-bit string cannot wrap around: the bytes of such a length are no back length.\<close>

lemma str_len_32_wrap:
  assumes "LP_ENCODING_32BIT_STR_LEN lp p = Some n" "2 ^ 32 \<le> 5 + n" "unat (lp ! p) = 240" "e = (5 + n) mod 2 ^ 32"
  shows "e \<le> 4 \<and> e mod 128 \<noteq> unat (lp ! (p + e)) mod 128"
proof -
  obtain bs where bs: "rd_n lp (p + 1) 4 = Some bs" "n = nat (le_uint bs)"
    using assms(1) by (auto simp: LP_ENCODING_32BIT_STR_LEN_def bind_eq_Some_conv)
  then have l: "length bs = 4" "\<And>i. i < 4 \<Longrightarrow> lp ! (p + 1 + i) = bs ! i" by (auto simp: rd_n_eq_Some)
  then obtain b0 b1 b2 b3 where b: "bs = [b0, b1, b2, b3]" by (auto simp: eval_nat_numeral length_Suc_conv)
  have B: "0 \<le> uint (x :: u8)" "uint x \<le> 255" for x using uint_lt2p [of x] by simp_all
  have n: "int n = uint b0 + 256 * (uint b1 + 256 * (uint b2 + 256 * uint b3))"
    using bs(2) B [of b0] B [of b1] B [of b2] B [of b3] by (simp add: b)
  have n': "(4294967296 :: int) \<le> 5 + uint b0 + 256 * uint b1 + 65536 * uint b2 + 16777216 * uint b3"
    using assms(2) n by simp
  have ui: "int (unat x) = uint x" for x :: u8 by simp
  note Bs = B [of b0] B [of b1] B [of b2] B [of b3]
  have "uint b3 = 255" using n' Bs by linarith
  moreover from this have "uint b2 = 255" using n' Bs by linarith
  moreover from calculation have "uint b1 = 255" using n' Bs by linarith
  moreover from calculation have "251 \<le> uint b0" using n' Bs by linarith
  ultimately have ub: "uint b3 = 255" "uint b2 = 255" "uint b1 = 255" "251 \<le> uint b0" by blast+
  then have u: "unat b3 = 255" "unat b2 = 255" "unat b1 = 255" "251 \<le> unat b0" "unat b0 \<le> 255"
    using Bs ui [of b0] ui [of b1] ui [of b2] ui [of b3] by linarith+
  have "int n = uint b0 + (2 ^ 32 - 256)" using n ub by simp
  then have "int (5 + n) = int ((unat b0 - 251) + 2 ^ 32)" using u(4) ui [of b0] by (simp add: of_nat_diff)
  then have "5 + n = (unat b0 - 251) + 2 ^ 32" by (simp only: of_nat_eq_iff)
  then have "e = (unat b0 - 251) mod 2 ^ 32" unfolding assms(4) by (simp only: mod_add_self2)
  also have "\<dots> = unat b0 - 251" using u(5) by (intro mod_less) simp
  finally have e: "e = unat b0 - 251" .
  have lb: "lp ! (p + 1) = b0" "lp ! (p + 2) = b1" "lp ! (p + 3) = b2" "lp ! (p + 4) = b3"
    using l(2) [of 0] l(2) [of 1] l(2) [of 2] l(2) [of 3] by (simp_all add: b numeral_eq_Suc)
  consider "unat b0 = 251" | "unat b0 = 252" | "unat b0 = 253" | "unat b0 = 254" | "unat b0 = 255"
    using u by linarith
  then show ?thesis by cases (use u assms(3) e lb in simp_all)
qed

lemma validated_get:
  assumes "lpValidateNext lp (Some p) n = Some (True, Some q)" "n \<le> length lp" "n < 2 ^ 32"
  shows "\<exists>v. lpGetWithBuf lp p None = Some v \<and>
    (case v of LpStr off len \<Rightarrow> p < off \<and> off + len < q | LpInt _ \<Rightarrow> True | LpBuf _ _ \<Rightarrow> False)"
proof -
  obtain e where e: "lpCurrentEncodedSizeUnsafe lp p = Some e" "q = p + (e + lpEncodeBacklenBytes e)" "6 \<le> p" "q < n"
    "lp ! p \<noteq> LP_EOF" "lpCurrentEncodedSizeBytes (lp ! p) \<noteq> 0"
    "p + lpCurrentEncodedSizeBytes (lp ! p) < n" "e mod 128 = unat (lp ! (q - 1)) mod 128"
    using lpValidateNext_TrueD [OF assms] by metis
  have k: "1 \<le> lpEncodeBacklenBytes e" by (auto simp: lpEncodeBacklenBytes_def)
  have x: "rd lp p = Some (lp ! p)" using e assms(2) by (simp add: rd_def)
  note defs = lpGetWithBuf_def lpCurrentEncodedSizeUnsafe_def lpCurrentEncodedSizeBytes_def enc_class lp_int_return_None
    LP_ENCODING_6BIT_STR_LEN_def LP_ENCODING_12BIT_STR_LEN_def rd_def lp_load_def rd_n_def
  show ?thesis
  proof (cases rule: enc_class_cases [of "lp ! p"])
    case 5
    then obtain m where m: "LP_ENCODING_32BIT_STR_LEN lp p = Some m" "e = (5 + m) mod 2 ^ 32"
      using e(1) x by (auto simp: lpCurrentEncodedSizeUnsafe_def enc_class bind_eq_Some_conv)
    have "5 + m < 2 ^ 32"
    proof (rule ccontr)
      assume "\<not> 5 + m < 2 ^ 32"
      then have w: "e \<le> 4" "e mod 128 \<noteq> unat (lp ! (p + e)) mod 128" using str_len_32_wrap [OF m(1) _ 5 m(2)] by (blast intro: leI)+
      then have "q - 1 = p + e" using e(2) by (simp add: lpEncodeBacklenBytes_def)
      with w e(8) show False by simp
    qed
    then have "e = 5 + m" using m(2) by simp
    then show ?thesis using 5 x m e(2) k by (simp add: lpGetWithBuf_def enc_class)
  next
    case 4
    then show ?thesis using x e k assms(2) by (auto simp: defs)
  next
    case 2
    then show ?thesis using x e k assms(2) by (auto simp: defs)
  qed (use x e k assms(2) in \<open>simp_all add: defs\<close>)
qed


lemma lpValidate_loop_total:
  assumes "\<And>f u p k. cb = Some f \<Longrightarrow> f u p k \<noteq> None" "n \<le> length lp"
  shows "(case pp of None \<Rightarrow> True | Some p \<Rightarrow> p < n) \<Longrightarrow> n < 2 ^ 32 \<Longrightarrow> lpValidate_loop cb lp n numele pp count u \<noteq> None"
  using assms
proof (induction cb lp n numele pp count u rule: lpValidate_loop.induct)
  case (2 cb lp n numele p count u)
  have r: "rd lp p = Some (lp ! p)" using "2.prems" by (simp add: rd_def)
  obtain ok q where v: "lpValidateNext lp (Some p) n = Some (ok, q)" using lpValidateNext_total [OF "2.prems"(4)] by fast
  obtain u' good where c: "(case cb of None \<Rightarrow> Some (u, True) | Some f \<Rightarrow> f u p numele) = Some (u', good)"
    using "2.prems"(3) by (cases cb) (auto simp: not_None_eq, metis not_None_eq surj_pair)
  show ?case
  proof (cases "lp ! p = LP_EOF \<or> \<not> ok \<or> \<not> good")
    case True
    then show ?thesis using r v c by (auto simp del: LP_EOF_def)
  next
    case False
    then have "case q of None \<Rightarrow> True | Some p \<Rightarrow> p < n"
      using v lpValidateNext_TrueD [of lp p n _ thesis] "2.prems" by (auto split: option.splits elim: lpValidateNext_TrueD)
    then have "lpValidate_loop cb lp n numele q (count + 1) u' \<noteq> None"
      using "2.IH" [OF r _ v refl _ c refl] False "2.prems" by blast
    then show ?thesis using r v c False by (simp del: LP_EOF_def)
  qed
qed simp

fun lp_chain :: "u8 list \<Rightarrow> nat \<Rightarrow> nat list \<Rightarrow> bool" where
  "lp_chain lp n [] = False"
| "lp_chain lp n [p] = (rd lp p = Some LP_EOF)"
| "lp_chain lp n (p # q # ps) = (lpValidateNext lp (Some p) n = Some (True, Some q) \<and> lp_chain lp n (q # ps))"

lemma lpValidate_loop_chain:
  assumes "n \<le> length lp" "n < 2 ^ 32"
  shows "lpValidate_loop None lp n numele (Some p) count u = Some (Some (Some e, c), u') \<Longrightarrow>
    \<exists>ps. lp_chain lp n (p # ps) \<and> last (p # ps) = e \<and> c = count + length ps"
proof (induction "n - p" arbitrary: p count rule: less_induct)
  case less
  obtain b where b: "rd lp p = Some b" using less.prems by (auto simp: bind_eq_Some_conv)
  show ?case
  proof (cases "b = LP_EOF")
    case True
    then show ?thesis using b less.prems by (intro exI [of _ "[]"]) auto
  next
    case False
    obtain ok q where q: "lpValidateNext lp (Some p) n = Some (ok, q)" using lpValidateNext_total [OF assms(1)] by fast
    have ok: "ok" using less.prems False b q by (cases ok) (simp_all del: LP_EOF_def)
    have l: "lpValidate_loop None lp n numele q (count + 1) u = Some (Some (Some e, c), u')"
      using less.prems False b q ok by (simp del: LP_EOF_def)
    then obtain q' where q': "q = Some q'" by (cases q) auto
    have "p < q'" "q' < n" using q ok unfolding q' by (auto elim: lpValidateNext_TrueD [OF _ assms] dest: lpValidateNext_gt)
    then obtain ps where "lp_chain lp n (q' # ps)" "last (q' # ps) = e" "c = count + 1 + length ps"
      using less.hyps [of q' "count + 1"] l unfolding q' by (metis diff_less_mono2 order.strict_trans)
    then show ?thesis using q q' ok by (intro exI [of _ "q' # ps"]) simp
  qed
qed

lemma lp_chain_nth:
  "lp_chain lp n ps \<Longrightarrow> Suc i < length ps \<Longrightarrow> lpValidateNext lp (Some (ps ! i)) n = Some (True, Some (ps ! Suc i))"
proof (induction ps arbitrary: i rule: lp_chain.induct)
  case (3 lp n p q ps)
  then show ?case by (cases i) auto
qed auto

lemma lp_chain_last: "lp_chain lp n ps \<Longrightarrow> ps \<noteq> [] \<and> rd lp (last ps) = Some LP_EOF"
  by (induction lp n ps rule: lp_chain.induct) auto

lemma lp_chain_rd:
  assumes "lp_chain lp n ps" "i < length ps" "n \<le> length lp" "n < 2 ^ 32"
  shows "rd lp (ps ! i) = Some LP_EOF \<longleftrightarrow> Suc i = length ps"
proof (cases "Suc i = length ps")
  case True
  then show ?thesis using lp_chain_last [OF assms(1)] by (metis diff_Suc_1 last_conv_nth)
next
  case False
  then have "lp ! (ps ! i) \<noteq> LP_EOF"
    using lpValidateNext_TrueD [OF lp_chain_nth [OF assms(1)] assms(3,4)] assms(2) by (metis Suc_lessI)
  with False show ?thesis by (simp add: rd_eq_Some del: LP_EOF_def)
qed


lemma validated_step:
  assumes c: "lp_chain lp n ps" and i: "Suc i < length ps" and n: "n \<le> length lp" "n < 2 ^ 32" "lpGetTotalBytes lp = Some n"
  shows "lpNext lp (ps ! i) = Some (if Suc (Suc i) = length ps then None else Some (ps ! Suc i))"
    and "lpPrev lp (ps ! Suc i) = Some (Some (ps ! i))"
proof -
  note v = lp_chain_nth [OF c i]
  obtain e where e: "lpCurrentEncodedSizeUnsafe lp (ps ! i) = Some e" "ps ! Suc i = ps ! i + (e + lpEncodeBacklenBytes e)"
    "6 \<le> ps ! i" "ps ! Suc i < n" "lpDecodeBacklen lp (ps ! Suc i - 1) = Some e"
    using lpValidateNext_TrueD [OF v n(1,2)] by metis
  have sk: "lpSkip lp (ps ! i) = Some (ps ! Suc i)" using e(1,2) by (simp add: lpSkip_def)
  obtain b where b: "rd lp (ps ! Suc i) = Some b" using e(4) n(1) by (auto simp: rd_def)
  have eof: "b = LP_EOF \<longleftrightarrow> Suc (Suc i) = length ps" using lp_chain_rd [OF c i n(1,2)] b by simp
  show "lpNext lp (ps ! i) = Some (if Suc (Suc i) = length ps then None else Some (ps ! Suc i))"
  proof (cases "Suc (Suc i) = length ps")
    case False
    then have "lpAssertValidEntry lp n (ps ! Suc i) = Some ()"
      using lp_chain_nth [OF c, of "Suc i"] i by (simp add: lpAssertValidEntry_def)
    with False show ?thesis using sk b eof n(3) by (simp add: lpNext_def lpBytes_def del: LP_EOF_def)
  qed (use sk b eof in \<open>simp add: lpNext_def del: LP_EOF_def\<close>)
  have k: "1 \<le> lpEncodeBacklenBytes e" "lpEncodeBacklenBytes e \<le> 5" by (auto simp: lpEncodeBacklenBytes_def)
  have m: "(e + lpEncodeBacklenBytes e) mod 18446744073709551616 = e + lpEncodeBacklenBytes e"
    using e(2,4) n(2) by (intro mod_less) simp
  have "ps ! Suc i \<noteq> LP_HDR_SIZE" "1 \<le> ps ! Suc i" "e + lpEncodeBacklenBytes e - 1 \<le> ps ! Suc i - 1"
    "ps ! Suc i - 1 - (e + lpEncodeBacklenBytes e - 1) = ps ! i"
    using e(2,3) k by auto
  moreover have "lpAssertValidEntry lp n (ps ! i) = Some ()" using v by (simp add: lpAssertValidEntry_def)
  ultimately show "lpPrev lp (ps ! Suc i) = Some (Some (ps ! i))"
    using e(5) n(3) unfolding lpPrev_def lpBytes_def Let_def by (simp add: m del: LP_HDR_SIZE_def)
qed

lemma lpGetTotalBytes_less: "lpGetTotalBytes lp = Some n \<Longrightarrow> n < 2 ^ 32"
proof -
  assume "lpGetTotalBytes lp = Some n"
  then obtain bs where "rd_n lp 0 4 = Some bs" "n = nat (le_uint bs)" by (auto simp: lpGetTotalBytes_def bind_eq_Some_conv)
  moreover then have "length bs = 4" by (simp add: rd_n_eq_Some)
  ultimately show ?thesis using le_uint_bounds [of bs] by (simp add: nat_less_iff)
qed


lemma lp_mk_validate_loop:
  assumes "\<forall>b \<in> set zs. lp_elem b" "lp_off zs + 1 < 2 ^ 32" and lp: "lp = lp_mk num zs pad"
  shows "xs @ ys = zs \<Longrightarrow>
    lpValidate_loop None lp (lp_off zs + 1) numele (Some (lp_off xs)) count u = Some (Some (Some (lp_off zs), count + length ys), u)"
proof (induction ys arbitrary: xs count)
  case Nil
  then show ?case using lp_mk_rd_next [of "[]" num xs pad] lp by simp
next
  case (Cons b ys)
  have b: "lp_elem b" "hd b \<noteq> LP_EOF" using Cons.prems assms(1) by (auto simp: lp_elem_def)
  have z: "zs = xs @ b # ys" using Cons.prems by simp
  have "lpValidateNext lp (Some (lp_off xs)) (lp_off zs + 1) = Some (True, Some (lp_off (xs @ [b])))"
    using lp_mk_validate [OF b(1), of xs ys num pad] assms(2) unfolding lp z by simp
  moreover have "rd lp (lp_off xs) = Some (hd b)" using lp_mk_rd [OF b(1), of num xs ys pad] unfolding lp z .
  ultimately show ?case using Cons.IH [of "xs @ [b]" "count + 1"] b(2) z by (simp del: LP_EOF_def lp_off_simps)
qed


lemma find_map_Suc: "List.find P (map Suc js) = map_option Suc (List.find (\<lambda>j. P (Suc j)) js)"
  by (induction js) auto

lemma find_from_filter:
  "find_from s skip c bs =
    List.find (\<lambda>j. lp_str (bs ! j) = s) (filter (\<lambda>j. c \<le> j \<and> (j - c) mod (skip + 1) = 0) [0..<length bs])"
proof (induction s skip c bs rule: find_from.induct)
  case (2 s skip b bs)
  have "filter (\<lambda>j. (j - 0) mod (skip + 1) = 0) [0..<length (b # bs)] =
      0 # map Suc (filter (\<lambda>j. skip \<le> j \<and> (j - skip) mod (skip + 1) = 0) [0..<length bs])"
  proof -
    have "(Suc j mod (skip + 1) = 0) = (skip \<le> j \<and> (j - skip) mod (skip + 1) = 0)" for j
    proof (cases "skip \<le> j")
      case True
      then have "Suc j = (j - skip) + (skip + 1)" by simp
      then show ?thesis using True by (metis mod_add_self2)
    qed simp
    then show ?thesis by (simp add: upt_conv_Cons map_Suc_upt [symmetric] filter_map comp_def del: upt_Suc)
  qed
  then show ?case using 2 by (simp add: find_map_Suc comp_def option.map_comp)
next
  case (3 s skip c b bs)
  have "filter (\<lambda>j. Suc c \<le> j \<and> (j - Suc c) mod (skip + 1) = 0) [0..<length (b # bs)] =
      map Suc (filter (\<lambda>j. c \<le> j \<and> (j - c) mod (skip + 1) = 0) [0..<length bs])"
    by (simp add: upt_conv_Cons map_Suc_upt [symmetric] filter_map comp_def del: upt_Suc)
  then show ?case using 3 by (simp add: find_map_Suc comp_def)
qed simp

end
