(* ===== verification/Listpack_Props.thy ===== *)
theory Listpack_Props
  imports Listpack_Edit Listpack_Search
begin

unbundle bit_operations_syntax

text \<open>
  The contract of listpacks and their correctness. The locale \<open>packed_seq\<close> says what the clients rely on: a
  packed block represents a list of elements, appending adds one or is refused without effect when the block
  would be too large, and seeking by index and reading gives the element's value.
\<close>

subsection \<open>The sequence contract\<close>

locale packed_seq =
  fixes repr :: "'l \<Rightarrow> 'e list \<Rightarrow> bool" and fits :: "'e list \<Rightarrow> bool" and enc :: "'s \<Rightarrow> 'e" and storable :: "'s \<Rightarrow> bool"
    and new :: "'l res" and append :: "'l \<Rightarrow> 's \<Rightarrow> 'l ptr res" and seek :: "'l \<Rightarrow> int \<Rightarrow> 'p ptr res"
    and read :: "'l \<Rightarrow> 'p \<Rightarrow> 'v res" and val :: "'e \<Rightarrow> 'v"
  assumes new_ok: "\<exists>l. new = Some l \<and> repr l []"
    and append_ok: "repr l bs \<Longrightarrow> storable s \<Longrightarrow> fits (bs @ [enc s]) \<Longrightarrow>
      \<exists>l'. append l s = Some (Some l') \<and> repr l' (bs @ [enc s])"
    and append_full: "repr l bs \<Longrightarrow> storable s \<Longrightarrow> \<not> fits (bs @ [enc s]) \<Longrightarrow> append l s = Some None"
    and seek_read: "repr l bs \<Longrightarrow> i < length bs \<Longrightarrow> \<exists>p. seek l (int i) = Some (Some p) \<and> read l p = Some (val (bs ! i))"
    and seek_neg: "repr l bs \<Longrightarrow> i < length bs \<Longrightarrow> seek l (int i - int (length bs)) = seek l (int i)"
    and seek_out: "repr l bs \<Longrightarrow> int (length bs) \<le> k \<or> k < - int (length bs) \<Longrightarrow> seek l k = Some None"
    and fits_prefix: "fits (bs @ cs) \<Longrightarrow> fits bs"
begin

fun append_all :: "'l \<Rightarrow> 's list \<Rightarrow> 'l ptr res" where
  "append_all l [] = Some (Some l)"
| "append_all l (s # ss) = do {
     r \<leftarrow> append l s;
     case r of None \<Rightarrow> Some None | Some l \<Rightarrow> append_all l ss }"

lemma append_all_ok:
  assumes "repr l bs" "\<forall>s \<in> set ss. storable s" "fits (bs @ map enc ss)"
  shows "\<exists>l'. append_all l ss = Some (Some l') \<and> repr l' (bs @ map enc ss)"
  using assms
proof (induction ss arbitrary: l bs)
  case (Cons s ss)
  have "fits (bs @ [enc s])" using fits_prefix [of "bs @ [enc s]" "map enc ss"] Cons.prems(3) by simp
  then obtain l' where "append l s = Some (Some l')" "repr l' (bs @ [enc s])"
    using append_ok [OF Cons.prems(1)] Cons.prems(2) by auto
  with Cons.IH [of l' "bs @ [enc s]"] Cons.prems show ?case by auto
qed auto

lemma append_all_read:
  assumes "\<forall>s \<in> set ss. storable s" "fits (map enc ss)"
  shows "\<exists>l l'. new = Some l \<and> append_all l ss = Some (Some l') \<and>
    (\<forall>i. (if i < length ss then \<exists>p. seek l' (int i) = Some (Some p) \<and> read l' p = Some (val (enc (ss ! i)))
          else seek l' (int i) = Some None))"
proof -
  obtain l where l: "new = Some l" "repr l []" using new_ok by blast
  obtain l' where l': "append_all l ss = Some (Some l')" "repr l' (map enc ss)"
    using append_all_ok [OF l(2) assms(1)] assms(2) by auto
  show ?thesis using l(1) l'(1) seek_read [OF l'(2)] seek_out [OF l'(2)] by auto
qed

end

fun lp_append_all :: "(nat \<Rightarrow> u8) \<Rightarrow> u8 list \<Rightarrow> u8 list list \<Rightarrow> u8 list ptr res" where
  "lp_append_all junk lp [] = Some (Some lp)"
| "lp_append_all junk lp (s # ss) = do {
     r \<leftarrow> lpAppend junk lp s;
     case r of None \<Rightarrow> Some None | Some lp \<Rightarrow> lp_append_all junk lp ss }"

lemma lp_repr_seek: "lp_repr lp bs \<Longrightarrow> lpSeek lp i = Some (lp_index bs i)"
  by (metis lp_mk_seek lp_repr_mk)

lemma lp_repr_read:
  assumes "lp_repr lp bs" "i < length bs"
  shows "lp_read lp (lp_off (take i bs)) = Some (lp_val (bs ! i))"
proof -
  obtain num pad where r: "lp = lp_mk num bs pad" "\<forall>b \<in> set bs. lp_elem b" using assms(1) by (rule lp_repr_mk)
  have "bs = take i bs @ bs ! i # drop (Suc i) bs" using assms(2) by (rule id_take_nth_drop)
  then show ?thesis using lp_mk_read [of "bs ! i" num "take i bs" "drop (Suc i) bs" pad] r assms(2) by simp
qed

interpretation lps: packed_seq lp_repr "\<lambda>bs. lp_off bs + 1 < 2 ^ 32" lp_encode "\<lambda>s. length s < 2 ^ 32"
  "lpNew junk capacity" "lpAppend junk" lpSeek lp_read lp_val for junk capacity
proof unfold_locales
  fix lp bs i assume r: "lp_repr lp bs" and i: "i < length bs"
  then show "\<exists>p. lpSeek lp (int i) = Some (Some p) \<and> lp_read lp p = Some (lp_val (bs ! i))"
    using lp_repr_read [OF r i] by (simp add: lp_repr_seek [OF r] lp_index_def)
  show "lpSeek lp (int i - int (length bs)) = lpSeek lp (int i)"
    using i by (simp add: lp_repr_seek [OF r] lp_index_def)
next
  fix bs cs show "lp_off (bs @ cs) + 1 < 2 ^ 32 \<Longrightarrow> lp_off bs + 1 < 2 ^ 32" by (simp add: lp_off_append)
qed (use lpNew_repr lpAppend_repr in \<open>auto simp: lp_repr_seek lp_index_def split: if_splits simp del: lp_off_simps\<close>)

lemma lps_append_all: "lps.append_all junk lp ss = lp_append_all junk lp ss"
  by (induction ss arbitrary: lp) (auto cong: option.case_cong)

subsection \<open>Correctness\<close>

lemma lpValidateIntegrity_repr:
  assumes "lp_repr lp bs" "length lp = lp_off bs + 1"
  shows "lpValidateIntegrity None lp (length lp) deep u = Some (True, u)"
proof -
  obtain num pad where r: "lp = lp_mk num bs pad" "lp_num_ok num bs" "lp_off bs + 1 < 2 ^ 32" "\<forall>b \<in> set bs. lp_elem b"
    using assms(1) by (auto simp: lp_repr_def)
  have "num < 2 ^ 16" using r(2) by (auto simp: lp_num_ok_def)
  then have h: "lpGetTotalBytes lp = Some (lp_off bs + 1)" "lpGetNumElements lp = Some num" "rd lp (lp_off bs) = Some LP_EOF"
    using lp_mk_total [OF r(3)] lp_mk_num [of num bs pad] lp_mk_eof [of num bs pad] r(1) by simp_all
  have "lpValidate_loop None lp (lp_off bs + 1) num (Some LP_HDR_SIZE) 0 u = Some (Some (Some (lp_off bs), length bs), u)"
    using lp_mk_validate_loop [OF r(4,3,1), of "[]" bs num 0 u] by simp
  then show ?thesis using h assms(2) r(2) unfolding lpValidateIntegrity_def lp_num_ok_def
    by (auto simp: lp_off_def simp del: lpValidate_loop.simps LP_EOF_def)
qed

lemmas lp_eval = lp_mk_def lp_off_def lp_body_def lp_block_def lpEncodeBacklen_def lp_num_ok_def

lemma lp_example: "lp_repr [10, 0, 0, 0, 1, 0, 129, 97, 2, 255] [[129, 97]]"
proof -
  have "lp_mk 1 [[129, 97]] [] = [10, 0, 0, 0, 1, 0, 129, 97, 2, 255]" by (simp add: lp_eval eval_nat_numeral)
  moreover have "lp_elem [129, 97]" by code_simp
  moreover have "lp_num_ok 1 [[129, 97]]" "lp_off [[129, 97]] + 1 < 2 ^ 32" by (simp_all add: lp_eval)
  ultimately show ?thesis using lp_repr_mkI [of 1 "[[129, 97]]" "[]"] by simp
qed

text \<open>C7: \<open>lpInsert\<close> refines insertion into a list: on a block that represents \<open>bs\<close>, inserting a string or an
  encoded integer before, after or in place of the \<open>i\<close>-th element gives a block that represents the changed list,
  and the position of the new element; when the result would not fit in the 32-bit size of the header it returns
  NULL. It never accesses memory outside the block.\<close>

theorem lpInsert_refines:
  assumes "lp_repr lp bs" "ele \<noteq> EleNone" "ele_ok ele" "i \<le> length bs" "whr \<noteq> LP_BEFORE \<longrightarrow> i < length bs"
    and "bs' = abs_insert bs i whr (ele_bytes ele)"
  shows "if lp_off bs' + 1 < 2 ^ 32
    then \<exists>lp'. lpInsert junk lp ele (lp_off (take i bs)) whr =
        Some (Some (lp', Some (lp_off (take (if whr = LP_AFTER then Suc i else i) bs')))) \<and> lp_repr lp' bs'
    else lpInsert junk lp ele (lp_off (take i bs)) whr = Some None"
  using lpInsert_repr assms by blast

theorem lpInsert_refines_witness:
  "\<exists>lp'. lpInsert (\<lambda>_. 0) [10, 0, 0, 0, 1, 0, 129, 97, 2, 255] (EleStr [98]) 6 LP_AFTER = Some (Some (lp', Some 9)) \<and>
     lp_repr lp' [[129, 97], [129, 98]]"
proof -
  have e: "abs_insert [[129, 97]] 0 LP_AFTER (ele_bytes (EleStr [98])) = [[129, 97], [129, 98]]" by code_simp
  have o: "lp_off [[129, 97], [129, 98]] + 1 < 2 ^ 32" "lp_off (take 0 [[129, 97]]) = 6"
    "lp_off (take (Suc 0) [[129, 97], [129, 98]]) = 9" by (simp_all add: lp_eval)
  show ?thesis
    using lpInsert_refines [OF lp_example, of "EleStr [98]" 0 LP_AFTER, OF _ _ _ _ e [symmetric], of "\<lambda>_. 0"] o
    by (simp add: ele_ok_def)
qed

text \<open>C8: \<open>lpDelete\<close> refines deletion from a list: the block it returns represents the list without its
  \<open>i\<close>-th element, and the pointer it returns is the position of the following element, or NULL at the end.\<close>

theorem lpDelete_refines:
  assumes "lp_repr lp bs" "i < length bs"
  shows "\<exists>lp'. lpDelete junk lp (lp_off (take i bs)) =
     Some (Some (lp', if Suc i < length bs then Some (lp_off (take i bs)) else None)) \<and>
     lp_repr lp' (take i bs @ drop (Suc i) bs)"
  using lpDelete_repr [OF assms] .

theorem lpDelete_refines_witness:
  "\<exists>lp'. lpDelete (\<lambda>_. 0) [10, 0, 0, 0, 1, 0, 129, 97, 2, 255] 6 = Some (Some (lp', None)) \<and> lp_repr lp' []"
  using lpDelete_refines [OF lp_example, of 0 "\<lambda>_. 0"] by simp

text \<open>C30: Packing strings with \<open>lpNew\<close> and \<open>lpAppend\<close> and reading them back with \<open>lpSeek\<close> and \<open>lpGet\<close> gives every
  string, as the integer it denotes when it is a canonical decimal numeral, and no element past the end.\<close>

theorem lpAppend_lpSeek_roundtrip:
  assumes "\<forall>s \<in> set ss. length s < 2 ^ 32" "lp_off (map lp_encode ss) + 1 < 2 ^ 32"
  shows "\<exists>lp0 lp. lpNew junk capacity = Some lp0 \<and> lp_append_all junk lp0 ss = Some (Some lp) \<and>
    (\<forall>i. if i < length ss
         then \<exists>p. lpSeek lp (int i) = Some (Some p) \<and>
           lp_read lp p = Some (case string2ll (ss ! i) of Some v \<Rightarrow> VInt v | None \<Rightarrow> VStr (ss ! i))
         else lpSeek lp (int i) = Some None)"
  using lps.append_all_read [OF assms, of junk capacity] assms(1) nth_mem lp_val_encode
  unfolding lps_append_all by (metis (no_types, lifting))

theorem lpAppend_lpSeek_roundtrip_witness:
  "\<exists>lp0 lp. lpNew (\<lambda>_. 0) 0 = Some lp0 \<and> lp_append_all (\<lambda>_. 0) lp0 [[97], [52, 50]] = Some (Some lp) \<and>
    (\<exists>p. lpSeek lp 1 = Some (Some p) \<and> lp_read lp p = Some (VInt 42))"
proof -
  have f: "\<forall>s \<in> set [[97 :: u8], [52, 50]]. length s < 2 ^ 32" by simp
  have d: "ll_str 42 = [52, 50]" by code_simp
  have i: "string2ll [52, 50] = Some 42" using string2ll_canonical [of 42] by (simp add: d)
  have "string2ll [97] = None" by (simp add: string2ll_def LONG_STR_SIZE_def)
  then have "map lp_encode [[97 :: u8], [52, 50]] = [[129, 97], [42]]"
    using i by (simp add: lp_encode_def lpStringToInt64_eq enc_str_def lpEncodeIntegerGetType_def)
  then have "lp_off (map lp_encode [[97 :: u8], [52, 50]]) + 1 < 2 ^ 32" by (simp only:) (simp add: lp_eval)
  from lpAppend_lpSeek_roundtrip [OF f this, of "\<lambda>_. 0" 0] obtain lp0 lp where
    l: "lpNew (\<lambda>_. 0) 0 = Some lp0" "lp_append_all (\<lambda>_. 0) lp0 [[97], [52, 50]] = Some (Some lp)"
    and ii: "\<And>i. if i < 2 then \<exists>p. lpSeek lp (int i) = Some (Some p) \<and>
           lp_read lp p = Some (case string2ll ([[97], [52, 50]] ! i) of Some v \<Rightarrow> VInt v | None \<Rightarrow> VStr ([[97], [52, 50]] ! i))
         else lpSeek lp (int i) = Some None"
    by auto
  show ?thesis using ii [of 1] l i by auto
qed

text \<open>C33: \<open>lpFind\<close> returns the first element at a distance divisible by \<open>skip + 1\<close> from the start whose string value is
  the one looked for, whether it is stored as a string or as an integer, and NULL when there is none.\<close>

theorem lpFind_correct:
  assumes "lp_repr lp bs" "i < length bs"
  shows "lpFind lp (Some (lp_off (take i bs))) s skip =
    Some (map_option (\<lambda>j. lp_off (take (i + j) bs))
      (List.find (\<lambda>j. lp_str (bs ! (i + j)) = s) (filter (\<lambda>j. j mod (skip + 1) = 0) [0..<length bs - i])))"
proof -
  have "List.find (\<lambda>j. lp_str (drop i bs ! j) = s) js = List.find (\<lambda>j. lp_str (bs ! (i + j)) = s) js" for js
    using assms(2) by (intro find_cong) auto
  then show ?thesis using lpFind_repr [OF assms, of s skip] by (simp add: find_from_filter)
qed

theorem lpFind_correct_witness: "lpFind [10, 0, 0, 0, 1, 0, 129, 97, 2, 255] (Some 6) [97] 1 = Some (Some 6)"
proof -
  have "lp_str [129, 97] = [97]" by code_simp
  then show ?thesis using lpFind_correct [OF lp_example, of 0 "[97]" 1] by simp
qed

text \<open>C34: \<open>lpSeek\<close> finds the element at an index counted from the front or, when negative, from the back, and
  \<open>lpLength\<close> is the number of elements, also when the header does not store it; counting leaves the elements
  unchanged.\<close>

theorem lpSeek_lpLength_correct:
  assumes "lp_repr lp bs"
  shows "lpSeek lp i = Some (let j = (if i < 0 then int (length bs) + i else i)
      in if 0 \<le> j \<and> j < int (length bs) then Some (lp_off (take (nat j) bs)) else None) \<and>
    (\<exists>lp'. lpLength lp = Some (length bs, lp') \<and> lp_repr lp' bs)"
proof
  show "lpSeek lp i = Some (let j = (if i < 0 then int (length bs) + i else i)
      in if 0 \<le> j \<and> j < int (length bs) then Some (lp_off (take (nat j) bs)) else None)"
    using lp_repr_seek [OF assms, of i] by (simp add: lp_index_def)
  show "\<exists>lp'. lpLength lp = Some (length bs, lp') \<and> lp_repr lp' bs"
    using lp_mk_length lp_repr_mk [OF assms] lp_repr_mkI by metis
qed

theorem lpSeek_lpLength_witness: "lpSeek [10, 0, 0, 0, 1, 0, 129, 97, 2, 255] (- 1) = Some (Some 6)"
proof -
  show ?thesis using lpSeek_lpLength_correct [OF lp_example, of "- 1"] by simp
qed

text \<open>C31: \<open>lpValidateIntegrity\<close> never reads outside the block it is given and always returns, whatever
  the bytes are, at both levels of checking and with every callback that itself returns.\<close>

theorem lpValidateIntegrity_safe:
  assumes "\<forall>f u p k. entry_cb = Some f \<longrightarrow> f u p k \<noteq> None"
  shows "lpValidateIntegrity entry_cb lp (length lp) deep u \<noteq> None"
proof (cases "length lp < 7")
  case False
  obtain n where n1: "lpGetTotalBytes lp = Some n" using False by (auto simp: lpGetTotalBytes_def rd_n_def)
  note n = n1 lpGetTotalBytes_less [OF n1]
  obtain k where k: "lpGetNumElements lp = Some k" using False by (auto simp: lpGetNumElements_def rd_n_def)
  have "lpValidate_loop entry_cb lp n k (Some 6) 0 u \<noteq> None" if "n = length lp"
    using lpValidate_loop_total [of entry_cb n lp "Some 6"] assms that n(2) False by auto
  then show ?thesis
    using False n k unfolding lpValidateIntegrity_def
    by (auto simp: rd_def split: option.splits simp del: lpValidate_loop.simps)
qed (simp add: lpValidateIntegrity_def)

theorem lpValidateIntegrity_safe_witness:
  "lpValidateIntegrity None [9, 0, 0, 0, 1, 0, 240, 255, 255] 9 True () \<noteq> None"
proof -
  have l: "length [9, 0, 0, 0, 1, 0, 240, 255, 255 :: u8] = 9" by simp
  show ?thesis using lpValidateIntegrity_safe [of None "[9, 0, 0, 0, 1, 0, 240, 255, 255]" True "()", unfolded l] by simp
qed

text \<open>C12: A block that \<open>lpValidateIntegrity\<close> accepts at the deep level can be walked safely in both
  directions: there is a chain of positions from the first entry to the terminator such that \<open>lpNext\<close> and
  \<open>lpPrev\<close> step along it without failing an assertion, and the value of every entry lies inside the entry.\<close>

theorem lpValidateIntegrity_traversable:
  assumes "lpValidateIntegrity None lp (length lp) True u = Some (True, u')"
  shows "\<exists>ps. ps \<noteq> [] \<and> hd ps = LP_HDR_SIZE \<and> last ps = length lp - 1 \<and>
    (\<forall>i. Suc i < length ps \<longrightarrow>
       lpNext lp (ps ! i) = Some (if Suc (Suc i) = length ps then None else Some (ps ! Suc i)) \<and>
       lpPrev lp (ps ! Suc i) = Some (Some (ps ! i)) \<and>
       (\<exists>v. lpGetWithBuf lp (ps ! i) None = Some v \<and>
          (case v of LpStr off len \<Rightarrow> ps ! i < off \<and> off + len < ps ! Suc i | LpInt _ \<Rightarrow> True | LpBuf _ _ \<Rightarrow> False)))"
proof -
  obtain k r u1 where n: "lpGetTotalBytes lp = Some (length lp)"
    and l: "lpValidate_loop None lp (length lp) k (Some LP_HDR_SIZE) 0 u = Some (r, u1)"
    and r: "(case r of None \<Rightarrow> Some (False, u1)
            | Some (p, count) \<Rightarrow>
                if p \<noteq> Some (length lp - 1) then Some (False, u1)
                else if k \<noteq> LP_HDR_NUMELE_UNKNOWN \<and> k \<noteq> count then Some (False, u1)
                else Some (True, u1)) = Some (True, u')"
    using assms unfolding lpValidateIntegrity_def
    by (auto simp: bind_eq_Some_conv simp del: lpValidate_loop.simps split: if_splits)
  obtain c where c: "r = Some (Some (length lp - 1), c)" using r by (auto split: option.splits prod.splits if_splits)
  have len: "length lp < 2 ^ 32" by (rule lpGetTotalBytes_less [OF n])
  obtain ps where ps: "lp_chain lp (length lp) (LP_HDR_SIZE # ps)" "last (LP_HDR_SIZE # ps) = length lp - 1"
    using lpValidate_loop_chain [OF order_refl len l [unfolded c]] by blast
  show ?thesis
    using validated_step [OF ps(1) _ order_refl len n] validated_get [OF lp_chain_nth [OF ps(1)] order_refl len] ps(2)
    by (intro exI [of _ "LP_HDR_SIZE # ps"]) (simp del: LP_HDR_SIZE_def)
qed

theorem lpValidateIntegrity_traversable_witness:
  "\<exists>ps. ps \<noteq> [] \<and> hd ps = 6 \<and> last ps = 9 \<and>
    (\<forall>i. Suc i < length ps \<longrightarrow>
       lpPrev [10, 0, 0, 0, 1, 0, 129, 97, 2, 255] (ps ! Suc i) = Some (Some (ps ! i)))"
proof -
  have "length [10, 0, 0, 0, 1, 0, 129, 97, 2, 255 :: u8] = lp_off [[129, 97]] + 1" by (simp add: lp_eval)
  from lpValidateIntegrity_traversable [OF lpValidateIntegrity_repr [OF lp_example this, of True "()"]]
  show ?thesis by auto
qed

text \<open>C32: Every listpack that represents a sequence of elements is accepted by \<open>lpValidateIntegrity\<close>, when
  its allocation is as large as its header says.\<close>

theorem lpValidateIntegrity_accepts:
  assumes "lp_repr lp bs" "length lp = lp_off bs + 1"
  shows "lpValidateIntegrity None lp (length lp) deep u = Some (True, u)"
  using lpValidateIntegrity_repr [OF assms] .

theorem lpValidateIntegrity_accepts_witness:
  "lpValidateIntegrity None [10, 0, 0, 0, 1, 0, 129, 97, 2, 255] 10 True () = Some (True, ())"
proof -
  have l: "length [10, 0, 0, 0, 1, 0, 129, 97, 2, 255 :: u8] = 10" by simp
  show ?thesis using lpValidateIntegrity_accepts [OF lp_example, of True "()", unfolded l] by (simp add: lp_eval)
qed

end
