(* ===== verification/Dict.thy ===== *)
theory Dict
  imports Prelude "HOL-Library.Log_Nat"
begin

unbundle bit_operations_syntax

text \<open>
  Hash tables with incremental rehashing (\<open>dict.c\<close>, \<open>dict.h\<close>).

  A dict has two tables of buckets; while it is rehashing, entries move from table 0 to table 1. A
  \<open>dictEntry *\<close> is a value of \<open>dictEntry\<close>: NULL, a tagged key pointer, or an entry with its next pointer
  (with or without a value field), so a bucket is a chain. \<open>None\<close> as a value field is memory that
  was not yet written. A table pointer is the list of its buckets, \<open>[]\<close> for NULL.

  A key is what \<open>keyCompare\<close> sees of it: two keys are equal in the model when they compare equal, so that
  the hash is a function of the key and \<open>keyDup\<close>, \<open>valDup\<close> and the destructors, which copy and free, have no
  effect on the model. \<open>keyFromStoredKey\<close> is the identity when the callback is NULL. The calls of
  \<open>rehashingStarted\<close>, \<open>rehashingCompleted\<close> and \<open>bucketChanged\<close> are recorded in \<open>calls\<close>. The global variable
  \<open>dict_can_resize\<close> is the argument \<open>can\<close>. \<open>ht_used\<close> is a natural number: the invariant says that it is the number of
  entries, so no decrement wraps around. The product \<open>n*10\<close> of \<open>dictRehash\<close>, an \<open>int\<close> in C, is a natural
  number; it does not overflow for the arguments of up to 1000 that the callers pass.
\<close>

subsection \<open>Types\<close>

datatype ('s, 'v) dictEntry =
    NoEntry
  | KeyPtr 's
  | EntryNoValue "('s, 'v) dictEntry" 's
  | Entry "('s, 'v) dictEntry" 's "'v option"

record ('s, 'k) dictType =
  hashFunction :: "'k \<Rightarrow> u64"
  keyFromStoredKey :: "'s \<Rightarrow> 'k"
  resizeAllowed :: "(nat \<Rightarrow> nat \<times> nat \<Rightarrow> bool) ptr"
  no_value :: bool
  force_full_rehash :: bool

record ('s, 'v) dictht =
  ht_table :: "('s, 'v) dictEntry list"
  ht_used :: nat
  ht_size_exp :: int

datatype dict_call = RehashingStarted nat | RehashingCompleted nat | BucketChanged int

record ('s, 'k, 'v) dict =
  dtype :: "('s, 'k) dictType"
  ht0 :: "('s, 'v) dictht"
  ht1 :: "('s, 'v) dictht"
  rehashidx :: int
  pauserehash :: nat
  pauseAutoResize :: int
  calls :: "dict_call list"

datatype dictResizeEnable = DICT_RESIZE_ENABLE | DICT_RESIZE_AVOID | DICT_RESIZE_FORBID

definition HASHTABLE_MIN_FILL :: nat where [simp]: "HASHTABLE_MIN_FILL = 8"
definition DICT_HT_INITIAL_EXP :: int where [simp]: "DICT_HT_INITIAL_EXP = 2"
definition DICT_HT_INITIAL_SIZE :: nat where [simp]: "DICT_HT_INITIAL_SIZE = 4"
definition dict_force_resize_ratio :: nat where [simp]: "dict_force_resize_ratio = 4"

definition DICTHT_SIZE :: "int \<Rightarrow> nat" where
  "DICTHT_SIZE e = (if e = - 1 then 0 else 2 ^ nat e)"

definition DICTHT_SIZE_MASK :: "int \<Rightarrow> u64" where
  "DICTHT_SIZE_MASK e = (if e = - 1 then 0 else 2 ^ nat e - 1)"

definition dictBuckets :: "('s, 'k, 'v) dict \<Rightarrow> nat" where
  "dictBuckets d = DICTHT_SIZE (ht_size_exp (ht0 d)) + DICTHT_SIZE (ht_size_exp (ht1 d))"

definition dictSize :: "('s, 'k, 'v) dict \<Rightarrow> nat" where
  "dictSize d = ht_used (ht0 d) + ht_used (ht1 d)"

definition dictIsRehashing :: "('s, 'k, 'v) dict \<Rightarrow> bool" where
  "dictIsRehashing d \<longleftrightarrow> rehashidx d \<noteq> - 1"

definition dictPauseRehashing :: "('s, 'k, 'v) dict \<Rightarrow> ('s, 'k, 'v) dict" where
  "dictPauseRehashing d = d\<lparr>pauserehash := pauserehash d + 1\<rparr>"

definition dictResumeRehashing :: "('s, 'k, 'v) dict \<Rightarrow> ('s, 'k, 'v) dict" where
  "dictResumeRehashing d = d\<lparr>pauserehash := pauserehash d - 1\<rparr>"

text \<open>\<open>dictGetHash\<close> and the bucket of a hash in a table of a given size.\<close>

definition dictGetHash :: "('s, 'k, 'v) dict \<Rightarrow> 'k \<Rightarrow> u64" where
  "dictGetHash d key = hashFunction (dtype d) key"

definition slot :: "u64 \<Rightarrow> int \<Rightarrow> nat" where
  "slot hash e = unat (hash AND DICTHT_SIZE_MASK e)"

definition dictStoredKey2Key :: "('s, 'k, 'v) dict \<Rightarrow> 's \<Rightarrow> 'k" where
  "dictStoredKey2Key d s = keyFromStoredKey (dtype d) s"


subsection \<open>Entries\<close>

definition entryIsKey :: "('s, 'v) dictEntry \<Rightarrow> bool" where
  "entryIsKey de = (case de of KeyPtr _ \<Rightarrow> True | _ \<Rightarrow> False)"

definition dictGetNext :: "('s, 'v) dictEntry \<Rightarrow> ('s, 'v) dictEntry res" where
  "dictGetNext de = (case de of NoEntry \<Rightarrow> None | KeyPtr _ \<Rightarrow> Some NoEntry | EntryNoValue n _ \<Rightarrow> Some n | Entry n _ _ \<Rightarrow> Some n)"

definition dictSetNext :: "('s, 'v) dictEntry \<Rightarrow> ('s, 'v) dictEntry \<Rightarrow> ('s, 'v) dictEntry res" where
  "dictSetNext de next =
     (case de of EntryNoValue _ k \<Rightarrow> Some (EntryNoValue next k) | Entry _ k v \<Rightarrow> Some (Entry next k v) | _ \<Rightarrow> None)"

definition dictGetKey :: "('s, 'v) dictEntry \<Rightarrow> 's res" where
  "dictGetKey de = (case de of NoEntry \<Rightarrow> None | KeyPtr k \<Rightarrow> Some k | EntryNoValue _ k \<Rightarrow> Some k | Entry _ k _ \<Rightarrow> Some k)"

definition dictGetVal :: "('s, 'v) dictEntry \<Rightarrow> 'v res" where
  "dictGetVal de = (case de of Entry _ _ v \<Rightarrow> v | _ \<Rightarrow> None)"

definition dictSetVal :: "('s, 'v) dictEntry \<Rightarrow> 'v \<Rightarrow> ('s, 'v) dictEntry res" where
  "dictSetVal de val = (case de of Entry n k _ \<Rightarrow> Some (Entry n k (Some val)) | _ \<Rightarrow> None)"

text \<open>Pointers to entries and links are positions: the table, the bucket, and the number of entries
  before it in the chain. \<open>chain_at\<close> follows the chain and \<open>chain_set\<close> overwrites the entry at a position.\<close>

type_synonym dict_pos = "nat \<times> nat \<times> nat"

fun chain_at :: "('s, 'v) dictEntry \<Rightarrow> nat \<Rightarrow> ('s, 'v) dictEntry res" where
  "chain_at de 0 = Some de"
| "chain_at de (Suc i) = do { n \<leftarrow> dictGetNext de; chain_at n i }"

fun chain_set :: "('s, 'v) dictEntry \<Rightarrow> nat \<Rightarrow> ('s, 'v) dictEntry \<Rightarrow> ('s, 'v) dictEntry res" where
  "chain_set de 0 x = Some x"
| "chain_set de (Suc i) x = do { n \<leftarrow> dictGetNext de; n \<leftarrow> chain_set n i x; dictSetNext de n }"

definition get_ht :: "('s, 'k, 'v) dict \<Rightarrow> nat \<Rightarrow> ('s, 'v) dictht" where
  "get_ht d t = (if t = 0 then ht0 d else ht1 d)"

definition set_ht :: "('s, 'k, 'v) dict \<Rightarrow> nat \<Rightarrow> ('s, 'v) dictht \<Rightarrow> ('s, 'k, 'v) dict" where
  "set_ht d t h = (if t = 0 then d\<lparr>ht0 := h\<rparr> else d\<lparr>ht1 := h\<rparr>)"

definition get_entry :: "('s, 'k, 'v) dict \<Rightarrow> dict_pos \<Rightarrow> ('s, 'v) dictEntry res" where
  "get_entry d p = (case p of (t, i, j) \<Rightarrow> do { b \<leftarrow> rd (ht_table (get_ht d t)) i; chain_at b j })"

definition set_entry :: "('s, 'k, 'v) dict \<Rightarrow> dict_pos \<Rightarrow> ('s, 'v) dictEntry \<Rightarrow> ('s, 'k, 'v) dict res" where
  "set_entry d p x = (case p of (t, i, j) \<Rightarrow> do {
     b \<leftarrow> rd (ht_table (get_ht d t)) i;
     b \<leftarrow> chain_set b j x;
     tbl \<leftarrow> wr (ht_table (get_ht d t)) i b;
     Some (set_ht d t ((get_ht d t)\<lparr>ht_table := tbl\<rparr>)) })"

text \<open>The loop \<open>while(he)\<close> of the lookups: the position in the chain of the first entry with the key.\<close>

fun chain_find :: "('s \<Rightarrow> 'k) \<Rightarrow> 'k \<Rightarrow> ('s, 'v) dictEntry \<Rightarrow> nat ptr" where
  "chain_find f key NoEntry = None"
| "chain_find f key (KeyPtr s) = (if key = f s then Some 0 else None)"
| "chain_find f key (EntryNoValue n s) = (if key = f s then Some 0 else map_option Suc (chain_find f key n))"
| "chain_find f key (Entry n s v) = (if key = f s then Some 0 else map_option Suc (chain_find f key n))"


subsection \<open>Creation and resizing\<close>

definition dictReset :: "('s, 'v) dictht" where
  "dictReset = \<lparr>ht_table = [], ht_used = 0, ht_size_exp = - 1\<rparr>"

definition dictCreate :: "('s, 'k) dictType \<Rightarrow> ('s, 'k, 'v) dict" where
  "dictCreate ty = \<lparr>dtype = ty, ht0 = dictReset, ht1 = dictReset, rehashidx = - 1, pauserehash = 0,
     pauseAutoResize = 0, calls = []\<rparr>"

definition call :: "dict_call \<Rightarrow> ('s, 'k, 'v) dict \<Rightarrow> ('s, 'k, 'v) dict" where
  "call c d = d\<lparr>calls := calls d @ [c]\<rparr>"

text \<open>\<open>__builtin_clzl\<close> of a non-zero 64-bit number.\<close>

definition builtin_clzl :: "nat \<Rightarrow> nat" where
  "builtin_clzl x = 64 - floorlog 2 x"

definition dictNextExp :: "nat \<Rightarrow> int" where
  "dictNextExp sz =
     (if sz \<le> DICT_HT_INITIAL_SIZE then DICT_HT_INITIAL_EXP
      else if sz \<ge> 2 ^ 63 - 1 then 8 * 8 - 1
      else 8 * 8 - int (builtin_clzl (sz - 1)))"

definition rehash_entry :: "nat \<Rightarrow> ('s, 'k, 'v) dict \<Rightarrow> ('s, 'v) dictEntry \<Rightarrow> ('s, 'k, 'v) dict res" where
  "rehash_entry idx d de = do {
     storedKey \<leftarrow> dictGetKey de;
     let h = (if ht_size_exp (ht1 d) > ht_size_exp (ht0 d)
              then slot (dictGetHash d (dictStoredKey2Key d storedKey)) (ht_size_exp (ht1 d))
              else slot (of_nat idx) (ht_size_exp (ht1 d)));
     old \<leftarrow> rd (ht_table (ht1 d)) h;
     de \<leftarrow> (if no_value (dtype d) then
              if old = NoEntry then Some (KeyPtr storedKey)
              else if entryIsKey de then Some (EntryNoValue old storedKey)
              else dictSetNext de old
            else dictSetNext de old);
     tbl \<leftarrow> wr (ht_table (ht1 d)) h de;
     Some (d\<lparr>ht0 := (ht0 d)\<lparr>ht_used := ht_used (ht0 d) - 1\<rparr>,
             ht1 := (ht1 d)\<lparr>ht_table := tbl, ht_used := ht_used (ht1 d) + 1\<rparr>\<rparr>) }"

fun rehash_loop :: "nat \<Rightarrow> ('s, 'k, 'v) dict \<Rightarrow> ('s, 'v) dictEntry \<Rightarrow> ('s, 'k, 'v) dict res" where
  "rehash_loop idx d NoEntry = Some d"
| "rehash_loop idx d (KeyPtr s) = rehash_entry idx d (KeyPtr s)"
| "rehash_loop idx d (EntryNoValue n s) = do { d \<leftarrow> rehash_entry idx d (EntryNoValue n s); rehash_loop idx d n }"
| "rehash_loop idx d (Entry n s v) = do { d \<leftarrow> rehash_entry idx d (Entry n s v); rehash_loop idx d n }"

definition rehashEntriesInBucketAtIndex :: "('s, 'k, 'v) dict \<Rightarrow> nat \<Rightarrow> ('s, 'k, 'v) dict res" where
  "rehashEntriesInBucketAtIndex d idx = do {
     de \<leftarrow> rd (ht_table (ht0 d)) idx;
     d \<leftarrow> rehash_loop idx d de;
     tbl \<leftarrow> wr (ht_table (ht0 d)) idx NoEntry;
     Some (d\<lparr>ht0 := (ht0 d)\<lparr>ht_table := tbl\<rparr>\<rparr>) }"

definition dictCheckRehashingCompleted :: "('s, 'k, 'v) dict \<Rightarrow> ('s, 'k, 'v) dict \<times> bool" where
  "dictCheckRehashingCompleted d =
     (if ht_used (ht0 d) \<noteq> 0 then (d, False)
      else let d = call (RehashingCompleted (DICTHT_SIZE (ht_size_exp (ht0 d)))) d;
               d = call (BucketChanged (- int (DICTHT_SIZE (ht_size_exp (ht0 d))))) d
           in (d\<lparr>ht0 := ht1 d, ht1 := dictReset, rehashidx := - 1\<rparr>, True))"

text \<open>When \<open>dict_can_resize\<close> says to avoid resizing, small changes of the size wait.\<close>

definition rehash_avoided :: "dictResizeEnable \<Rightarrow> ('s, 'k, 'v) dict \<Rightarrow> bool" where
  "rehash_avoided can d \<longleftrightarrow>
     (let s0 = DICTHT_SIZE (ht_size_exp (ht0 d)); s1 = DICTHT_SIZE (ht_size_exp (ht1 d))
      in can = DICT_RESIZE_AVOID \<and>
         (s1 > s0 \<and> s1 < dict_force_resize_ratio * s0 mod 2 ^ 64 \<or>
          s1 < s0 \<and> s0 < HASHTABLE_MIN_FILL * dict_force_resize_ratio * s1 mod 2 ^ 64))"

function rehash_skip :: "('s, 'k, 'v) dict \<Rightarrow> nat \<Rightarrow> (('s, 'k, 'v) dict \<times> nat \<times> bool) res" where
  "rehash_skip d empty_visits = do {
     de \<leftarrow> rd (ht_table (ht0 d)) (nat (rehashidx d));
     if de \<noteq> NoEntry then Some (d, empty_visits, False)
     else let d = d\<lparr>rehashidx := rehashidx d + 1\<rparr>; empty_visits = empty_visits - 1
          in if empty_visits = 0 then Some (d, empty_visits, True) else rehash_skip d empty_visits }"
  by pat_completeness auto
termination
  by (relation "measure snd") auto

fun dictRehash_loop :: "nat \<Rightarrow> nat \<Rightarrow> ('s, 'k, 'v) dict \<Rightarrow> (('s, 'k, 'v) dict \<times> bool) res" where
  "dictRehash_loop 0 empty_visits d = Some (d, False)"
| "dictRehash_loop (Suc n) empty_visits d =
     (if ht_used (ht0 d) = 0 then Some (d, False)
      else do {
        chk (int (DICTHT_SIZE (ht_size_exp (ht0 d))) > rehashidx d);
        (d, empty_visits, stop) \<leftarrow> rehash_skip d empty_visits;
        if stop then Some (d, True)
        else do {
          d \<leftarrow> rehashEntriesInBucketAtIndex d (nat (rehashidx d));
          dictRehash_loop n empty_visits (d\<lparr>rehashidx := rehashidx d + 1\<rparr>) } })"

definition dictRehash :: "dictResizeEnable \<Rightarrow> ('s, 'k, 'v) dict \<Rightarrow> nat \<Rightarrow> (('s, 'k, 'v) dict \<times> bool) res" where
  "dictRehash can d n =
     (if can = DICT_RESIZE_FORBID \<or> \<not> dictIsRehashing d then Some (d, False)
      else if rehash_avoided can d then Some (d, False)
      else do {
        (d, stop) \<leftarrow> dictRehash_loop n (n * 10) d;
        if stop then Some (d, True)
        else let (d, completed) = dictCheckRehashingCompleted d in Some (d, \<not> completed) })"


text \<open>\<open>while (dictRehash(d, 1000)) {}\<close>.\<close>

partial_function (option) dictRehash_all :: "dictResizeEnable \<Rightarrow> ('s, 'k, 'v) dict \<Rightarrow> ('s, 'k, 'v) dict res" where
  "dictRehash_all can d = do { (d, more) \<leftarrow> dictRehash can d 1000; if more then dictRehash_all can d else Some d }"

declare dictRehash_all.simps [code]

text \<open>\<open>_dictResize\<close> returns whether the resize was performed. \<open>try\<close> is None when \<open>malloc_failed\<close> is NULL, else it says
  whether \<open>ztrycalloc\<close> finds the memory; the last component is \<open>*malloc_failed\<close>.\<close>

definition dictResize ::
  "dictResizeEnable \<Rightarrow> ('s, 'k, 'v) dict \<Rightarrow> nat \<Rightarrow> bool ptr \<Rightarrow> (('s, 'k, 'v) dict \<times> bool \<times> bool) res" where
  "dictResize can d sz try = do {
     chk (\<not> dictIsRehashing d);
     let new_exp = dictNextExp sz;
     let newsize = DICTHT_SIZE new_exp;
     if newsize < sz \<or> newsize * 8 mod 2 ^ 64 < newsize then Some (d, False, False)
     else if new_exp = ht_size_exp (ht0 d) then Some (d, False, False)
     else if try = Some False then Some (d, False, True)
     else do {
       let new = \<lparr>ht_table = replicate newsize NoEntry, ht_used = 0, ht_size_exp = new_exp\<rparr>;
       let d = d\<lparr>ht1 := new, rehashidx := 0\<rparr>;
       let d = call (BucketChanged (int (DICTHT_SIZE (ht_size_exp (ht1 d))))) (call (RehashingStarted (DICTHT_SIZE (ht_size_exp (ht0 d)))) d);
       if ht_table (ht0 d) = [] \<or> ht_used (ht0 d) = 0 then
         let d = call (BucketChanged (- int (DICTHT_SIZE (ht_size_exp (ht0 d))))) 
             (call (RehashingCompleted (DICTHT_SIZE (ht_size_exp (ht0 d)))) d)
         in Some (d\<lparr>ht0 := new, ht1 := dictReset, rehashidx := - 1\<rparr>, True, False)
       else do {
         d \<leftarrow> (if force_full_rehash (dtype d) then dictRehash_all can d else Some d);
         Some (d, True, False) } } }"

definition priv_dictExpand ::
  "dictResizeEnable \<Rightarrow> ('s, 'k, 'v) dict \<Rightarrow> nat \<Rightarrow> bool ptr \<Rightarrow> (('s, 'k, 'v) dict \<times> bool \<times> bool) res" where
  "priv_dictExpand can d sz try =
     (if dictIsRehashing d \<or> ht_used (ht0 d) > sz \<or> DICTHT_SIZE (ht_size_exp (ht0 d)) \<ge> sz then Some (d, False, False)
      else dictResize can d sz try)"

definition dictExpand :: "dictResizeEnable \<Rightarrow> ('s, 'k, 'v) dict \<Rightarrow> nat \<Rightarrow> (('s, 'k, 'v) dict \<times> bool) res" where
  "dictExpand can d sz = do { (d, ok, _) \<leftarrow> priv_dictExpand can d sz None; Some (d, ok) }"

definition dictTryExpand :: "dictResizeEnable \<Rightarrow> ('s, 'k, 'v) dict \<Rightarrow> nat \<Rightarrow> bool \<Rightarrow> (('s, 'k, 'v) dict \<times> bool) res" where
  "dictTryExpand can d sz mem = do { (d, _, malloc_failed) \<leftarrow> priv_dictExpand can d sz (Some mem); Some (d, \<not> malloc_failed) }"

definition dictShrink :: "dictResizeEnable \<Rightarrow> ('s, 'k, 'v) dict \<Rightarrow> nat \<Rightarrow> (('s, 'k, 'v) dict \<times> bool) res" where
  "dictShrink can d sz =
     (if dictIsRehashing d \<or> ht_used (ht0 d) > sz \<or> DICTHT_SIZE (ht_size_exp (ht0 d)) \<le> sz then Some (d, False)
      else do { (d, ok, _) \<leftarrow> dictResize can d sz None; Some (d, ok) })"

definition dictTypeResizeAllowed :: "('s, 'k, 'v) dict \<Rightarrow> nat \<Rightarrow> bool" where
  "dictTypeResizeAllowed d sz =
     (case resizeAllowed (dtype d) of None \<Rightarrow> True
      | Some f \<Rightarrow> f (DICTHT_SIZE (dictNextExp sz) * 8 mod 2 ^ 64) (ht_used (ht0 d), DICTHT_SIZE (ht_size_exp (ht0 d))))"

definition dictExpandIfNeeded :: "dictResizeEnable \<Rightarrow> ('s, 'k, 'v) dict \<Rightarrow> (('s, 'k, 'v) dict \<times> bool) res" where
  "dictExpandIfNeeded can d =
     (if dictIsRehashing d then Some (d, True)
      else if DICTHT_SIZE (ht_size_exp (ht0 d)) = 0 then do {
        (d, _) \<leftarrow> dictExpand can d DICT_HT_INITIAL_SIZE; Some (d, True) }
      else if can = DICT_RESIZE_ENABLE \<and> ht_used (ht0 d) \<ge> DICTHT_SIZE (ht_size_exp (ht0 d)) \<or>
              can \<noteq> DICT_RESIZE_FORBID \<and>
              ht_used (ht0 d) \<ge> dict_force_resize_ratio * DICTHT_SIZE (ht_size_exp (ht0 d)) mod 2 ^ 64 then
        if dictTypeResizeAllowed d (ht_used (ht0 d) + 1) then do {
          (d, _) \<leftarrow> dictExpand can d (ht_used (ht0 d) + 1); Some (d, True) }
        else Some (d, True)
      else Some (d, False))"

definition priv_dictExpandIfNeeded :: "dictResizeEnable \<Rightarrow> ('s, 'k, 'v) dict \<Rightarrow> (('s, 'k, 'v) dict \<times> bool) res" where
  "priv_dictExpandIfNeeded can d = (if pauseAutoResize d > 0 then Some (d, False) else dictExpandIfNeeded can d)"

definition dictShrinkIfNeeded :: "dictResizeEnable \<Rightarrow> ('s, 'k, 'v) dict \<Rightarrow> (('s, 'k, 'v) dict \<times> bool) res" where
  "dictShrinkIfNeeded can d =
     (if dictIsRehashing d then Some (d, True)
      else if DICTHT_SIZE (ht_size_exp (ht0 d)) \<le> DICT_HT_INITIAL_SIZE then Some (d, True)
      else if can = DICT_RESIZE_ENABLE \<and>
              ht_used (ht0 d) * HASHTABLE_MIN_FILL mod 2 ^ 64 \<le> DICTHT_SIZE (ht_size_exp (ht0 d)) \<or>
              can \<noteq> DICT_RESIZE_FORBID \<and>
              ht_used (ht0 d) * HASHTABLE_MIN_FILL * dict_force_resize_ratio mod 2 ^ 64 \<le> DICTHT_SIZE (ht_size_exp (ht0 d)) then
        if dictTypeResizeAllowed d (ht_used (ht0 d)) then do {
          (d, _) \<leftarrow> dictShrink can d (ht_used (ht0 d)); Some (d, True) }
        else Some (d, True)
      else Some (d, False))"

definition priv_dictShrinkIfNeeded :: "dictResizeEnable \<Rightarrow> ('s, 'k, 'v) dict \<Rightarrow> ('s, 'k, 'v) dict res" where
  "priv_dictShrinkIfNeeded can d =
     (if pauseAutoResize d > 0 then Some d else do { (d, _) \<leftarrow> dictShrinkIfNeeded can d; Some d })"

definition dictRehashStep :: "dictResizeEnable \<Rightarrow> ('s, 'k, 'v) dict \<Rightarrow> ('s, 'k, 'v) dict res" where
  "dictRehashStep can d =
     (if pauserehash d = 0 then do { (d, _) \<leftarrow> dictRehash can d 1; Some d } else Some d)"

definition dictBucketRehash :: "dictResizeEnable \<Rightarrow> ('s, 'k, 'v) dict \<Rightarrow> nat \<Rightarrow> (('s, 'k, 'v) dict \<times> bool) res" where
  "dictBucketRehash can d idx =
     (if pauserehash d \<noteq> 0 then Some (d, False)
      else if can = DICT_RESIZE_FORBID \<or> \<not> dictIsRehashing d then Some (d, False)
      else if rehash_avoided can d then Some (d, False)
      else do {
        d \<leftarrow> rehashEntriesInBucketAtIndex d idx;
        Some (fst (dictCheckRehashingCompleted d), True) })"

definition dictRehashStepIfNeeded :: "dictResizeEnable \<Rightarrow> ('s, 'k, 'v) dict \<Rightarrow> nat \<Rightarrow> ('s, 'k, 'v) dict res" where
  "dictRehashStepIfNeeded can d visitedIdx =
     (if \<not> dictIsRehashing d \<or> pauserehash d \<noteq> 0 then Some d
      else do {
        b \<leftarrow> (if int visitedIdx \<ge> rehashidx d
              then do { b \<leftarrow> rd (ht_table (ht0 d)) visitedIdx; Some (b \<noteq> NoEntry) } else Some False);
        if b then do { (d, _) \<leftarrow> dictBucketRehash can d visitedIdx; Some d }
        else do { (d, _) \<leftarrow> dictRehash can d 1; Some d } })"


subsection \<open>Lookup\<close>

text \<open>One table of the loops \<open>for (table = 0; table <= 1; table++)\<close>: search the bucket of the hash.\<close>

definition find_in_table :: "('s, 'k, 'v) dict \<Rightarrow> u64 \<Rightarrow> 'k \<Rightarrow> nat \<Rightarrow> (nat \<times> dict_pos ptr) res" where
  "find_in_table d hash key t = do {
     let idx = slot hash (ht_size_exp (get_ht d t));
     he \<leftarrow> rd (ht_table (get_ht d t)) idx;
     Some (idx, map_option (\<lambda>j. (t, idx, j)) (chain_find (dictStoredKey2Key d) key he)) }"

text \<open>\<open>dictFindLinkInternal\<close>: \<open>want_bucket\<close> says that \<open>bucket\<close> is not NULL. The result is the link of the key and the
  last bucket looked at.\<close>

definition dictFindLinkInternal ::
  "dictResizeEnable \<Rightarrow> ('s, 'k, 'v) dict \<Rightarrow> 'k \<Rightarrow> bool \<Rightarrow> (('s, 'k, 'v) dict \<times> dict_pos ptr \<times> (nat \<times> nat) ptr) res" where
  "dictFindLinkInternal can d key want_bucket =
     (if \<not> want_bucket \<and> dictSize d = 0 then Some (d, None, None)
      else do {
        let hash = dictGetHash d key;
        let idx = slot hash (ht_size_exp (ht0 d));
        d \<leftarrow> dictRehashStepIfNeeded can d idx;
        (bucket, link) \<leftarrow> (if int idx < rehashidx d then Some (None, None)
           else do { (idx, link) \<leftarrow> find_in_table d hash key 0; Some (Some (0, idx), link) });
        if link \<noteq> None \<or> \<not> dictIsRehashing d then Some (d, link, bucket)
        else do { (idx, link) \<leftarrow> find_in_table d hash key 1; Some (d, link, Some (1, idx)) } })"

definition dictFindLink ::
  "dictResizeEnable \<Rightarrow> ('s, 'k, 'v) dict \<Rightarrow> 'k \<Rightarrow> bool \<Rightarrow> (('s, 'k, 'v) dict \<times> dict_pos ptr \<times> (nat \<times> nat) ptr) res" where
  "dictFindLink can d key want_bucket =
     (if dictSize d = 0 then Some (d, None, None) else dictFindLinkInternal can d key want_bucket)"

definition dictFind :: "dictResizeEnable \<Rightarrow> ('s, 'k, 'v) dict \<Rightarrow> 'k \<Rightarrow> (('s, 'k, 'v) dict \<times> dict_pos ptr) res" where
  "dictFind can d key = do { (d, link, _) \<leftarrow> dictFindLink can d key False; Some (d, link) }"

definition dictFetchValue :: "dictResizeEnable \<Rightarrow> ('s, 'k, 'v) dict \<Rightarrow> 'k \<Rightarrow> (('s, 'k, 'v) dict \<times> 'v ptr) res" where
  "dictFetchValue can d key = do {
     (d, he) \<leftarrow> dictFind can d key;
     case he of None \<Rightarrow> Some (d, None)
     | Some p \<Rightarrow> do { e \<leftarrow> get_entry d p; v \<leftarrow> dictGetVal e; Some (d, Some v) } }"

definition dictFindLinkForInsert ::
  "dictResizeEnable \<Rightarrow> ('s, 'k, 'v) dict \<Rightarrow> 'k \<Rightarrow> (('s, 'k, 'v) dict \<times> (nat \<times> nat) ptr \<times> dict_pos ptr) res" where
  "dictFindLinkForInsert can d key = do {
     let hash = dictGetHash d key;
     let idx = slot hash (ht_size_exp (ht0 d));
     d \<leftarrow> dictRehashStepIfNeeded can d idx;
     (d, _) \<leftarrow> priv_dictExpandIfNeeded can d;
     (idx, existing) \<leftarrow> (if int idx < rehashidx d then Some (idx, None) else find_in_table d hash key 0);
     if existing \<noteq> None then Some (d, None, existing)
     else if \<not> dictIsRehashing d then Some (d, Some (0, idx), None)
     else do {
       (idx, existing) \<leftarrow> find_in_table d hash key 1;
       if existing \<noteq> None then Some (d, None, existing)
       else Some (d, Some (1, idx), None) } }"


subsection \<open>Insertion\<close>

definition dictInsertKeyAtLink ::
  "('s, 'k, 'v) dict \<Rightarrow> 's \<Rightarrow> nat \<times> nat \<Rightarrow> (('s, 'k, 'v) dict \<times> dict_pos) res" where
  "dictInsertKeyAtLink d key link = do {
     let htidx = (if dictIsRehashing d then 1 else 0);
     let (t, i) = link;
     chk (t = htidx \<and> i \<le> unat (DICTHT_SIZE_MASK (ht_size_exp (get_ht d htidx))));
     bucket \<leftarrow> rd (ht_table (get_ht d t)) i;
     let entry = (if no_value (dtype d) then if bucket = NoEntry then KeyPtr key else EntryNoValue bucket key
                  else Entry bucket key None);
     tbl \<leftarrow> wr (ht_table (get_ht d t)) i entry;
     Some (set_ht d t ((get_ht d t)\<lparr>ht_table := tbl, ht_used := ht_used (get_ht d t) + 1\<rparr>), (t, i, 0)) }"

text \<open>\<open>dictAddRaw\<close> returns the new entry, or NULL and the existing one.\<close>

definition dictAddRaw ::
  "dictResizeEnable \<Rightarrow> ('s, 'k, 'v) dict \<Rightarrow> 's \<Rightarrow> (('s, 'k, 'v) dict \<times> dict_pos ptr \<times> dict_pos ptr) res" where
  "dictAddRaw can d key = do {
     (d, position, existing) \<leftarrow> dictFindLinkForInsert can d (dictStoredKey2Key d key);
     case position of None \<Rightarrow> Some (d, None, existing)
     | Some link \<Rightarrow> do { (d, entry) \<leftarrow> dictInsertKeyAtLink d key link; Some (d, Some entry, existing) } }"

definition set_val_at :: "('s, 'k, 'v) dict \<Rightarrow> dict_pos \<Rightarrow> 'v \<Rightarrow> ('s, 'k, 'v) dict res" where
  "set_val_at d p val = do { e \<leftarrow> get_entry d p; e \<leftarrow> dictSetVal e val; set_entry d p e }"

definition dictAdd :: "dictResizeEnable \<Rightarrow> ('s, 'k, 'v) dict \<Rightarrow> 's \<Rightarrow> 'v \<Rightarrow> (('s, 'k, 'v) dict \<times> bool) res" where
  "dictAdd can d key val = do {
     (d, entry, _) \<leftarrow> dictAddRaw can d key;
     case entry of None \<Rightarrow> Some (d, False)
     | Some p \<Rightarrow> if no_value (dtype d) then Some (d, True) else do { d \<leftarrow> set_val_at d p val; Some (d, True) } }"

definition dictReplace :: "dictResizeEnable \<Rightarrow> ('s, 'k, 'v) dict \<Rightarrow> 's \<Rightarrow> 'v \<Rightarrow> (('s, 'k, 'v) dict \<times> bool) res" where
  "dictReplace can d key val = do {
     (d, entry, existing) \<leftarrow> dictAddRaw can d key;
     case entry of Some p \<Rightarrow> do { d \<leftarrow> set_val_at d p val; Some (d, True) }
     | None \<Rightarrow> (case existing of None \<Rightarrow> None
         | Some p \<Rightarrow> do {
             e \<leftarrow> get_entry d p;
             oldval \<leftarrow> dictGetVal e;
             d \<leftarrow> set_val_at d p val;
             Some (d, False) }) }"

definition dictAddOrFind :: "dictResizeEnable \<Rightarrow> ('s, 'k, 'v) dict \<Rightarrow> 's \<Rightarrow> (('s, 'k, 'v) dict \<times> dict_pos ptr) res" where
  "dictAddOrFind can d key = do {
     (d, entry, existing) \<leftarrow> dictAddRaw can d key;
     Some (d, case entry of Some p \<Rightarrow> Some p | None \<Rightarrow> existing) }"

text \<open>\<open>dictSetKeyAtLink\<close> with \<open>newItem\<close> set takes the bucket of the key if it is known.\<close>

definition dictAddKeyAtLink ::
  "dictResizeEnable \<Rightarrow> ('s, 'k, 'v) dict \<Rightarrow> 's \<Rightarrow> (nat \<times> nat) ptr \<Rightarrow> (('s, 'k, 'v) dict \<times> nat \<times> nat) res" where
  "dictAddKeyAtLink can d key link = do {
     let snap0 = ht_size_exp (ht0 d);
     let snap1 = ht_size_exp (ht1 d);
     (d, _) \<leftarrow> dictExpandIfNeeded can d;
     (d, link) \<leftarrow> (if snap0 \<noteq> ht_size_exp (ht0 d) \<or> snap1 \<noteq> ht_size_exp (ht1 d) \<or> link = None then do {
           (d, l, bucket) \<leftarrow> dictFindLinkInternal can d (dictStoredKey2Key d key) True;
           chk (bucket \<noteq> None);
           chk (l = None);
           Some (d, bucket) }
         else Some (d, link));
     case link of None \<Rightarrow> None
     | Some b \<Rightarrow> do { (d, _) \<leftarrow> dictInsertKeyAtLink d key b; Some (d, b) } }"

definition set_stored_key :: "('s, 'v) dictEntry \<Rightarrow> 's \<Rightarrow> ('s, 'v) dictEntry res" where
  "set_stored_key de key =
     (case de of NoEntry \<Rightarrow> None | KeyPtr _ \<Rightarrow> Some (KeyPtr key) | EntryNoValue n _ \<Rightarrow> Some (EntryNoValue n key)
      | Entry n _ v \<Rightarrow> Some (Entry n key v))"

text \<open>\<open>dictSetKeyAtLink\<close> without \<open>newItem\<close> replaces the stored key of an entry. When the link is not known the code
  passes the stored key itself to \<open>dictFindLink\<close>; \<open>as_key\<close> is the lookup key that this pointer is taken for.\<close>

definition dictReplaceKeyAtLink ::
  "dictResizeEnable \<Rightarrow> ('s \<Rightarrow> 'k) \<Rightarrow> ('s, 'k, 'v) dict \<Rightarrow> 's \<Rightarrow> dict_pos ptr \<Rightarrow> (('s, 'k, 'v) dict \<times> dict_pos) res" where
  "dictReplaceKeyAtLink can as_key d key link = do {
     (d, link) \<leftarrow> (case link of Some _ \<Rightarrow> Some (d, link)
        | None \<Rightarrow> do { (d, l, _) \<leftarrow> dictFindLink can d (as_key key) False; chk (l \<noteq> None); Some (d, l) });
     case link of None \<Rightarrow> None
     | Some p \<Rightarrow> do {
         e \<leftarrow> get_entry d p;
         e \<leftarrow> set_stored_key e key;
         d \<leftarrow> set_entry d p e;
         Some (d, p) } }"


subsection \<open>Deletion\<close>

text \<open>The loop with \<open>prevHe\<close>: unlink the first entry with the key and return it.\<close>

fun chain_unlink ::
  "('s \<Rightarrow> 'k) \<Rightarrow> 'k \<Rightarrow> ('s, 'v) dictEntry \<Rightarrow> (('s, 'v) dictEntry \<times> ('s, 'v) dictEntry) ptr" where
  "chain_unlink f key NoEntry = None"
| "chain_unlink f key (KeyPtr s) = (if key = f s then Some (KeyPtr s, NoEntry) else None)"
| "chain_unlink f key (EntryNoValue n s) =
     (if key = f s then Some (EntryNoValue n s, n)
      else map_option (\<lambda>(he, n). (he, EntryNoValue n s)) (chain_unlink f key n))"
| "chain_unlink f key (Entry n s v) =
     (if key = f s then Some (Entry n s v, n)
      else map_option (\<lambda>(he, n). (he, Entry n s v)) (chain_unlink f key n))"

definition delete_in_table ::
  "dictResizeEnable \<Rightarrow> ('s, 'k, 'v) dict \<Rightarrow> u64 \<Rightarrow> 'k \<Rightarrow> nat \<Rightarrow> (('s, 'k, 'v) dict \<times> ('s, 'v) dictEntry ptr) res" where
  "delete_in_table can d hash key t = do {
     let idx = slot hash (ht_size_exp (get_ht d t));
     he \<leftarrow> rd (ht_table (get_ht d t)) idx;
     case chain_unlink (dictStoredKey2Key d) key he of
       None \<Rightarrow> Some (d, None)
     | Some (he, rest) \<Rightarrow> do {
         tbl \<leftarrow> wr (ht_table (get_ht d t)) idx rest;
         let d = set_ht d t ((get_ht d t)\<lparr>ht_table := tbl, ht_used := ht_used (get_ht d t) - 1\<rparr>);
         d \<leftarrow> priv_dictShrinkIfNeeded can d;
         Some (d, Some he) } }"

definition dictGenericDelete ::
  "dictResizeEnable \<Rightarrow> ('s, 'k, 'v) dict \<Rightarrow> 'k \<Rightarrow> (('s, 'k, 'v) dict \<times> ('s, 'v) dictEntry ptr) res" where
  "dictGenericDelete can d key =
     (if dictSize d = 0 then Some (d, None)
      else do {
        let h = dictGetHash d key;
        let idx = slot h (ht_size_exp (ht0 d));
        d \<leftarrow> dictRehashStepIfNeeded can d idx;
        (d, he) \<leftarrow> (if int idx < rehashidx d then Some (d, None) else delete_in_table can d h key 0);
        if he \<noteq> None \<or> \<not> dictIsRehashing d then Some (d, he)
        else delete_in_table can d h key 1 })"

definition dictDelete :: "dictResizeEnable \<Rightarrow> ('s, 'k, 'v) dict \<Rightarrow> 'k \<Rightarrow> (('s, 'k, 'v) dict \<times> bool) res" where
  "dictDelete can d key = do { (d, he) \<leftarrow> dictGenericDelete can d key; Some (d, he \<noteq> None) }"

definition dictUnlink :: "dictResizeEnable \<Rightarrow> ('s, 'k, 'v) dict \<Rightarrow> 'k \<Rightarrow> (('s, 'k, 'v) dict \<times> ('s, 'v) dictEntry ptr) res" where
  "dictUnlink can d key = dictGenericDelete can d key"

definition dictTwoPhaseUnlinkFind ::
  "dictResizeEnable \<Rightarrow> ('s, 'k, 'v) dict \<Rightarrow> 'k \<Rightarrow> (('s, 'k, 'v) dict \<times> dict_pos ptr) res" where
  "dictTwoPhaseUnlinkFind can d key =
     (if dictSize d = 0 then Some (d, None)
      else do {
        d \<leftarrow> (if dictIsRehashing d then dictRehashStep can d else Some d);
        let h = dictGetHash d key;
        link \<leftarrow> (if int (slot h (ht_size_exp (ht0 d))) < rehashidx d then Some None
                 else do { (_, link) \<leftarrow> find_in_table d h key 0; Some link });
        link \<leftarrow> (if link \<noteq> None \<or> \<not> dictIsRehashing d then Some link
                 else do { (_, link) \<leftarrow> find_in_table d h key 1; Some link });
        Some (if link \<noteq> None then dictPauseRehashing d else d, link) })"

definition dictTwoPhaseUnlinkFree ::
  "dictResizeEnable \<Rightarrow> ('s, 'k, 'v) dict \<Rightarrow> dict_pos ptr \<Rightarrow> ('s, 'k, 'v) dict res" where
  "dictTwoPhaseUnlinkFree can d plink =
     (case plink of None \<Rightarrow> Some d
      | Some (t, i, j) \<Rightarrow> do {
          de \<leftarrow> get_entry d (t, i, j);
          if de = NoEntry then Some d
          else do {
            let d = set_ht d t ((get_ht d t)\<lparr>ht_used := ht_used (get_ht d t) - 1\<rparr>);
            n \<leftarrow> dictGetNext de;
            d \<leftarrow> set_entry d (t, i, j) n;
            d \<leftarrow> priv_dictShrinkIfNeeded can d;
            Some (dictResumeRehashing d) } })"

fun clear_chain :: "('s, 'v) dictEntry \<Rightarrow> nat \<Rightarrow> nat" where
  "clear_chain NoEntry used = used"
| "clear_chain (KeyPtr _) used = used - 1"
| "clear_chain (EntryNoValue n _) used = clear_chain n (used - 1)"
| "clear_chain (Entry n _ _) used = clear_chain n (used - 1)"

fun dictClear_loop :: "('s, 'v) dictEntry list \<Rightarrow> nat \<Rightarrow> nat" where
  "dictClear_loop [] used = used"
| "dictClear_loop (he # tbl) used = (if used > 0 then dictClear_loop tbl (clear_chain he used) else used)"

definition dictClear :: "('s, 'k, 'v) dict \<Rightarrow> nat \<Rightarrow> ('s, 'k, 'v) dict" where
  "dictClear d htidx =
     (let used = dictClear_loop (ht_table (get_ht d htidx)) (ht_used (get_ht d htidx))
      in set_ht (set_ht d htidx ((get_ht d htidx)\<lparr>ht_used := used\<rparr>)) htidx dictReset)"

definition dictEmpty :: "('s, 'k, 'v) dict \<Rightarrow> ('s, 'k, 'v) dict" where
  "dictEmpty d =
     (let d = (if dictIsRehashing d then call (RehashingCompleted (DICTHT_SIZE (ht_size_exp (ht0 d)))) d else d);
          d = call (BucketChanged (- int (dictBuckets d))) d;
          d = dictClear d 0;
          d = dictClear d 1
      in d\<lparr>rehashidx := - 1, pauserehash := 0, pauseAutoResize := 0\<rparr>)"



text \<open>What others see of \<open>dictRelease\<close>: the calls it makes before it frees the dict.\<close>

definition dictRelease :: "('s, 'k, 'v) dict \<Rightarrow> dict_call list" where
  "dictRelease d =
     (let d' = (if dictIsRehashing d then call (RehashingCompleted (DICTHT_SIZE (ht_size_exp (ht0 d)))) d else d);
          d' = call (BucketChanged (- int (dictBuckets d'))) d'
      in drop (length (calls d)) (calls d'))"


subsection \<open>Iterators\<close>

text \<open>The fingerprint of an unsafe iterator hashes the addresses of the tables, which the model does not have:
  \<open>fp\<close> stands for \<open>dictFingerprint\<close>.\<close>

record ('s, 'v) dictIterator =
  it_index :: int
  it_table :: nat
  it_safe :: bool
  it_entry :: "('s, 'v) dictEntry"
  it_nextEntry :: "('s, 'v) dictEntry"
  it_fingerprint :: u64

definition dictInitIterator :: "('s, 'v) dictIterator" where
  "dictInitIterator = \<lparr>it_index = - 1, it_table = 0, it_safe = False, it_entry = NoEntry, it_nextEntry = NoEntry,
     it_fingerprint = 0\<rparr>"

definition dictInitSafeIterator :: "('s, 'v) dictIterator" where
  "dictInitSafeIterator = dictInitIterator\<lparr>it_safe := True\<rparr>"

definition dictResetIterator ::
  "(('s, 'k, 'v) dict \<Rightarrow> u64) \<Rightarrow> ('s, 'k, 'v) dict \<Rightarrow> ('s, 'v) dictIterator \<Rightarrow> ('s, 'k, 'v) dict res" where
  "dictResetIterator fp d iter =
     (if \<not> (it_index iter = - 1 \<and> it_table iter = 0) then
        if it_safe iter then Some (dictResumeRehashing d)
        else do { chk (it_fingerprint iter = fp d); Some d }
      else Some d)"

definition dictNext_start ::
  "(('s, 'k, 'v) dict \<Rightarrow> u64) \<Rightarrow> ('s, 'k, 'v) dict \<Rightarrow> ('s, 'v) dictIterator \<Rightarrow> ('s, 'k, 'v) dict \<times> ('s, 'v) dictIterator" where
  "dictNext_start fp d iter =
     (if it_index iter = - 1 \<and> it_table iter = 0 then
        let (d, iter) = (if it_safe iter then (dictPauseRehashing d, iter) else (d, iter\<lparr>it_fingerprint := fp d\<rparr>))
        in (d, if dictIsRehashing d then iter\<lparr>it_index := rehashidx d - 1\<rparr> else iter)
      else (d, iter))"

partial_function (option) dictNext ::
  "(('s, 'k, 'v) dict \<Rightarrow> u64) \<Rightarrow> ('s, 'k, 'v) dict \<Rightarrow> ('s, 'v) dictIterator \<Rightarrow>
   (('s, 'k, 'v) dict \<times> ('s, 'v) dictIterator \<times> ('s, 'v) dictEntry) res" where
  "dictNext fp d iter = do {
     (d, iter, stop) \<leftarrow>
       (if it_entry iter = NoEntry then do {
          let (d, iter) = dictNext_start fp d iter;
          let iter = iter\<lparr>it_index := it_index iter + 1\<rparr>;
          let past = (it_index iter \<ge> int (DICTHT_SIZE (ht_size_exp (get_ht d (it_table iter)))));
          if past \<and> \<not> (dictIsRehashing d \<and> it_table iter = 0) then Some (d, iter, True)
          else do {
            let iter = (if past then iter\<lparr>it_table := it_table iter + 1, it_index := 0\<rparr> else iter);
            e \<leftarrow> rd (ht_table (get_ht d (it_table iter))) (nat (it_index iter));
            Some (d, iter\<lparr>it_entry := e\<rparr>, False) } }
        else Some (d, iter\<lparr>it_entry := it_nextEntry iter\<rparr>, False));
     if stop then Some (d, iter, NoEntry)
     else if it_entry iter \<noteq> NoEntry then do {
       n \<leftarrow> dictGetNext (it_entry iter);
       Some (d, iter\<lparr>it_nextEntry := n\<rparr>, it_entry iter) }
     else dictNext fp d iter }"


subsection \<open>Scanning\<close>

function rev_loop :: "nat \<Rightarrow> u64 \<Rightarrow> u64 \<Rightarrow> u64" where
  "rev_loop s msk v =
     (let s = s div 2
      in if s > 0 then
           let msk = msk XOR push_bit s msk;
               v = (drop_bit s v AND msk) OR (push_bit s v AND NOT msk)
           in rev_loop s msk v
         else v)"
  by pat_completeness auto
termination
  by (relation "measure fst") auto

definition rev_ul :: "u64 \<Rightarrow> u64" where
  "rev_ul v = rev_loop (8 * 8) (NOT 0) v"

text \<open>The entries of a bucket are passed to \<open>fn\<close>, which accumulates in \<open>privdata\<close>. Callbacks that delete the entry they
  are given and defragmentation are left out.\<close>

fun dictScanBucket :: "('p \<Rightarrow> 's \<Rightarrow> 'v ptr \<Rightarrow> 'p) \<Rightarrow> 'p \<Rightarrow> ('s, 'v) dictEntry \<Rightarrow> 'p" where
  "dictScanBucket fn privdata NoEntry = privdata"
| "dictScanBucket fn privdata (KeyPtr s) = fn privdata s None"
| "dictScanBucket fn privdata (EntryNoValue n s) = dictScanBucket fn (fn privdata s None) n"
| "dictScanBucket fn privdata (Entry n s v) = dictScanBucket fn (fn privdata s v) n"

text \<open>Increment the reversed cursor on the bits of a mask.\<close>

definition cursor_next :: "u64 \<Rightarrow> u64 \<Rightarrow> u64" where
  "cursor_next m v = rev_ul (rev_ul (v OR NOT m) + 1)"

partial_function (option) dictScan_loop ::
  "('p \<Rightarrow> 's \<Rightarrow> 'v ptr \<Rightarrow> 'p) \<Rightarrow> ('s, 'v) dictEntry list \<Rightarrow> u64 \<Rightarrow> u64 \<Rightarrow> u64 \<Rightarrow> 'p \<Rightarrow> (u64 \<times> 'p) res" where
  "dictScan_loop fn tbl m0 m1 v privdata = do {
     b \<leftarrow> rd tbl (unat (v AND m1));
     let privdata = dictScanBucket fn privdata b;
     let v = cursor_next m1 v;
     if v AND (m0 XOR m1) \<noteq> 0 then dictScan_loop fn tbl m0 m1 v privdata else Some (v, privdata) }"

declare dictNext.simps [code] dictScan_loop.simps [code]

definition dictScan ::
  "('s, 'k, 'v) dict \<Rightarrow> u64 \<Rightarrow> ('p \<Rightarrow> 's \<Rightarrow> 'v ptr \<Rightarrow> 'p) \<Rightarrow> 'p \<Rightarrow> (('s, 'k, 'v) dict \<times> u64 \<times> 'p) res" where
  "dictScan d v fn privdata =
     (if dictSize d = 0 then Some (d, 0, privdata)
      else do {
        let d = dictPauseRehashing d;
        (v, privdata) \<leftarrow>
          (if \<not> dictIsRehashing d then do {
             let m0 = DICTHT_SIZE_MASK (ht_size_exp (ht0 d));
             b \<leftarrow> rd (ht_table (ht0 d)) (unat (v AND m0));
             Some (cursor_next m0 v, dictScanBucket fn privdata b) }
           else do {
             let (htidx0, htidx1) =
               (if DICTHT_SIZE (ht_size_exp (ht0 d)) > DICTHT_SIZE (ht_size_exp (ht1 d)) then (1, 0) else (0, 1));
             let m0 = DICTHT_SIZE_MASK (ht_size_exp (get_ht d htidx0));
             let m1 = DICTHT_SIZE_MASK (ht_size_exp (get_ht d htidx1));
             b \<leftarrow> rd (ht_table (get_ht d htidx0)) (unat (v AND m0));
             let privdata = dictScanBucket fn privdata b;
             dictScan_loop fn (ht_table (get_ht d htidx1)) m0 m1 v privdata });
        Some (dictResumeRehashing d, v, privdata) })"

end
