(* ===== verification/Dict_Inv.thy ===== *)
theory Dict_Inv
  imports Dict "HOL-Library.Multiset"
begin

unbundle bit_operations_syntax

text \<open>
  The invariant of a dict and its contents. \<open>dict_ok\<close> says that the tables have a power of two of buckets, that every
  entry is in the bucket of its hash, that the counters are exact, that no key occurs twice, and that the
  buckets below \<open>rehashidx\<close> are empty. \<open>contents\<close> is the multiset of entries of the two tables. Resizing and
  rehashing keep the invariant and the contents.
\<close>

declare rehash_skip.simps [simp del] rev_loop.simps [simp del]

subsection \<open>Contents\<close>

fun entries :: "('s, 'v) dictEntry \<Rightarrow> ('s \<times> 'v option) list" where
  "entries NoEntry = []"
| "entries (KeyPtr s) = [(s, None)]"
| "entries (EntryNoValue n s) = (s, None) # entries n"
| "entries (Entry n s v) = (s, v) # entries n"

fun kind_ok :: "bool \<Rightarrow> ('s, 'v) dictEntry \<Rightarrow> bool" where
  "kind_ok nv NoEntry = True"
| "kind_ok nv (KeyPtr s) = nv"
| "kind_ok nv (EntryNoValue n s) = (nv \<and> kind_ok nv n)"
| "kind_ok nv (Entry n s v) = (\<not> nv \<and> kind_ok nv n)"

definition tbl_entries :: "('s, 'v) dictEntry list \<Rightarrow> ('s \<times> 'v option) multiset" where
  "tbl_entries tbl = mset (concat (map entries tbl))"

definition contents :: "('s, 'k, 'v) dict \<Rightarrow> ('s \<times> 'v option) multiset" where
  "contents d = tbl_entries (ht_table (ht0 d)) + tbl_entries (ht_table (ht1 d))"

definition ht_ok :: "('s, 'k) dictType \<Rightarrow> ('s, 'v) dictht \<Rightarrow> bool" where
  "ht_ok ty h \<longleftrightarrow>
     (if ht_table h = [] then ht_size_exp h = - 1
      else 2 \<le> ht_size_exp h \<and> ht_size_exp h \<le> 60 \<and> length (ht_table h) = 2 ^ nat (ht_size_exp h)) \<and>
     ht_used h = size (tbl_entries (ht_table h)) \<and>
     (\<forall>i < length (ht_table h). \<forall>e \<in> set (entries (ht_table h ! i)).
        slot (hashFunction ty (keyFromStoredKey ty (fst e))) (ht_size_exp h) = i) \<and>
     (\<forall>b \<in> set (ht_table h). kind_ok (no_value ty) b)"

definition keys_distinct :: "('s, 'k) dictType \<Rightarrow> ('s \<times> 'v option) multiset \<Rightarrow> bool" where
  "keys_distinct ty M \<longleftrightarrow> (\<forall>k. size (filter_mset (\<lambda>e. keyFromStoredKey ty (fst e) = k) M) \<le> 1)"

fun bucket_sum :: "dict_call list \<Rightarrow> int" where
  "bucket_sum [] = 0"
| "bucket_sum (BucketChanged n # cs) = n + bucket_sum cs"
| "bucket_sum (_ # cs) = bucket_sum cs"

text \<open>The calls of \<open>rehashingStarted\<close> and \<open>rehashingCompleted\<close> alternate, and the two of a pair see a first table of the
  same size: the state is this size while the dict is rehashing.\<close>

fun log_run :: "nat option \<Rightarrow> dict_call list \<Rightarrow> nat option option" where
  "log_run s [] = Some s"
| "log_run s (BucketChanged _ # cs) = log_run s cs"
| "log_run None (RehashingStarted n # cs) = log_run (Some n) cs"
| "log_run (Some n) (RehashingCompleted m # cs) = (if m = n then log_run None cs else None)"
| "log_run _ _ = None"

definition log_state :: "('s, 'k, 'v) dict \<Rightarrow> nat option" where [simp]:
  "log_state d = (if rehashidx d = - 1 then None else Some (DICTHT_SIZE (ht_size_exp (ht0 d))))"

lemma log_run_append [simp]: "log_run s (xs @ ys) = Option.bind (log_run s xs) (\<lambda>s. log_run s ys)"
  by (induction s xs rule: log_run.induct) auto

definition dict_ok :: "('s, 'k, 'v) dict \<Rightarrow> bool" where
  "dict_ok d \<longleftrightarrow> ht_ok (dtype d) (ht0 d) \<and> ht_ok (dtype d) (ht1 d) \<and> keys_distinct (dtype d) (contents d) \<and>
     (if rehashidx d = - 1 then ht1 d = dictReset
      else 0 \<le> rehashidx d \<and> ht_table (ht0 d) \<noteq> [] \<and> ht_table (ht1 d) \<noteq> [] \<and>
           rehashidx d \<le> int (length (ht_table (ht0 d))) \<and>
           (\<forall>i < nat (rehashidx d). ht_table (ht0 d) ! i = NoEntry)) \<and>
     bucket_sum (calls d) = int (dictBuckets d) \<and> log_run None (calls d) = Some (log_state d)"

text \<open>The fields that resizing and rehashing leave alone.\<close>

definition same_frame :: "('s, 'k, 'v) dict \<Rightarrow> ('s, 'k, 'v) dict \<Rightarrow> bool" where
  "same_frame d d' \<longleftrightarrow> dtype d' = dtype d \<and> pauserehash d' = pauserehash d \<and> pauseAutoResize d' = pauseAutoResize d \<and>
     take (length (calls d)) (calls d') = calls d"

lemma same_frame_refl [simp]: "same_frame d d"
  by (simp add: same_frame_def)

lemma same_frame_trans:
  assumes "same_frame a b" "same_frame b c"
  shows "same_frame a c"
proof -
  have ab: "take (length (calls a)) (calls b) = calls a" and bc: "take (length (calls b)) (calls c) = calls b"
    using assms by (simp_all add: same_frame_def)
  have "length (calls a) \<le> length (calls b)" using arg_cong [OF ab, of length] by simp
  then have "take (length (calls a)) (calls c) = take (length (calls a)) (take (length (calls b)) (calls c))" by (simp add: min_def)
  then have "take (length (calls a)) (calls c) = calls a" unfolding bc ab .
  then show ?thesis using assms by (simp add: same_frame_def)
qed


subsection \<open>Buckets\<close>

lemma slot_eq: "0 \<le> e \<Longrightarrow> e \<le> 63 \<Longrightarrow> slot h e = unat h mod 2 ^ nat e"
proof -
  assume e: "0 \<le> e" "e \<le> 63"
  have "DICTHT_SIZE_MASK e = mask (nat e)" using e by (simp add: DICTHT_SIZE_MASK_def mask_eq_exp_minus_1)
  then have t: "h AND DICTHT_SIZE_MASK e = take_bit (nat e) h" by (simp add: take_bit_eq_mask)
  show ?thesis unfolding slot_def t unsigned_take_bit_eq by (rule take_bit_eq_mod)
qed

lemma slot_less: "0 \<le> e \<Longrightarrow> e \<le> 63 \<Longrightarrow> slot h e < 2 ^ nat e"
  by (simp add: slot_eq)

lemma slot_slot:
  assumes "0 \<le> e1" "e1 \<le> e0" "e0 \<le> 63"
  shows "slot (of_nat (slot h e0)) e1 = slot h e1"
proof -
  have "slot h e0 < 2 ^ 64"
    using slot_less [of e0 h] assms power_increasing [of "nat e0" 64 "2::nat"] by (auto intro: less_le_trans)
  then have "unat (of_nat (slot h e0) :: u64) = slot h e0" by (simp add: unat_of_nat)
  moreover have "(2::nat) ^ nat e1 dvd 2 ^ nat e0" using assms by (intro le_imp_power_dvd) simp
  ultimately show ?thesis using assms by (simp add: slot_eq mod_mod_cancel)
qed

lemma tbl_entries_Nil [simp]: "tbl_entries [] = {#}"
  by (simp add: tbl_entries_def)

lemma tbl_entries_replicate [simp]: "tbl_entries (replicate n NoEntry) = {#}"
  by (induction n) (simp_all add: tbl_entries_def)

lemma tbl_entries_update:
  assumes "i < length tbl"
  shows "tbl_entries (tbl[i := b]) + mset (entries (tbl ! i)) = tbl_entries tbl + mset (entries b)"
proof -
  have "tbl = take i tbl @ tbl ! i # drop (Suc i) tbl" using assms by (rule id_take_nth_drop)
  then have "tbl_entries tbl = tbl_entries (take i tbl) + mset (entries (tbl ! i)) + tbl_entries (drop (Suc i) tbl)"
    by (metis (no_types, lifting) append.assoc concat.simps(2) concat_append list.simps(9) map_append mset_append tbl_entries_def)
  moreover have "tbl_entries (tbl[i := b]) = tbl_entries (take i tbl) + mset (entries b) + tbl_entries (drop (Suc i) tbl)"
    using assms by (simp add: tbl_entries_def upd_conv_take_nth_drop)
  ultimately show ?thesis by simp
qed

lemma tbl_entries_mem: "e \<in># tbl_entries tbl \<longleftrightarrow> (\<exists>i < length tbl. e \<in> set (entries (tbl ! i)))"
  by (auto simp: tbl_entries_def in_set_conv_nth) (metis nth_mem)+

lemma entries_eq_Nil [simp]: "entries de = [] \<longleftrightarrow> de = NoEntry"
  by (cases de) auto

lemma size_tbl_entries_0: "size (tbl_entries tbl) = 0 \<longleftrightarrow> (\<forall>i < length tbl. tbl ! i = NoEntry)"
proof
  assume "size (tbl_entries tbl) = 0"
  then have "tbl_entries tbl = {#}" by simp
  then show "\<forall>i < length tbl. tbl ! i = NoEntry"
    using tbl_entries_mem [of _ tbl] by (metis empty_iff entries_eq_Nil last_in_set set_mset_empty)
next
  assume "\<forall>i < length tbl. tbl ! i = NoEntry"
  then have "tbl = replicate (length tbl) NoEntry" by (simp add: list_eq_iff_nth_eq)
  then show "size (tbl_entries tbl) = 0" by (metis size_empty tbl_entries_replicate)
qed

lemma DICTHT_SIZE_ok: "ht_ok ty h \<Longrightarrow> DICTHT_SIZE (ht_size_exp h) = length (ht_table h)"
  by (auto simp: ht_ok_def DICTHT_SIZE_def split: if_splits)

lemma ht_ok_slot: "ht_ok ty h \<Longrightarrow> ht_table h \<noteq> [] \<Longrightarrow> slot hash (ht_size_exp h) < length (ht_table h)"
  using slot_less [of "ht_size_exp h" hash] by (auto simp: ht_ok_def split: if_splits)

lemma ht_ok_reset [simp]: "ht_ok ty dictReset"
  by (simp add: ht_ok_def dictReset_def)

lemma ht_ok_new: "2 \<le> e \<Longrightarrow> e \<le> 60 \<Longrightarrow>
  ht_ok ty \<lparr>ht_table = replicate (2 ^ nat e) NoEntry, ht_used = 0, ht_size_exp = e\<rparr>"
  by (simp add: ht_ok_def)

text \<open>Changing one bucket of a table.\<close>

lemma ht_ok_update:
  assumes "ht_ok ty h" "i < length (ht_table h)" "kind_ok (no_value ty) b"
    "\<And>e. e \<in> set (entries b) \<Longrightarrow> slot (hashFunction ty (keyFromStoredKey ty (fst e))) (ht_size_exp h) = i"
    "n + length (entries (ht_table h ! i)) = ht_used h + length (entries b)"
  shows "ht_ok ty (h\<lparr>ht_table := (ht_table h)[i := b], ht_used := n\<rparr>)"
proof -
  have "size (tbl_entries ((ht_table h)[i := b])) + length (entries (ht_table h ! i)) = size (tbl_entries (ht_table h)) + length (entries b)"
    using arg_cong [OF tbl_entries_update [OF assms(2)], of size, of b] by simp
  then have "n = size (tbl_entries ((ht_table h)[i := b]))" using assms(1,5) by (simp add: ht_ok_def)
  with assms show ?thesis
    by (auto simp: ht_ok_def nth_list_update set_update_subset_insert [THEN subsetD] dest: subsetD [OF set_update_subset_insert])
qed


lemma ht_ok_tableI:
  assumes "ht_ok ty h" "i < length (ht_table h)" "e \<in> set (entries (ht_table h ! i))"
  shows "slot (hashFunction ty (keyFromStoredKey ty (fst e))) (ht_size_exp h) = i"
  using assms by (simp add: ht_ok_def)

lemma ht_ok_exp: "ht_ok ty h \<Longrightarrow> ht_table h \<noteq> [] \<Longrightarrow> 2 \<le> ht_size_exp h \<and> ht_size_exp h \<le> 60"
  by (simp add: ht_ok_def)

subsection \<open>Moving a bucket\<close>

lemma dictSetNext_entries:
  "kind_ok nv de \<Longrightarrow> kind_ok nv n \<Longrightarrow> dictSetNext de n = Some de' \<Longrightarrow>
     kind_ok nv de' \<and> entries de' = hd (entries de) # entries n"
  by (auto simp: dictSetNext_def split: dictEntry.splits)

lemma rehash_entry_ok:
  assumes e0: "2 \<le> ht_size_exp (ht0 d)" "ht_size_exp (ht0 d) \<le> 60" and ok: "ht_ok (dtype d) (ht1 d)" "ht_table (ht1 d) \<noteq> []"
    and de: "kind_ok (no_value (dtype d)) de" "de \<noteq> NoEntry"
    and idx: "slot (hashFunction (dtype d) (keyFromStoredKey (dtype d) (fst (hd (entries de))))) (ht_size_exp (ht0 d)) = idx"
  shows "\<exists>tbl. rehash_entry idx d de =
      Some (d\<lparr>ht0 := (ht0 d)\<lparr>ht_used := ht_used (ht0 d) - 1\<rparr>,
              ht1 := (ht1 d)\<lparr>ht_table := tbl, ht_used := ht_used (ht1 d) + 1\<rparr>\<rparr>) \<and>
    ht_ok (dtype d) ((ht1 d)\<lparr>ht_table := tbl, ht_used := ht_used (ht1 d) + 1\<rparr>) \<and> tbl \<noteq> [] \<and>
    tbl_entries tbl = add_mset (hd (entries de)) (tbl_entries (ht_table (ht1 d)))"
proof -
  define s where "s = fst (hd (entries de))"
  have s: "dictGetKey de = Some s" using de(2) by (cases de) (auto simp: dictGetKey_def s_def)
  define h where "h = slot (hashFunction (dtype d) (keyFromStoredKey (dtype d) s)) (ht_size_exp (ht1 d))"
  have e: "2 \<le> ht_size_exp (ht0 d)" "ht_size_exp (ht0 d) \<le> 60" "2 \<le> ht_size_exp (ht1 d)" "ht_size_exp (ht1 d) \<le> 60"
    using e0 ht_ok_exp [OF ok] by auto
  have h: "(if ht_size_exp (ht1 d) > ht_size_exp (ht0 d)
              then slot (dictGetHash d (dictStoredKey2Key d s)) (ht_size_exp (ht1 d))
              else slot (of_nat idx) (ht_size_exp (ht1 d))) = h"
    using slot_slot [of "ht_size_exp (ht1 d)" "ht_size_exp (ht0 d)"] e idx
    by (auto simp: h_def dictGetHash_def dictStoredKey2Key_def s_def)
  have hl: "h < length (ht_table (ht1 d))" unfolding h_def by (rule ht_ok_slot [OF ok])
  define old where "old = ht_table (ht1 d) ! h"
  have old: "rd (ht_table (ht1 d)) h = Some old" "kind_ok (no_value (dtype d)) old"
    using hl ok(1) by (auto simp: old_def ht_ok_def)
  define de' where "de' = (if no_value (dtype d) then
              if old = NoEntry then Some (KeyPtr s)
              else if entryIsKey de then Some (EntryNoValue old s)
              else dictSetNext de old
            else dictSetNext de old)"
  obtain x where x: "de' = Some x" "kind_ok (no_value (dtype d)) x" "entries x = hd (entries de) # entries old"
    using de old(2) s
    by (cases de; cases "old = NoEntry") (auto simp: de'_def dictSetNext_def entryIsKey_def s_def split: if_splits)
  define tbl where "tbl = (ht_table (ht1 d))[h := x]"
  have w: "wr (ht_table (ht1 d)) h x = Some tbl" using hl by (simp add: wr_def tbl_def)
  have "rehash_entry idx d de = Some (d\<lparr>ht0 := (ht0 d)\<lparr>ht_used := ht_used (ht0 d) - 1\<rparr>,
              ht1 := (ht1 d)\<lparr>ht_table := tbl, ht_used := ht_used (ht1 d) + 1\<rparr>\<rparr>)"
    unfolding rehash_entry_def s bind.bind_lunit Let_def h old(1) de'_def [symmetric] x(1) w ..
  moreover have "ht_ok (dtype d) ((ht1 d)\<lparr>ht_table := tbl, ht_used := ht_used (ht1 d) + 1\<rparr>)"
    unfolding tbl_def
  proof (rule ht_ok_update [OF ok(1) hl x(2)])
    fix e assume "e \<in> set (entries x)"
    then show "slot (hashFunction (dtype d) (keyFromStoredKey (dtype d) (fst e))) (ht_size_exp (ht1 d)) = h"
      using ht_ok_tableI [OF ok(1) hl, of e] x(3) by (cases "e = hd (entries de)") (auto simp: h_def s_def old_def)
  qed (simp add: x(3) old_def)
  moreover have "tbl_entries tbl = add_mset (hd (entries de)) (tbl_entries (ht_table (ht1 d)))"
    using tbl_entries_update [OF hl, of x] x(3) by (simp add: tbl_def old_def)
  ultimately show ?thesis using ok(2) by (auto simp: tbl_def)
qed


lemma rehash_loop_ok:
  assumes "2 \<le> ht_size_exp (ht0 d)" "ht_size_exp (ht0 d) \<le> 60" "ht_ok (dtype d) (ht1 d)" "ht_table (ht1 d) \<noteq> []"
    and "kind_ok (no_value (dtype d)) de"
    and "\<forall>e \<in> set (entries de). slot (hashFunction (dtype d) (keyFromStoredKey (dtype d) (fst e))) (ht_size_exp (ht0 d)) = idx"
  shows "\<exists>h1. rehash_loop idx d de =
      Some (d\<lparr>ht0 := (ht0 d)\<lparr>ht_used := ht_used (ht0 d) - length (entries de)\<rparr>, ht1 := h1\<rparr>) \<and>
    ht_ok (dtype d) h1 \<and> ht_table h1 \<noteq> [] \<and> ht_size_exp h1 = ht_size_exp (ht1 d) \<and>
    tbl_entries (ht_table h1) = mset (entries de) + tbl_entries (ht_table (ht1 d))"
  using assms
proof (induction de arbitrary: d)
  case NoEntry
  then show ?case by (intro exI [of _ "ht1 d"]) simp
next
  case (KeyPtr s)
  then show ?case using rehash_entry_ok [of d "KeyPtr s" idx] by fastforce
next
  case (EntryNoValue n s)
  obtain tbl where t: "rehash_entry idx d (EntryNoValue n s) =
      Some (d\<lparr>ht0 := (ht0 d)\<lparr>ht_used := ht_used (ht0 d) - 1\<rparr>,
              ht1 := (ht1 d)\<lparr>ht_table := tbl, ht_used := ht_used (ht1 d) + 1\<rparr>\<rparr>)"
    "ht_ok (dtype d) ((ht1 d)\<lparr>ht_table := tbl, ht_used := ht_used (ht1 d) + 1\<rparr>)" "tbl \<noteq> []"
    "tbl_entries tbl = add_mset (s, None) (tbl_entries (ht_table (ht1 d)))"
    using rehash_entry_ok [of d "EntryNoValue n s" idx] EntryNoValue.prems by auto
  define d1 where "d1 = d\<lparr>ht0 := (ht0 d)\<lparr>ht_used := ht_used (ht0 d) - 1\<rparr>,
              ht1 := (ht1 d)\<lparr>ht_table := tbl, ht_used := ht_used (ht1 d) + 1\<rparr>\<rparr>"
  show ?case using EntryNoValue.IH [of d1] EntryNoValue.prems t(2-4)
    unfolding rehash_loop.simps t(1) by (auto simp: d1_def)
next
  case (Entry n s v)
  obtain tbl where t: "rehash_entry idx d (Entry n s v) =
      Some (d\<lparr>ht0 := (ht0 d)\<lparr>ht_used := ht_used (ht0 d) - 1\<rparr>,
              ht1 := (ht1 d)\<lparr>ht_table := tbl, ht_used := ht_used (ht1 d) + 1\<rparr>\<rparr>)"
    "ht_ok (dtype d) ((ht1 d)\<lparr>ht_table := tbl, ht_used := ht_used (ht1 d) + 1\<rparr>)" "tbl \<noteq> []"
    "tbl_entries tbl = add_mset (s, v) (tbl_entries (ht_table (ht1 d)))"
    using rehash_entry_ok [of d "Entry n s v" idx] Entry.prems by auto
  define d1 where "d1 = d\<lparr>ht0 := (ht0 d)\<lparr>ht_used := ht_used (ht0 d) - 1\<rparr>,
              ht1 := (ht1 d)\<lparr>ht_table := tbl, ht_used := ht_used (ht1 d) + 1\<rparr>\<rparr>"
  show ?case using Entry.IH [of d1] Entry.prems t(2-4)
    unfolding rehash_loop.simps t(1) by (auto simp: d1_def)
qed

text \<open>The progress of one bucket: table 0 loses it, the contents stay.\<close>

lemma rehash_bucket_ok:
  assumes ok: "dict_ok d" and r: "dictIsRehashing d" and idx: "idx < length (ht_table (ht0 d))"
  obtains h1 where "rehashEntriesInBucketAtIndex d idx = Some (d\<lparr>ht0 := (ht0 d)\<lparr>ht_table := (ht_table (ht0 d))[idx := NoEntry],
        ht_used := ht_used (ht0 d) - length (entries (ht_table (ht0 d) ! idx))\<rparr>, ht1 := h1\<rparr>)"
    "dict_ok (d\<lparr>ht0 := (ht0 d)\<lparr>ht_table := (ht_table (ht0 d))[idx := NoEntry],
        ht_used := ht_used (ht0 d) - length (entries (ht_table (ht0 d) ! idx))\<rparr>, ht1 := h1\<rparr>)"
    "tbl_entries ((ht_table (ht0 d))[idx := NoEntry]) + tbl_entries (ht_table h1) = contents d"
    "ht_size_exp h1 = ht_size_exp (ht1 d)"
proof -
  have k: "ht_ok (dtype d) (ht0 d)" "ht_ok (dtype d) (ht1 d)" "ht_table (ht0 d) \<noteq> []" "ht_table (ht1 d) \<noteq> []"
    using ok r by (auto simp: dict_ok_def dictIsRehashing_def split: if_splits)
  define de where "de = ht_table (ht0 d) ! idx"
  have de: "kind_ok (no_value (dtype d)) de"
    "\<forall>e \<in> set (entries de). slot (hashFunction (dtype d) (keyFromStoredKey (dtype d) (fst e))) (ht_size_exp (ht0 d)) = idx"
    using k(1) idx by (auto simp: ht_ok_def de_def)
  obtain h1 where h1: "rehash_loop idx d de =
      Some (d\<lparr>ht0 := (ht0 d)\<lparr>ht_used := ht_used (ht0 d) - length (entries de)\<rparr>, ht1 := h1\<rparr>)"
    "ht_ok (dtype d) h1" "ht_table h1 \<noteq> []" "ht_size_exp h1 = ht_size_exp (ht1 d)"
    "tbl_entries (ht_table h1) = mset (entries de) + tbl_entries (ht_table (ht1 d))"
    using rehash_loop_ok [OF _ _ k(2,4) de] ht_ok_exp [OF k(1,3)] by blast
  define t0 where "t0 = (ht_table (ht0 d))[idx := NoEntry]"
  have t0: "tbl_entries t0 + mset (entries de) = tbl_entries (ht_table (ht0 d))"
    using tbl_entries_update [OF idx, of NoEntry] by (simp add: t0_def de_def)
  have c: "tbl_entries t0 + tbl_entries (ht_table h1) = contents d"
    using t0 h1(5) by (simp add: contents_def add.assoc)
  let ?d = "d\<lparr>ht0 := (ht0 d)\<lparr>ht_table := t0, ht_used := ht_used (ht0 d) - length (entries de)\<rparr>, ht1 := h1\<rparr>"
  have u: "length (entries de) \<le> ht_used (ht0 d)"
    using k(1) arg_cong [OF t0, of size] by (simp add: ht_ok_def)
  have "ht_ok (dtype d) ((ht0 d)\<lparr>ht_table := t0, ht_used := ht_used (ht0 d) - length (entries de)\<rparr>)"
    unfolding t0_def by (rule ht_ok_update [OF k(1) idx]) (use u in \<open>simp_all add: de_def\<close>)
  then have "dict_ok ?d"
    using ok r h1(2-4) c idx
    by (auto simp: dict_ok_def dictIsRehashing_def contents_def t0_def nth_list_update dictBuckets_def)
  moreover have "rehashEntriesInBucketAtIndex d idx = Some ?d"
    using idx h1(1) by (simp add: rehashEntriesInBucketAtIndex_def rd_def wr_def de_def t0_def)
  ultimately show thesis using that c h1(4) by (simp add: t0_def de_def)
qed


subsection \<open>Rehashing\<close>

text \<open>What resizing and rehashing guarantee: the invariant, the same contents, the same other fields, and
  that a dict with a table keeps one.\<close>

definition has_table :: "('s, 'k, 'v) dict \<Rightarrow> bool" where
  "has_table d \<longleftrightarrow> ht_table (ht0 d) \<noteq> []"

definition kept :: "('s, 'k, 'v) dict \<Rightarrow> ('s, 'k, 'v) dict \<Rightarrow> bool" where
  "kept d d' \<longleftrightarrow> dict_ok d' \<and> contents d' = contents d \<and> same_frame d d' \<and> (has_table d \<longrightarrow> has_table d')"

lemma kept_refl: "dict_ok d \<Longrightarrow> kept d d"
  by (simp add: kept_def)

lemma kept_trans [trans]: "kept a b \<Longrightarrow> kept b c \<Longrightarrow> kept a c"
  by (auto simp: kept_def intro: same_frame_trans)

lemma kept_ok: "kept d d' \<Longrightarrow> dict_ok d'"
  by (simp add: kept_def)

lemma bucket_sum_append [simp]: "bucket_sum (xs @ ys) = bucket_sum xs + bucket_sum ys"
  by (induction xs rule: bucket_sum.induct) auto

lemma call_simps [simp]:
  "dtype (call c d) = dtype d" "ht0 (call c d) = ht0 d" "ht1 (call c d) = ht1 d" "rehashidx (call c d) = rehashidx d"
  "pauserehash (call c d) = pauserehash d" "pauseAutoResize (call c d) = pauseAutoResize d"
  "calls (call c d) = calls d @ [c]"
  by (simp_all add: call_def)

lemma ht_used_0: "ht_ok ty h \<Longrightarrow> ht_used h = 0 \<longleftrightarrow> tbl_entries (ht_table h) = {#}"
  by (simp add: ht_ok_def)

lemma check_completed_ok:
  assumes "dict_ok d" "dictIsRehashing d"
  shows "kept d (fst (dictCheckRehashingCompleted d))"
    and "snd (dictCheckRehashingCompleted d) \<longleftrightarrow> ht_used (ht0 d) = 0"
    and "ht_used (ht0 d) = 0 \<Longrightarrow> \<not> dictIsRehashing (fst (dictCheckRehashingCompleted d))"
    and "ht_used (ht0 d) \<noteq> 0 \<Longrightarrow> fst (dictCheckRehashingCompleted d) = d"
proof -
  have h: "ht_ok (dtype d) (ht0 d)" "ht_ok (dtype d) (ht1 d)" using assms by (simp_all add: dict_ok_def)
  show "kept d (fst (dictCheckRehashingCompleted d))"
  proof (cases "ht_used (ht0 d) = 0")
    case True
    then have "tbl_entries (ht_table (ht0 d)) = {#}" using ht_used_0 [OF h(1)] by simp
    then show ?thesis using assms True h
      by (auto simp: kept_def dictCheckRehashingCompleted_def dict_ok_def contents_def same_frame_def dictBuckets_def
          dictReset_def DICTHT_SIZE_def ht_ok_def Let_def has_table_def dictIsRehashing_def split: if_splits)
  qed (simp add: kept_refl [OF assms(1)] dictCheckRehashingCompleted_def)
qed (simp_all add: dictCheckRehashingCompleted_def dictIsRehashing_def Let_def)

lemma nonempty_bucket:
  assumes "dict_ok d" "dictIsRehashing d" "ht_used (ht0 d) \<noteq> 0"
  obtains i where "nat (rehashidx d) \<le> i" "i < length (ht_table (ht0 d))" "ht_table (ht0 d) ! i \<noteq> NoEntry"
proof -
  have "\<exists>i < length (ht_table (ht0 d)). ht_table (ht0 d) ! i \<noteq> NoEntry"
    using assms size_tbl_entries_0 [of "ht_table (ht0 d)"] by (auto simp: dict_ok_def ht_ok_def)
  then obtain i where "i < length (ht_table (ht0 d))" "ht_table (ht0 d) ! i \<noteq> NoEntry" by blast
  moreover then have "\<not> i < nat (rehashidx d)" using assms by (auto simp: dict_ok_def dictIsRehashing_def)
  ultimately show thesis using that by (metis not_less)
qed

lemma rehash_skip_ok:
  assumes "dict_ok d" "dictIsRehashing d" "ht_used (ht0 d) \<noteq> 0" "ev > 0"
  shows "\<exists>r ev' stop. rehash_skip d ev = Some (d\<lparr>rehashidx := r\<rparr>, ev', stop) \<and> dict_ok (d\<lparr>rehashidx := r\<rparr>) \<and>
    rehashidx d \<le> r \<and> (if stop then rehashidx d < r else ev' > 0 \<and> r < int (length (ht_table (ht0 d))))"
  using assms
proof (induction d ev rule: rehash_skip.induct)
  case (1 d ev)
  obtain i where i: "nat (rehashidx d) \<le> i" "i < length (ht_table (ht0 d))" "ht_table (ht0 d) ! i \<noteq> NoEntry"
    using nonempty_bucket "1.prems" by blast
  define b where "b = ht_table (ht0 d) ! nat (rehashidx d)"
  have b: "rd (ht_table (ht0 d)) (nat (rehashidx d)) = Some b" using i by (simp add: rd_def b_def)
  have r0: "0 \<le> rehashidx d" using "1.prems" by (auto simp: dict_ok_def dictIsRehashing_def split: if_splits)
  show ?case
  proof (cases "b = NoEntry")
    case False
    then have "rehash_skip d ev = Some (d\<lparr>rehashidx := rehashidx d\<rparr>, ev, False)" by (subst rehash_skip.simps) (simp add: b)
    then show ?thesis using "1.prems" i r0 by (intro exI [of _ "rehashidx d"] exI [of _ ev] exI [of _ False]) simp
  next
    case True
    define d1 where "d1 = d\<lparr>rehashidx := rehashidx d + 1\<rparr>"
    have "nat (rehashidx d) \<noteq> i" using True i(3) by (auto simp: b_def)
    then have lt: "rehashidx d + 1 \<le> int (length (ht_table (ht0 d)))" using i by linarith
    have "ht_table (ht0 d) ! j = NoEntry" if "j < nat (rehashidx d + 1)" for j
      using that True r0 "1.prems"(1,2) by (cases "j = nat (rehashidx d)") (auto simp: b_def dict_ok_def dictIsRehashing_def)
    then have ok1: "dict_ok d1" using "1.prems"(1,2) lt r0
      by (auto simp: dict_ok_def d1_def dictIsRehashing_def contents_def dictBuckets_def)
    have e: "rehash_skip d ev = (if ev - 1 = 0 then Some (d1, 0, True) else rehash_skip d1 (ev - 1))"
      by (subst rehash_skip.simps) (simp add: b True d1_def Let_def)
    show ?thesis
    proof (cases "ev - 1 = 0")
      case True
      then show ?thesis using e ok1 by (intro exI [of _ "rehashidx d + 1"] exI [of _ 0] exI [of _ True]) (simp add: d1_def)
    next
      case F2: False
      have "\<exists>r ev' stop. rehash_skip d1 (ev - 1) = Some (d1\<lparr>rehashidx := r\<rparr>, ev', stop) \<and> dict_ok (d1\<lparr>rehashidx := r\<rparr>) \<and>
        rehashidx d1 \<le> r \<and> (if stop then rehashidx d1 < r else ev' > 0 \<and> r < int (length (ht_table (ht0 d1))))"
      proof (rule "1.IH" [OF b _ d1_def refl])
        show "dictIsRehashing d1" "ht_used (ht0 d1) \<noteq> 0" using "1.prems" r0 by (simp_all add: d1_def dictIsRehashing_def)
      qed (use True F2 ok1 in auto)
      then obtain r ev' stop where "rehash_skip d1 (ev - 1) = Some (d1\<lparr>rehashidx := r\<rparr>, ev', stop)" "dict_ok (d1\<lparr>rehashidx := r\<rparr>)"
        "rehashidx d1 \<le> r" "if stop then rehashidx d1 < r else ev' > 0 \<and> r < int (length (ht_table (ht0 d1)))" by blast
      then show ?thesis using e F2
        by (intro exI [of _ r] exI [of _ ev'] exI [of _ stop]) (auto simp: d1_def split: if_splits)
    qed
  qed
qed


lemma dictRehash_loop_ok:
  assumes "dict_ok d" "dictIsRehashing d" "n > 0 \<longrightarrow> ev > 0"
  shows "\<exists>d' stop. dictRehash_loop n ev d = Some (d', stop) \<and> kept d d' \<and> dictIsRehashing d' \<and>
     length (ht_table (ht0 d')) = length (ht_table (ht0 d)) \<and>
     ht_size_exp (ht0 d') = ht_size_exp (ht0 d) \<and> ht_size_exp (ht1 d') = ht_size_exp (ht1 d) \<and> rehashidx d \<le> rehashidx d' \<and>
     (n > 0 \<and> ht_used (ht0 d) \<noteq> 0 \<longrightarrow> rehashidx d < rehashidx d') \<and> (ht_used (ht0 d) = 0 \<longrightarrow> \<not> stop \<and> d' = d)"
  using assms
proof (induction n ev d rule: dictRehash_loop.induct)
  case (2 n ev d)
  show ?case
  proof (cases "ht_used (ht0 d) = 0")
    case True
    then show ?thesis using "2.prems" by (intro exI [of _ d] exI [of _ False]) (simp add: kept_refl)
  next
    case False
    obtain r ev' stop where s: "rehash_skip d ev = Some (d\<lparr>rehashidx := r\<rparr>, ev', stop)" "dict_ok (d\<lparr>rehashidx := r\<rparr>)"
      "rehashidx d \<le> r" "if stop then rehashidx d < r else ev' > 0 \<and> r < int (length (ht_table (ht0 d)))"
      using rehash_skip_ok [OF "2.prems"(1,2) False] "2.prems"(3) by blast
    define d1 where "d1 = d\<lparr>rehashidx := r\<rparr>"
    have h: "ht_ok (dtype d) (ht0 d)" and r0: "0 \<le> rehashidx d"
      using "2.prems" by (auto simp: dict_ok_def dictIsRehashing_def split: if_splits)
    have d1: "dict_ok d1" "dictIsRehashing d1" "kept d d1" using s "2.prems"(2) r0
      by (auto simp: d1_def dictIsRehashing_def kept_def contents_def same_frame_def has_table_def)
    have c: "int (DICTHT_SIZE (ht_size_exp (ht0 d))) > rehashidx d"
      using nonempty_bucket [OF "2.prems"(1,2) False] DICTHT_SIZE_ok [OF h] r0 by (metis le_less_trans of_nat_less_iff zero_le int_nat_eq)
    show ?thesis
    proof (cases stop)
      case True
      then have "dictRehash_loop (Suc n) ev d = Some (d1, True)" using False c s(1) by (simp add: d1_def)
      then show ?thesis using d1 s True False by (intro exI [of _ d1] exI [of _ True]) (auto simp: d1_def)
    next
      case F2: False
      then have r: "nat r < length (ht_table (ht0 d1))" using s(4) r0 s(3) by (auto simp: d1_def)
      let ?d2 = "\<lambda>h1. d1\<lparr>ht0 := (ht0 d1)\<lparr>ht_table := (ht_table (ht0 d1))[nat r := NoEntry],
        ht_used := ht_used (ht0 d1) - length (entries (ht_table (ht0 d1) ! nat r))\<rparr>, ht1 := h1\<rparr>"
      obtain h1 where h1: "rehashEntriesInBucketAtIndex d1 (nat r) = Some (?d2 h1)"
        "dict_ok (?d2 h1)" "tbl_entries ((ht_table (ht0 d1))[nat r := NoEntry]) + tbl_entries (ht_table h1) = contents d1"
        "ht_size_exp h1 = ht_size_exp (ht1 d1)"
        using rehash_bucket_ok [OF d1(1,2) r] by blast
      define d2 where "d2 = ?d2 h1"
      define d3 where "d3 = d2\<lparr>rehashidx := rehashidx d2 + 1\<rparr>"
      have rr: "rehashidx d1 = r" "rehashidx d2 = r" by (simp_all add: d1_def d2_def)
      have "dict_ok d3" using h1(2) r d1(2) r0 s(3) unfolding d2_def [symmetric] d3_def
        by (auto simp: dict_ok_def contents_def dictBuckets_def d2_def dictIsRehashing_def nth_list_update d1_def less_Suc_eq nat_add_distrib)
      moreover have "contents d3 = contents d1" "same_frame d1 d3" "has_table d1 \<longrightarrow> has_table d3"
        using h1(3) by (simp_all add: d3_def d2_def contents_def same_frame_def has_table_def)
      ultimately have k3: "kept d d3" using d1(3) by (auto simp: kept_def intro: same_frame_trans)
      have d3: "dictIsRehashing d3" "rehashidx d3 = r + 1" "length (ht_table (ht0 d3)) = length (ht_table (ht0 d))"
        using r0 s(3) rr by (simp_all add: d3_def dictIsRehashing_def) (simp add: d2_def d1_def)
      have x3: "ht_size_exp (ht0 d3) = ht_size_exp (ht0 d)" "ht_size_exp (ht1 d3) = ht_size_exp (ht1 d)"
        using h1(4) by (simp_all add: d3_def d2_def d1_def)
      have d3': "d2\<lparr>rehashidx := r + 1\<rparr> = d3" by (simp add: d3_def rr)
      have e: "dictRehash_loop (Suc n) ev d = dictRehash_loop n ev' d3"
        using False c s(1) F2 h1(1) by (simp add: d1_def [symmetric] d3_def rr d2_def [symmetric])
      obtain d' stop' where "dictRehash_loop n ev' d3 = Some (d', stop')" "kept d3 d'" "dictIsRehashing d'"
        "length (ht_table (ht0 d')) = length (ht_table (ht0 d3))" "rehashidx d3 \<le> rehashidx d'"
        "ht_size_exp (ht0 d') = ht_size_exp (ht0 d3)" "ht_size_exp (ht1 d') = ht_size_exp (ht1 d3)"
        using "2.IH" [of "()" "(d1, ev', False)" d1 "(ev', False)" ev' False d2] False c s F2 h1(1) d3(1) k3
        by (auto simp: kept_def d1_def [symmetric] d2_def [symmetric] d3' rr)
      then show ?thesis using e d3 x3 False s(3) k3
        by (intro exI [of _ d'] exI [of _ stop']) (auto intro: kept_trans)
    qed
  qed
qed (auto simp: kept_refl)


text \<open>The buckets that are still to be visited.\<close>

definition rehash_left :: "('s, 'k, 'v) dict \<Rightarrow> nat" where
  "rehash_left d = nat (int (length (ht_table (ht0 d))) - rehashidx d)"

lemma dictRehash_ok:
  assumes "dict_ok d" "n > 0"
  shows "\<exists>d' more. dictRehash can d n = Some (d', more) \<and> kept d d' \<and>
    (more \<longrightarrow> dictIsRehashing d' \<and> rehash_left d' < rehash_left d) \<and>
    (dictIsRehashing d' \<longrightarrow> ht_size_exp (ht0 d') = ht_size_exp (ht0 d) \<and> ht_size_exp (ht1 d') = ht_size_exp (ht1 d)) \<and>
    (if can = DICT_RESIZE_FORBID \<or> \<not> dictIsRehashing d \<or> rehash_avoided can d then d' = d \<and> \<not> more
     else more \<or> \<not> dictIsRehashing d')"
proof (cases "can = DICT_RESIZE_FORBID \<or> \<not> dictIsRehashing d \<or> rehash_avoided can d")
  case True
  then show ?thesis using assms
    by (intro exI [of _ d] exI [of _ False]) (auto simp: dictRehash_def kept_refl rehash_avoided_def Let_def)
next
  case False
  then have r: "dictIsRehashing d" by simp
  obtain d1 stop where d1: "dictRehash_loop n (n * 10) d = Some (d1, stop)" "kept d d1" "dictIsRehashing d1"
    "length (ht_table (ht0 d1)) = length (ht_table (ht0 d))" "rehashidx d \<le> rehashidx d1"
    "ht_used (ht0 d) \<noteq> 0 \<longrightarrow> rehashidx d < rehashidx d1" "ht_used (ht0 d) = 0 \<longrightarrow> \<not> stop \<and> d1 = d"
    "ht_size_exp (ht0 d1) = ht_size_exp (ht0 d)" "ht_size_exp (ht1 d1) = ht_size_exp (ht1 d)"
    using dictRehash_loop_ok [OF assms(1) r, of n "n * 10"] assms(2) by auto
  have left: "rehash_left d1 < rehash_left d" if "ht_used (ht0 d) \<noteq> 0"
    using that d1(2-6) unfolding rehash_left_def kept_def dict_ok_def dictIsRehashing_def by (auto split: if_splits)
  have e: "dictRehash can d n = (if stop then Some (d1, True)
      else let (d, completed) = dictCheckRehashingCompleted d1 in Some (d, \<not> completed))"
    using False d1(1) by (simp add: dictRehash_def)
  show ?thesis
  proof (cases stop)
    case True
    then show ?thesis using e d1 False left by (intro exI [of _ d1] exI [of _ True]) auto
  next
    case F2: False
    note c = check_completed_ok [OF kept_ok [OF d1(2)] d1(3)]
    define d2 where "d2 = fst (dictCheckRehashingCompleted d1)"
    have e2: "dictRehash can d n = Some (d2, \<not> (ht_used (ht0 d1) = 0))"
      using e F2 c(2) by (simp add: d2_def case_prod_beta)
    have "ht_used (ht0 d) \<noteq> 0" if "ht_used (ht0 d1) \<noteq> 0" using that d1(7) by auto
    then show ?thesis using e2 c d1(2,3,8,9) left False
      by (intro exI [of _ d2] exI [of _ "\<not> (ht_used (ht0 d1) = 0)"]) (auto simp: d2_def intro: kept_trans)
  qed
qed

lemma dictRehash_all_ok:
  assumes "dict_ok d"
  shows "\<exists>d'. dictRehash_all can d = Some d' \<and> kept d d' \<and>
    (if can = DICT_RESIZE_FORBID \<or> \<not> dictIsRehashing d \<or> rehash_avoided can d then d' = d else \<not> dictIsRehashing d')"
  using assms
proof (induction "rehash_left d" arbitrary: d rule: less_induct)
  case less
  obtain d1 more where d1: "dictRehash can d 1000 = Some (d1, more)" "kept d d1" "more \<longrightarrow> dictIsRehashing d1 \<and> rehash_left d1 < rehash_left d"
    "dictIsRehashing d1 \<longrightarrow> ht_size_exp (ht0 d1) = ht_size_exp (ht0 d) \<and> ht_size_exp (ht1 d1) = ht_size_exp (ht1 d)"
    "if can = DICT_RESIZE_FORBID \<or> \<not> dictIsRehashing d \<or> rehash_avoided can d then d1 = d \<and> \<not> more
     else more \<or> \<not> dictIsRehashing d1"
    using dictRehash_ok [OF less.prems, of 1000 can] by auto
  show ?case
  proof (cases more)
    case True
    have n: "\<not> rehash_avoided can d1" "can \<noteq> DICT_RESIZE_FORBID" "dictIsRehashing d1"
      using True d1(3-5) by (auto simp: rehash_avoided_def Let_def split: if_splits)
    obtain d' where "dictRehash_all can d1 = Some d'" "kept d1 d'" "\<not> dictIsRehashing d'"
      using less.hyps [of d1] True d1(2,3) kept_ok n by auto
    then show ?thesis using True d1 by (subst dictRehash_all.simps) (auto intro: kept_trans split: if_splits)
  next
    case False
    then show ?thesis using d1 by (subst dictRehash_all.simps) (auto split: if_splits)
  qed
qed


subsection \<open>Resizing\<close>

lemma floorlog_size:
  assumes "4 < sz" "sz < 2 ^ 63 - 1"
  shows "2 \<le> floorlog 2 (sz - 1) \<and> floorlog 2 (sz - 1) \<le> 63 \<and> sz \<le> 2 ^ floorlog 2 (sz - 1)"
proof -
  define n where "n = floorlog 2 (sz - 1)"
  have b: "2 ^ (n - 1) \<le> sz - 1" "sz - 1 < 2 ^ n" "4 \<le> sz - 1" "sz - 1 < 2 ^ 63"
    using floorlog_bounds [of "sz - 1" 2] assms by (simp_all add: n_def)
  have "n \<le> 63"
  proof (rule ccontr)
    assume "\<not> n \<le> 63"
    then have "(2::nat) ^ 63 \<le> 2 ^ (n - 1)" by (intro power_increasing) auto
    then show False using b(1,4) by linarith
  qed
  moreover have "2 \<le> n"
  proof (rule ccontr)
    assume "\<not> 2 \<le> n"
    then have "(2::nat) ^ n \<le> 2 ^ 1" by (intro power_increasing) auto
    then show False using b(2,3) by simp
  qed
  ultimately show ?thesis using b(2) by (simp add: n_def)
qed

lemma dictNextExp_eq: "4 < sz \<Longrightarrow> sz < 2 ^ 63 - 1 \<Longrightarrow> dictNextExp sz = int (floorlog 2 (sz - 1))"
  using floorlog_size [of sz] by (simp add: dictNextExp_def builtin_clzl_def)

lemma dictNextExp_bounds: "2 \<le> dictNextExp sz \<and> dictNextExp sz \<le> 63"
proof (cases "sz \<le> 4 \<or> sz \<ge> 2 ^ 63 - 1")
  case False
  then show ?thesis using floorlog_size [of sz] dictNextExp_eq [of sz] by simp
qed (auto simp: dictNextExp_def)

lemma dictNextExp_fits: "sz < 2 ^ 63 - 1 \<Longrightarrow> sz \<le> DICTHT_SIZE (dictNextExp sz)"
  using floorlog_size [of sz] dictNextExp_eq [of sz]
  by (cases "sz \<le> 4") (simp_all add: dictNextExp_def DICTHT_SIZE_def)

lemma overflow_check: "2 \<le> e \<Longrightarrow> e \<le> 63 \<Longrightarrow> \<not> (2::nat) ^ nat e * 8 mod 2 ^ 64 < 2 ^ nat e \<Longrightarrow> e \<le> 60"
proof (rule ccontr)
  assume e: "2 \<le> e" "e \<le> 63" "\<not> (2::nat) ^ nat e * 8 mod 2 ^ 64 < 2 ^ nat e" "\<not> e \<le> 60"
  define k where "k = nat e - 61"
  have "nat e = 61 + k" using e(4) by (simp add: k_def)
  then have "(2::nat) ^ nat e * 8 = 2 ^ k * 2 ^ 64" by (simp add: power_add)
  then have "(2::nat) ^ nat e * 8 mod 2 ^ 64 = 0" by (simp only: mod_mult_self2_is_0)
  then show False using e(3) by simp
qed

lemma dictResize_ok:
  assumes ok: "dict_ok d" and r: "\<not> dictIsRehashing d"
  shows "\<exists>d' done failed. dictResize can d sz try = Some (d', done, failed) \<and> kept d d' \<and>
    (ht_table (ht0 d) \<noteq> [] \<or> done \<longrightarrow> ht_table (ht0 d') \<noteq> []) \<and> (failed \<longrightarrow> try = Some False) \<and> rehashidx d' \<le> 0"
proof -
  define e where "e = dictNextExp sz"
  have e: "2 \<le> e" "e \<le> 63" using dictNextExp_bounds [of sz] by (simp_all add: e_def)
  have sz: "DICTHT_SIZE e = 2 ^ nat e" using e by (simp add: DICTHT_SIZE_def)
  define skip where "skip \<longleftrightarrow> DICTHT_SIZE e < sz \<or> DICTHT_SIZE e * 8 mod 2 ^ 64 < DICTHT_SIZE e \<or> e = ht_size_exp (ht0 d)"
  have d0: "ht1 d = dictReset" "rehashidx d = - 1" "ht_ok (dtype d) (ht0 d)" "keys_distinct (dtype d) (contents d)"
    "bucket_sum (calls d) = int (dictBuckets d)" "log_run None (calls d) = Some None"
    using ok r by (auto simp: dict_ok_def dictIsRehashing_def split: if_splits)
  show ?thesis
  proof (cases "skip \<or> try = Some False")
    case True
    have "\<exists>f. dictResize can d sz try = Some (d, False, f) \<and> (f \<longrightarrow> try = Some False)"
      using True r unfolding dictResize_def Let_def e_def [symmetric] skip_def by (auto simp: bind_eq_Some_conv)
    then show ?thesis using kept_refl [OF ok] d0(2) by fastforce
  next
    case False
    then have s: "\<not> (DICTHT_SIZE e < sz \<or> DICTHT_SIZE e * 8 mod 2 ^ 64 < DICTHT_SIZE e)" "e \<noteq> ht_size_exp (ht0 d)" "try \<noteq> Some False"
      by (auto simp: skip_def)
    have e60: "e \<le> 60" using overflow_check [OF e] s(1) by (simp add: sz)
    define new :: "('a, 'c) dictht" where "new = \<lparr>ht_table = replicate (DICTHT_SIZE e) NoEntry, ht_used = 0, ht_size_exp = e\<rparr>"
    have new: "ht_ok (dtype d) new" using ht_ok_new [OF e(1) e60, of "dtype d"] by (simp add: new_def sz)
    have nt: "tbl_entries (ht_table new) = {#}" "ht_table new \<noteq> []" by (simp_all add: new_def sz)
    define d1 where "d1 = call (BucketChanged (int (DICTHT_SIZE e))) (call (RehashingStarted (DICTHT_SIZE (ht_size_exp (ht0 d)))) (d\<lparr>ht1 := new, rehashidx := 0\<rparr>))"
    have d1: "dtype d1 = dtype d" "ht0 d1 = ht0 d" "ht1 d1 = new" "rehashidx d1 = 0" "same_frame d d1"
      "bucket_sum (calls d1) = bucket_sum (calls d) + int (DICTHT_SIZE e)"
      "log_run None (calls d1) = Some (Some (DICTHT_SIZE (ht_size_exp (ht0 d))))" "length (calls d) \<le> length (calls d1)"
      using d0(6) by (simp_all add: d1_def same_frame_def)
    have c1: "contents d1 = contents d" using d0(1) nt by (simp add: contents_def d1 dictReset_def)
    have E: "dictResize can d sz try =
        (if ht_table (ht0 d) = [] \<or> ht_used (ht0 d) = 0 then
           Some ((call (BucketChanged (- int (DICTHT_SIZE (ht_size_exp (ht0 d))))) (call (RehashingCompleted (DICTHT_SIZE (ht_size_exp (ht0 d)))) d1))
              \<lparr>ht0 := new, ht1 := dictReset, rehashidx := - 1\<rparr>, True, False)
         else do { d \<leftarrow> (if force_full_rehash (dtype d) then dictRehash_all can d1 else Some d1); Some (d, True, False) })"
      using s r unfolding dictResize_def Let_def e_def [symmetric] new_def [symmetric]
      by (simp add: d1_def new_def)
    show ?thesis
    proof (cases "ht_table (ht0 d) = [] \<or> ht_used (ht0 d) = 0")
      case True
      define d2 where "d2 = (call (BucketChanged (- int (DICTHT_SIZE (ht_size_exp (ht0 d))))) (call (RehashingCompleted (DICTHT_SIZE (ht_size_exp (ht0 d)))) d1))
              \<lparr>ht0 := new, ht1 := dictReset, rehashidx := - 1\<rparr>"
      have "tbl_entries (ht_table (ht0 d)) = {#}" using True ht_used_0 [OF d0(3)] by auto
      then have "contents d = {#}" using d0(1) by (simp add: contents_def dictReset_def)
      moreover have "bucket_sum (calls d2) = int (dictBuckets d2)"
      proof -
        have "calls d2 = calls d1 @ [RehashingCompleted (DICTHT_SIZE (ht_size_exp (ht0 d))), BucketChanged (- int (DICTHT_SIZE (ht_size_exp (ht0 d))))]"
          by (simp add: d2_def call_def)
        then show ?thesis using d1(6) d0(1,5) by (simp add: d2_def dictBuckets_def dictReset_def new_def DICTHT_SIZE_def)
      qed
      ultimately have "kept d d2" using new nt d1 d0(4)
        by (simp add: kept_def dict_ok_def d2_def contents_def same_frame_def dictReset_def [symmetric])
           (simp add: dictReset_def has_table_def)
      then show ?thesis using E True nt by (intro exI [of _ d2] exI [of _ True] exI [of _ False]) (simp add: d2_def)
    next
      case F2: False
      have "dict_ok d1" using d0 new nt d1 F2 c1
        by (simp add: dict_ok_def dictBuckets_def contents_def) (simp add: new_def dictReset_def DICTHT_SIZE_def)
      then have k1: "kept d d1" using c1 d1(2,5) by (simp add: kept_def has_table_def)
      show ?thesis
      proof (cases "force_full_rehash (dtype d)")
        case True
        then obtain d2 where d2: "dictRehash_all can d1 = Some d2" "kept d1 d2" "d2 = d1 \<or> \<not> dictIsRehashing d2"
          using dictRehash_all_ok [OF \<open>dict_ok d1\<close>, of can] by (auto split: if_splits)
        have "ht_table (ht0 d2) \<noteq> []"
        proof
          assume a: "ht_table (ht0 d2) = []"
          then have "rehashidx d2 = - 1" using kept_ok [OF d2(2)] by (auto simp: dict_ok_def split: if_splits)
          then have "contents d2 = {#}" using a kept_ok [OF d2(2)] by (auto simp: dict_ok_def contents_def dictReset_def)
          then have "tbl_entries (ht_table (ht0 d)) = {#}" using d2(2) k1 by (simp add: kept_def contents_def)
          then show False using F2 ht_used_0 [OF d0(3)] by simp
        qed
        moreover have "rehashidx d2 \<le> 0" using d2(3) d1(4) by (auto simp: dictIsRehashing_def)
        ultimately show ?thesis using E F2 True d2 k1 by (auto intro: kept_trans)
      next
        case False
        then show ?thesis using E F2 k1 d1(2,4) by auto
      qed
    qed
  qed
qed


lemma has_table_contents: "dict_ok d \<Longrightarrow> contents d \<noteq> {#} \<Longrightarrow> has_table d"
  by (auto simp: has_table_def dict_ok_def contents_def dictReset_def split: if_splits)

lemma has_table_rehashing: "dict_ok d \<Longrightarrow> dictIsRehashing d \<Longrightarrow> has_table d"
  by (auto simp: has_table_def dict_ok_def dictIsRehashing_def split: if_splits)

lemma dictExpand_ok:
  assumes "dict_ok d"
  shows "\<exists>d' ok. dictExpand can d sz = Some (d', ok) \<and> kept d d' \<and> (has_table d \<or> ok \<longrightarrow> has_table d') \<and>
    (d' = d \<or> rehashidx d' \<le> 0)"
  using dictResize_ok [OF assms, of can sz None] kept_refl [OF assms]
  by (auto simp: dictExpand_def priv_dictExpand_def has_table_def)

lemma dictTryExpand_ok:
  assumes "dict_ok d"
  shows "\<exists>d' ok. dictTryExpand can d sz mem = Some (d', ok) \<and> kept d d' \<and> (mem \<longrightarrow> ok)"
proof (cases "dictIsRehashing d \<or> ht_used (ht0 d) > sz \<or> DICTHT_SIZE (ht_size_exp (ht0 d)) \<ge> sz")
  case True
  then show ?thesis using kept_refl [OF assms] by (auto simp: dictTryExpand_def priv_dictExpand_def)
next
  case False
  then obtain d' ok f where "dictResize can d sz (Some mem) = Some (d', ok, f)" "kept d d'" "f \<longrightarrow> \<not> mem"
    using dictResize_ok [OF assms, of can sz "Some mem"] by auto
  then show ?thesis using False
    by (intro exI [of _ d'] exI [of _ "\<not> f"]) (auto simp: dictTryExpand_def priv_dictExpand_def)
qed

lemma dictShrink_ok:
  assumes "dict_ok d"
  shows "\<exists>d' ok. dictShrink can d sz = Some (d', ok) \<and> kept d d' \<and> (has_table d \<longrightarrow> has_table d')"
  using dictResize_ok [OF assms, of can sz None] kept_refl [OF assms]
  by (auto simp: dictShrink_def has_table_def)

lemma dictExpand_initial:
  assumes "dict_ok d" "\<not> has_table d"
  shows "\<exists>d'. dictExpand can d DICT_HT_INITIAL_SIZE = Some (d', True)"
proof -
  have r: "\<not> dictIsRehashing d" using assms has_table_rehashing by blast
  have t: "ht_table (ht0 d) = []" "ht_size_exp (ht0 d) = - 1" "ht_used (ht0 d) = 0"
    using assms by (auto simp: has_table_def dict_ok_def ht_ok_def)
  show ?thesis using r t
    by (simp add: dictExpand_def priv_dictExpand_def dictResize_def dictNextExp_def DICTHT_SIZE_def Let_def)
qed

lemma dictExpandIfNeeded_ok:
  assumes "dict_ok d"
  shows "\<exists>d' ok. dictExpandIfNeeded can d = Some (d', ok) \<and> kept d d' \<and> has_table d' \<and> (d' = d \<or> rehashidx d' \<le> 0)"
proof -
  consider "dictIsRehashing d" | "\<not> dictIsRehashing d" "\<not> has_table d" | "\<not> dictIsRehashing d" "has_table d" by blast
  then show ?thesis
  proof cases
    case 1
    then show ?thesis using has_table_rehashing [OF assms] kept_refl [OF assms] by (simp add: dictExpandIfNeeded_def)
  next
    case 2
    then have "DICTHT_SIZE (ht_size_exp (ht0 d)) = 0" using assms by (auto simp: has_table_def dict_ok_def ht_ok_def DICTHT_SIZE_def)
    moreover obtain d' where "dictExpand can d DICT_HT_INITIAL_SIZE = Some (d', True)" using dictExpand_initial [OF assms 2(2)] by blast
    ultimately show ?thesis using 2 dictExpand_ok [OF assms, of can DICT_HT_INITIAL_SIZE] by (auto simp: dictExpandIfNeeded_def)
  next
    case 3
    then have z: "DICTHT_SIZE (ht_size_exp (ht0 d)) \<noteq> 0"
      using assms DICTHT_SIZE_ok [of "dtype d" "ht0 d"] by (simp add: has_table_def dict_ok_def)
    obtain d' ok where e: "dictExpand can d (ht_used (ht0 d) + 1) = Some (d', ok)" "kept d d'" "has_table d'" "d' = d \<or> rehashidx d' \<le> 0"
      using dictExpand_ok [OF assms, of can "ht_used (ht0 d) + 1"] 3(2) by blast
    show ?thesis
    proof (cases "can = DICT_RESIZE_ENABLE \<and> ht_used (ht0 d) \<ge> DICTHT_SIZE (ht_size_exp (ht0 d)) \<or>
              can \<noteq> DICT_RESIZE_FORBID \<and> ht_used (ht0 d) \<ge> dict_force_resize_ratio * DICTHT_SIZE (ht_size_exp (ht0 d)) mod 2 ^ 64")
      case True
      then show ?thesis using 3 z e kept_refl [OF assms]
        unfolding dictExpandIfNeeded_def by (cases "dictTypeResizeAllowed d (ht_used (ht0 d) + 1)") simp_all
    next
      case False
      then show ?thesis using 3 z kept_refl [OF assms] unfolding dictExpandIfNeeded_def by auto
    qed
  qed
qed

lemma priv_dictExpandIfNeeded_ok:
  assumes "dict_ok d" "has_table d \<or> pauseAutoResize d \<le> 0"
  shows "\<exists>d' ok. priv_dictExpandIfNeeded can d = Some (d', ok) \<and> kept d d' \<and> has_table d' \<and> (d' = d \<or> rehashidx d' \<le> 0)"
  using dictExpandIfNeeded_ok [OF assms(1), of can] assms kept_refl [OF assms(1)]
  by (auto simp: priv_dictExpandIfNeeded_def)

lemma dictShrinkIfNeeded_ok:
  assumes "dict_ok d"
  shows "\<exists>d' ok. dictShrinkIfNeeded can d = Some (d', ok) \<and> kept d d' \<and> (has_table d \<longrightarrow> has_table d')"
proof -
  obtain d' ok where "dictShrink can d (ht_used (ht0 d)) = Some (d', ok)" "kept d d'" "has_table d \<longrightarrow> has_table d'"
    using dictShrink_ok [OF assms] by blast
  then show ?thesis using kept_refl [OF assms] unfolding dictShrinkIfNeeded_def by auto
qed

lemma priv_dictShrinkIfNeeded_ok:
  assumes "dict_ok d"
  shows "\<exists>d'. priv_dictShrinkIfNeeded can d = Some d' \<and> kept d d' \<and> (has_table d \<longrightarrow> has_table d')"
  using dictShrinkIfNeeded_ok [OF assms, of can] kept_refl [OF assms] by (auto simp: priv_dictShrinkIfNeeded_def)

lemma dictRehashStep_ok:
  assumes "dict_ok d"
  shows "\<exists>d'. dictRehashStep can d = Some d' \<and> kept d d'"
  using dictRehash_ok [OF assms, of 1 can] kept_refl [OF assms] by (auto simp: dictRehashStep_def)


lemma dictBucketRehash_ok:
  assumes "dict_ok d" "dictIsRehashing d \<longrightarrow> idx < length (ht_table (ht0 d))"
  shows "\<exists>d' b. dictBucketRehash can d idx = Some (d', b) \<and> kept d d' \<and>
    (dictIsRehashing d' \<longrightarrow> dictIsRehashing d \<and> ht_size_exp (ht0 d') = ht_size_exp (ht0 d))"
proof (cases "pauserehash d \<noteq> 0 \<or> can = DICT_RESIZE_FORBID \<or> \<not> dictIsRehashing d \<or> rehash_avoided can d")
  case True
  then show ?thesis using kept_refl [OF assms(1)] by (auto simp: dictBucketRehash_def)
next
  case False
  let ?d2 = "\<lambda>h1. d\<lparr>ht0 := (ht0 d)\<lparr>ht_table := (ht_table (ht0 d))[idx := NoEntry],
        ht_used := ht_used (ht0 d) - length (entries (ht_table (ht0 d) ! idx))\<rparr>, ht1 := h1\<rparr>"
  obtain h1 where h1: "rehashEntriesInBucketAtIndex d idx = Some (?d2 h1)" "dict_ok (?d2 h1)"
    "tbl_entries ((ht_table (ht0 d))[idx := NoEntry]) + tbl_entries (ht_table h1) = contents d"
    using rehash_bucket_ok [of d idx] assms False by blast
  define d2 where "d2 = ?d2 h1"
  have d2: "dict_ok d2" "dictIsRehashing d2" "kept d d2" "ht_size_exp (ht0 d2) = ht_size_exp (ht0 d)"
    using h1(2,3) False by (simp_all add: d2_def dictIsRehashing_def kept_def contents_def same_frame_def has_table_def)
  note c = check_completed_ok [OF d2(1,2)]
  have "dictBucketRehash can d idx = Some (fst (dictCheckRehashingCompleted d2), True)"
    using False h1(1) by (simp add: dictBucketRehash_def d2_def)
  moreover have "dictIsRehashing (fst (dictCheckRehashingCompleted d2)) \<longrightarrow> ht_size_exp (ht0 (fst (dictCheckRehashingCompleted d2))) = ht_size_exp (ht0 d)"
    using c(3,4) d2(4) by fastforce
  ultimately show ?thesis using c(1) d2(3) False by (auto intro: kept_trans)
qed

lemma dictRehashStepIfNeeded_ok:
  assumes "dict_ok d" "dictIsRehashing d \<longrightarrow> idx < length (ht_table (ht0 d))"
  shows "\<exists>d'. dictRehashStepIfNeeded can d idx = Some d' \<and> kept d d' \<and>
    (dictIsRehashing d' \<longrightarrow> dictIsRehashing d \<and> ht_size_exp (ht0 d') = ht_size_exp (ht0 d))"
proof (cases "\<not> dictIsRehashing d \<or> pauserehash d \<noteq> 0")
  case True
  then show ?thesis using kept_refl [OF assms(1)] by (auto simp: dictRehashStepIfNeeded_def)
next
  case False
  then have r: "dictIsRehashing d" "pauserehash d = 0" "idx < length (ht_table (ht0 d))" using assms(2) by auto
  obtain d1 b where b: "dictBucketRehash can d idx = Some (d1, b)" "kept d d1"
    "dictIsRehashing d1 \<longrightarrow> ht_size_exp (ht0 d1) = ht_size_exp (ht0 d)"
    using dictBucketRehash_ok [OF assms] by blast
  obtain d2 m where m: "dictRehash can d 1 = Some (d2, m)" "kept d d2"
    "dictIsRehashing d2 \<longrightarrow> ht_size_exp (ht0 d2) = ht_size_exp (ht0 d)"
    using dictRehash_ok [OF assms(1), of 1 can] by auto
  show ?thesis using r b m by (auto simp: dictRehashStepIfNeeded_def rd_def)
qed

end
