(* ===== verification/Dict_Map.thy ===== *)
theory Dict_Map
  imports Dict_Inv
begin

unbundle bit_operations_syntax

text \<open>
  The operations of a dict seen as a finite map from keys to entries: lookup, insertion, replacement and
  deletion, with the rehashing steps and the resizes they trigger.
\<close>

subsection \<open>The map of a dict\<close>

abbreviation key_of :: "('s, 'k, 'v) dict \<Rightarrow> 's \<times> 'v option \<Rightarrow> 'k" where
  "key_of d e \<equiv> keyFromStoredKey (dtype d) (fst e)"

definition all_entries :: "('s, 'k, 'v) dict \<Rightarrow> ('s \<times> 'v option) list" where
  "all_entries d = concat (map entries (ht_table (ht0 d))) @ concat (map entries (ht_table (ht1 d)))"

definition dict_map :: "('s, 'k, 'v) dict \<Rightarrow> 'k \<rightharpoonup> 's \<times> 'v option" where
  "dict_map d = map_of (map (\<lambda>e. (key_of d e, e)) (all_entries d))"

lemma mset_all_entries: "mset (all_entries d) = contents d"
  by (simp add: all_entries_def contents_def tbl_entries_def)

lemma distinct_map_filter: "distinct (map f xs) \<longleftrightarrow> (\<forall>k. length (filter (\<lambda>x. f x = k) xs) \<le> 1)"
proof (induction xs)
  case (Cons x xs)
  have "f x \<notin> f ` set xs \<longleftrightarrow> filter (\<lambda>y. f y = f x) xs = []"
    by (auto simp: filter_empty_conv) (metis image_eqI)+
  then have "f x \<notin> f ` set xs \<longleftrightarrow> length (filter (\<lambda>y. f y = f x) xs) = 0" by simp
  with Cons show ?case by (auto simp: le_Suc_eq)
qed simp

lemma keys_distinct_mset: "keys_distinct ty (mset xs) \<longleftrightarrow> distinct (map (\<lambda>e. keyFromStoredKey ty (fst e)) xs)"
  unfolding keys_distinct_def distinct_map_filter by (simp flip: mset_filter)

lemma dict_map_iff:
  assumes "dict_ok d"
  shows "dict_map d k = Some e \<longleftrightarrow> e \<in># contents d \<and> key_of d e = k"
proof -
  have "distinct (map (key_of d) (all_entries d))"
    using assms keys_distinct_mset [of "dtype d" "all_entries d"] by (simp add: dict_ok_def mset_all_entries)
  then have "dict_map d k = Some e \<longleftrightarrow> (k, e) \<in> set (map (\<lambda>e. (key_of d e, e)) (all_entries d))"
    unfolding dict_map_def by (intro map_of_eq_Some_iff) (simp add: comp_def)
  also have "\<dots> \<longleftrightarrow> e \<in># contents d \<and> key_of d e = k" by (auto simp flip: mset_all_entries)
  finally show ?thesis .
qed

lemma dict_map_None:
  assumes "dict_ok d"
  shows "dict_map d k = None \<longleftrightarrow> (\<forall>e. e \<in># contents d \<longrightarrow> key_of d e \<noteq> k)"
  using dict_map_iff [OF assms, of k] by (metis not_None_eq)

lemma kept_map: "dict_ok d \<Longrightarrow> kept d d' \<Longrightarrow> dict_map d' = dict_map d"
proof
  fix k assume "dict_ok d" "kept d d'"
  then have "dict_map d' k = Some e \<longleftrightarrow> dict_map d k = Some e" for e
    using dict_map_iff [of d k e] dict_map_iff [of d' k e] by (simp add: kept_def same_frame_def)
  then show "dict_map d' k = dict_map d k" by (metis not_None_eq)
qed

lemma dict_map_add:
  assumes "dict_ok d" "dict_ok d'" "dtype d' = dtype d" "contents d' = add_mset e (contents d)"
  shows "dict_map d' = (dict_map d)(key_of d e \<mapsto> e)"
proof
  fix k
  have "dict_map d' (key_of d e) = Some e" using dict_map_iff [OF assms(2)] assms(3,4) by simp
  moreover have "dict_map d' k = Some x \<longleftrightarrow> dict_map d k = Some x" if "k \<noteq> key_of d e" for x
    using that dict_map_iff [OF assms(2), of k x] dict_map_iff [OF assms(1), of k x] assms(3,4) by auto
  ultimately show "dict_map d' k = ((dict_map d)(key_of d e \<mapsto> e)) k" by (metis fun_upd_apply not_None_eq)
qed

lemma dict_map_remove:
  assumes "dict_ok d" "dict_ok d'" "dtype d' = dtype d" "contents d = add_mset e (contents d')"
  shows "dict_map d' = (dict_map d)(key_of d e := None)"
proof -
  have "dict_map d = (dict_map d')(key_of d e \<mapsto> e)" using dict_map_add [OF assms(2,1)] assms(3,4) by simp
  moreover have "dict_map d' (key_of d e) = None"
  proof (rule ccontr)
    assume "dict_map d' (key_of d e) \<noteq> None"
    then obtain x where x: "x \<in># contents d'" "key_of d x = key_of d e" using dict_map_iff [OF assms(2)] assms(3) by auto
    obtain M where "contents d' = add_mset x M" using x(1) by (metis mset_add)
    then show False using assms(1,4) x(2) unfolding dict_ok_def keys_distinct_def by (auto dest!: spec [of _ "key_of d e"])
  qed
  ultimately show ?thesis by auto
qed

subsection \<open>Chains\<close>

lemma chain_find_None: "chain_find f key de = None \<longleftrightarrow> (\<forall>e \<in> set (entries de). f (fst e) \<noteq> key)"
  by (induction de) auto

lemma chain_find_Some:
  assumes "chain_find f key de = Some j"
  shows "\<exists>x. chain_at de j = Some x \<and> x \<noteq> NoEntry \<and> f (fst (hd (entries x))) = key \<and>
    j < length (entries de) \<and> entries x = drop j (entries de)"
  using assms
proof (induction de arbitrary: j)
  case (EntryNoValue n s)
  then show ?case by (cases "key = f s") (fastforce simp: dictGetNext_def)+
next
  case (Entry n s v)
  then show ?case by (cases "key = f s") (fastforce simp: dictGetNext_def)+
qed (auto split: if_splits)

lemma chain_at_kind: "chain_at de j = Some x \<Longrightarrow> kind_ok nv de \<Longrightarrow> kind_ok nv x"
  by (induction de j rule: chain_at.induct) (auto simp: dictGetNext_def bind_eq_Some_conv split: dictEntry.splits)

lemma chain_at_NoEntry: "chain_at NoEntry i = Some x \<longleftrightarrow> i = 0 \<and> x = NoEntry"
  by (cases i) (auto simp: dictGetNext_def)

lemma chain_set_ok:
  assumes "chain_at de j = Some x" "x \<noteq> NoEntry" "kind_ok nv de" "kind_ok nv y"
  shows "\<exists>de'. chain_set de j y = Some de' \<and> kind_ok nv de' \<and> entries de' = take j (entries de) @ entries y \<and>
    (y \<noteq> NoEntry \<or> j > 0 \<longrightarrow> de' \<noteq> NoEntry)"
  using assms
proof (induction j arbitrary: de)
  case (Suc i)
  show ?case
  proof (cases de)
    case (EntryNoValue n s)
    then obtain n' where "chain_set n i y = Some n'" "kind_ok nv n'" "entries n' = take i (entries n) @ entries y"
      using Suc.IH [of n] Suc.prems by (auto simp: dictGetNext_def)
    then show ?thesis using EntryNoValue Suc.prems by (simp add: dictGetNext_def dictSetNext_def)
  next
    case (Entry n s v)
    then obtain n' where "chain_set n i y = Some n'" "kind_ok nv n'" "entries n' = take i (entries n) @ entries y"
      using Suc.IH [of n] Suc.prems by (auto simp: dictGetNext_def)
    then show ?thesis using Entry Suc.prems by (simp add: dictGetNext_def dictSetNext_def)
  qed (use Suc.prems in \<open>auto simp: dictGetNext_def chain_at_NoEntry\<close>)
qed auto

lemma chain_unlink_None: "chain_unlink f key de = None \<longleftrightarrow> (\<forall>e \<in> set (entries de). f (fst e) \<noteq> key)"
  by (induction de) auto

lemma chain_unlink_Some:
  assumes "chain_unlink f key de = Some (he, rest)" "kind_ok nv de"
  shows "he \<noteq> NoEntry \<and> f (fst (hd (entries he))) = key \<and> kind_ok nv rest \<and> set (entries rest) \<subseteq> set (entries de) \<and>
    mset (entries de) = add_mset (hd (entries he)) (mset (entries rest))"
  using assms by (induction de arbitrary: rest) (fastforce split: if_splits)+


subsection \<open>Changing a bucket\<close>

lemma get_ht_simps [simp]:
  "get_ht d 0 = ht0 d" "get_ht d (Suc 0) = ht1 d" "set_ht d 0 h = d\<lparr>ht0 := h\<rparr>" "set_ht d (Suc 0) h = d\<lparr>ht1 := h\<rparr>"
  by (simp_all add: get_ht_def set_ht_def)

lemma contents_bucket:
  assumes "t \<le> 1" "i < length (ht_table (get_ht d t))"
  shows "contents (set_ht d t ((get_ht d t)\<lparr>ht_table := (ht_table (get_ht d t))[i := b], ht_used := n\<rparr>)) +
      mset (entries (ht_table (get_ht d t) ! i)) = contents d + mset (entries b)"
proof -
  have "t = 0 \<or> t = Suc 0" using assms(1) by auto
  then show ?thesis
    using tbl_entries_update [OF assms(2), of b] by (elim disjE) (simp_all add: contents_def add.assoc add.commute add.left_commute)
qed

lemma dict_ok_get_ht: "dict_ok d \<Longrightarrow> t \<le> 1 \<Longrightarrow> ht_ok (dtype d) (get_ht d t)"
  by (auto simp: dict_ok_def get_ht_def)

lemma dict_ok_bucket:
  assumes ok: "dict_ok d" and t: "t \<le> 1" "i < length (ht_table (get_ht d t))" and b: "kind_ok (no_value (dtype d)) b"
    "\<forall>e \<in> set (entries b). slot (hashFunction (dtype d) (key_of d e)) (ht_size_exp (get_ht d t)) = i"
    and n: "n + length (entries (ht_table (get_ht d t) ! i)) = ht_used (get_ht d t) + length (entries b)"
    and r: "t = 0 \<longrightarrow> int i < rehashidx d \<longrightarrow> b = NoEntry"
    and k: "keys_distinct (dtype d) M" and M: "M + mset (entries (ht_table (get_ht d t) ! i)) = contents d + mset (entries b)"
    and d': "d' = set_ht d t ((get_ht d t)\<lparr>ht_table := (ht_table (get_ht d t))[i := b], ht_used := n\<rparr>)"
  shows "dict_ok d' \<and> contents d' = M \<and> same_frame d d' \<and> (has_table d \<longrightarrow> has_table d') \<and>
    rehashidx d' = rehashidx d \<and> ht_size_exp (ht0 d') = ht_size_exp (ht0 d) \<and> ht_size_exp (ht1 d') = ht_size_exp (ht1 d)"
proof -
  have h: "ht_ok (dtype d) ((get_ht d t)\<lparr>ht_table := (ht_table (get_ht d t))[i := b], ht_used := n\<rparr>)"
    using ht_ok_update [OF dict_ok_get_ht [OF ok t(1)] t(2) b(1) _ n] b(2) by blast
  have c: "contents d' = M" using contents_bucket [OF t, where b = b and n = n] M unfolding d' by (metis add_right_imp_eq)
  have tt: "t = 0 \<or> t = Suc 0" using t(1) by auto
  then have "dict_ok d'"
  proof
    assume t0: "t = 0"
    then have "(ht_table (ht0 d))[i := b] ! j = NoEntry" if "j < nat (rehashidx d)" for j
      using that r ok t(2) by (auto simp: nth_list_update dict_ok_def split: if_splits)
    then show ?thesis using ok h c k t(2) unfolding d' t0
      by (auto simp: dict_ok_def dictBuckets_def)
  next
    assume t1: "t = Suc 0"
    then have "ht_table (ht1 d) \<noteq> []" using t(2) by auto
    then have "rehashidx d \<noteq> - 1" using ok by (auto simp: dict_ok_def dictReset_def)
    then show ?thesis using ok h c k t(2) unfolding d' t1 by (auto simp: dict_ok_def dictBuckets_def)
  qed
  then show ?thesis using c tt t(2) unfolding d' by (auto simp: same_frame_def has_table_def)
qed



subsection \<open>Lookup\<close>

text \<open>A position that holds the entry \<open>x\<close>.\<close>

definition valid_pos :: "('s, 'k, 'v) dict \<Rightarrow> dict_pos \<Rightarrow> ('s, 'v) dictEntry \<Rightarrow> bool" where
  "valid_pos d p x = (case p of (t, i, j) \<Rightarrow> t \<le> 1 \<and> i < length (ht_table (get_ht d t)) \<and>
     chain_at (ht_table (get_ht d t) ! i) j = Some x \<and> x \<noteq> NoEntry \<and>
     j < length (entries (ht_table (get_ht d t) ! i)) \<and> entries x = drop j (entries (ht_table (get_ht d t) ! i)))"

lemma valid_pos_get: "valid_pos d p x \<Longrightarrow> get_entry d p = Some x"
  by (auto simp: valid_pos_def get_entry_def rd_def)

lemma valid_pos_mem: "valid_pos d p x \<Longrightarrow> hd (entries x) \<in># contents d"
proof -
  assume v: "valid_pos d p x"
  obtain t i j where p: "p = (t, i, j)" by (cases p)
  have t: "t = 0 \<or> t = Suc 0" using v p by (auto simp: valid_pos_def)
  have "hd (entries x) \<in> set (entries (ht_table (get_ht d t) ! i))"
    using v p by (auto simp: valid_pos_def hd_drop_conv_nth)
  then have "hd (entries x) \<in># tbl_entries (ht_table (get_ht d t))"
    using v p by (auto simp: valid_pos_def tbl_entries_mem)
  then show ?thesis using t by (auto simp: contents_def)
qed

lemma dictSize_contents: "dict_ok d \<Longrightarrow> dictSize d = size (contents d)"
  by (simp add: dict_ok_def ht_ok_def dictSize_def contents_def)

lemma find_in_table_ok:
  assumes "dict_ok d" "t \<le> 1" "ht_table (get_ht d t) \<noteq> []"
    and idx_def: "idx = slot (dictGetHash d key) (ht_size_exp (get_ht d t))"
  shows "\<exists>r. find_in_table d (dictGetHash d key) key t = Some (idx, r) \<and> idx < length (ht_table (get_ht d t)) \<and>
    (r = None \<longrightarrow> (\<forall>e. e \<in># tbl_entries (ht_table (get_ht d t)) \<longrightarrow> key_of d e \<noteq> key)) \<and>
    (\<forall>p. r = Some p \<longrightarrow> (\<exists>x. valid_pos d p x \<and> key_of d (hd (entries x)) = key))"
proof -
  have ok: "ht_ok (dtype d) (get_ht d t)" using dict_ok_get_ht [OF assms(1,2)] .
  have i: "idx < length (ht_table (get_ht d t))" unfolding idx_def using ht_ok_slot [OF ok assms(3)] .
  define b where "b = ht_table (get_ht d t) ! idx"
  define r where "r = map_option (\<lambda>j. (t, idx, j)) (chain_find (dictStoredKey2Key d) key b)"
  have "find_in_table d (dictGetHash d key) key t = Some (idx, r)"
    using i unfolding find_in_table_def idx_def [symmetric] by (simp add: rd_def r_def b_def)
  moreover have "key_of d e \<noteq> key" if rN: "r = None" and em: "e \<in># tbl_entries (ht_table (get_ht d t))" for e
  proof
    assume k: "key_of d e = key"
    obtain i' where i': "i' < length (ht_table (get_ht d t))" "e \<in> set (entries (ht_table (get_ht d t) ! i'))"
      using em by (auto simp: tbl_entries_mem)
    then have "i' = idx" using ht_ok_tableI [OF ok i'] k by (simp add: idx_def dictGetHash_def)
    then show False using rN i' k chain_find_None [of "dictStoredKey2Key d" key b]
      by (auto simp: r_def b_def dictStoredKey2Key_def)
  qed
  moreover have "\<exists>x. valid_pos d p x \<and> key_of d (hd (entries x)) = key" if "r = Some p" for p
    using that chain_find_Some [of "dictStoredKey2Key d" key b] i assms(2)
    by (auto simp: r_def valid_pos_def b_def [symmetric] dictStoredKey2Key_def)
  ultimately show ?thesis using i by blast
qed

lemma below_rehashidx:
  assumes "dict_ok d" "int (slot (dictGetHash d key) (ht_size_exp (ht0 d))) < rehashidx d" "e \<in># tbl_entries (ht_table (ht0 d))"
  shows "key_of d e \<noteq> key"
proof
  assume k: "key_of d e = key"
  obtain i where i: "i < length (ht_table (ht0 d))" "e \<in> set (entries (ht_table (ht0 d) ! i))"
    using assms(3) by (auto simp: tbl_entries_mem)
  have "ht_ok (dtype d) (ht0 d)" using assms(1) by (simp add: dict_ok_def)
  then have "slot (dictGetHash d key) (ht_size_exp (ht0 d)) = i" using ht_ok_tableI [OF _ i, of "dtype d"] k by (simp add: dictGetHash_def)
  then have "ht_table (ht0 d) ! i = NoEntry" using assms(1,2) by (auto simp: dict_ok_def split: if_splits)
  then show False using i(2) by simp
qed

lemma step_slot:
  "dict_ok d \<Longrightarrow> dictIsRehashing d \<longrightarrow> slot h (ht_size_exp (ht0 d)) < length (ht_table (ht0 d))"
  using ht_ok_slot [of "dtype d" "ht0 d" h] has_table_rehashing [of d] by (auto simp: dict_ok_def has_table_def)

lemma kept_hash: "kept d d' \<Longrightarrow> dictGetHash d' key = dictGetHash d key"
  by (simp add: kept_def same_frame_def dictGetHash_def)

text \<open>What the searches of the two tables find together.\<close>

lemma find_tables_ok:
  assumes ok: "dict_ok d" "has_table d" and hash: "hash = dictGetHash d key"
  obtains r0 r1 where "find_in_table d hash key 0 = Some (slot hash (ht_size_exp (ht0 d)), r0)"
    "\<forall>p. r0 = Some p \<longrightarrow> (\<exists>x. valid_pos d p x \<and> key_of d (hd (entries x)) = key)"
    "dictIsRehashing d \<longrightarrow> find_in_table d hash key 1 = Some (slot hash (ht_size_exp (ht1 d)), r1)"
    "\<forall>p. r1 = Some p \<longrightarrow> (\<exists>x. valid_pos d p x \<and> key_of d (hd (entries x)) = key)"
    "r0 = None \<or> int (slot hash (ht_size_exp (ht0 d))) < rehashidx d \<longrightarrow> r1 = None \<or> \<not> dictIsRehashing d \<longrightarrow> dict_map d key = None"
proof -
  obtain r0 where r0: "find_in_table d hash key 0 = Some (slot hash (ht_size_exp (ht0 d)), r0)"
    "r0 = None \<longrightarrow> (\<forall>e. e \<in># tbl_entries (ht_table (ht0 d)) \<longrightarrow> key_of d e \<noteq> key)"
    "\<forall>p. r0 = Some p \<longrightarrow> (\<exists>x. valid_pos d p x \<and> key_of d (hd (entries x)) = key)"
    using find_in_table_ok [OF ok(1), of 0 _ key, OF _ _ refl] ok(2) hash by (auto simp: has_table_def)
  have t1: "\<exists>r1. find_in_table d hash key 1 = Some (slot hash (ht_size_exp (ht1 d)), r1) \<and>
    (r1 = None \<longrightarrow> (\<forall>e. e \<in># tbl_entries (ht_table (ht1 d)) \<longrightarrow> key_of d e \<noteq> key)) \<and>
    (\<forall>p. r1 = Some p \<longrightarrow> (\<exists>x. valid_pos d p x \<and> key_of d (hd (entries x)) = key))" if "dictIsRehashing d"
    using find_in_table_ok [OF ok(1), of 1 _ key, OF _ _ refl] ok that hash by (auto simp: dict_ok_def dictIsRehashing_def split: if_splits)
  then obtain r1 where r1: "dictIsRehashing d \<longrightarrow> find_in_table d hash key 1 = Some (slot hash (ht_size_exp (ht1 d)), r1)"
    "dictIsRehashing d \<Longrightarrow> r1 = None \<longrightarrow> (\<forall>e. e \<in># tbl_entries (ht_table (ht1 d)) \<longrightarrow> key_of d e \<noteq> key)"
    "\<forall>p. r1 = Some p \<longrightarrow> (\<exists>x. valid_pos d p x \<and> key_of d (hd (entries x)) = key)" by (metis option.distinct(1))
  show thesis
  proof (rule that [of r0 r1])
    show "r0 = None \<or> int (slot hash (ht_size_exp (ht0 d))) < rehashidx d \<longrightarrow> r1 = None \<or> \<not> dictIsRehashing d \<longrightarrow> dict_map d key = None"
    proof (intro impI)
      assume a: "r0 = None \<or> int (slot hash (ht_size_exp (ht0 d))) < rehashidx d" "r1 = None \<or> \<not> dictIsRehashing d"
      have "key_of d e \<noteq> key" if "e \<in># tbl_entries (ht_table (ht0 d))" for e
        using a(1)
      proof
        assume "r0 = None"
        then show ?thesis using r0(2) that by blast
      next
        assume "int (slot hash (ht_size_exp (ht0 d))) < rehashidx d"
        then show ?thesis using below_rehashidx [OF ok(1) _ that] hash by blast
      qed
      moreover have "key_of d e \<noteq> key" if "e \<in># tbl_entries (ht_table (ht1 d))" for e
      proof (cases "dictIsRehashing d")
        case True
        then show ?thesis using that a(2) r1(2) by blast
      next
        case False
        then have "ht1 d = dictReset" using ok(1) by (simp add: dict_ok_def dictIsRehashing_def)
        then show ?thesis using that by (simp add: dictReset_def)
      qed
      ultimately show "dict_map d key = None" unfolding dict_map_None [OF ok(1)] contents_def union_iff by blast
    qed
  qed (fact r0(1) r0(3) r1(1) r1(3))+
qed

lemma valid_pos_map:
  "dict_ok d \<Longrightarrow> valid_pos d p x \<Longrightarrow> key_of d (hd (entries x)) = key \<Longrightarrow> dict_map d key = Some (hd (entries x))"
  using dict_map_iff [of d key "hd (entries x)"] valid_pos_mem [of d p x] by simp

definition insert_slot :: "('s, 'k, 'v) dict \<Rightarrow> 'k \<Rightarrow> nat \<times> nat" where
  "insert_slot d key = (if dictIsRehashing d then (1, slot (dictGetHash d key) (ht_size_exp (ht1 d)))
     else (0, slot (dictGetHash d key) (ht_size_exp (ht0 d))))"

text \<open>The position of a key that is present.\<close>

definition found :: "('s, 'k, 'v) dict \<Rightarrow> 'k \<Rightarrow> dict_pos ptr \<Rightarrow> bool" where
  "found d key r = (case r of None \<Rightarrow> dict_map d key = None | Some p \<Rightarrow> \<exists>x. valid_pos d p x \<and> key_of d (hd (entries x)) = key)"

lemma dictFindLinkInternal_ok:
  assumes ok: "dict_ok d" and tbl: "has_table d \<or> \<not> wb \<and> contents d = {#}"
  shows "\<exists>d' link bucket. dictFindLinkInternal can d key wb = Some (d', link, bucket) \<and> kept d d' \<and>
    found d' key link \<and> (wb \<and> link = None \<longrightarrow> bucket = Some (insert_slot d' key))"
proof (cases "\<not> wb \<and> dictSize d = 0")
  case True
  then show ?thesis using kept_refl [OF ok] dict_map_None [OF ok, of key] dictSize_contents [OF ok]
    by (simp add: dictFindLinkInternal_def found_def)
next
  case False
  then have ht: "has_table d" using tbl dictSize_contents [OF ok] by auto
  define hash where "hash = dictGetHash d key"
  define idx where "idx = slot hash (ht_size_exp (ht0 d))"
  obtain d1 where d1: "dictRehashStepIfNeeded can d idx = Some d1" "kept d d1"
    "dictIsRehashing d1 \<longrightarrow> dictIsRehashing d \<and> ht_size_exp (ht0 d1) = ht_size_exp (ht0 d)"
    using dictRehashStepIfNeeded_ok [OF ok] step_slot [OF ok, of hash] unfolding idx_def by blast
  have ok1: "dict_ok d1" "has_table d1" "hash = dictGetHash d1 key"
    using d1(2) ht kept_hash [OF d1(2)] by (auto simp: kept_def hash_def)
  have E: "dictFindLinkInternal can d key wb = do {
        (bucket, link) \<leftarrow> (if int idx < rehashidx d1 then Some (None, None)
           else do { (idx, link) \<leftarrow> find_in_table d1 hash key 0; Some (Some (0, idx), link) });
        if link \<noteq> None \<or> \<not> dictIsRehashing d1 then Some (d1, link, bucket)
        else do { (idx, link) \<leftarrow> find_in_table d1 hash key 1; Some (d1, link, Some (1, idx)) } }"
    unfolding dictFindLinkInternal_def hash_def [symmetric] idx_def [symmetric] Let_def if_not_P [OF False] d1(1) bind.bind_lunit ..
  obtain r0 r1 where r: "find_in_table d1 hash key 0 = Some (slot hash (ht_size_exp (ht0 d1)), r0)"
    "\<forall>p. r0 = Some p \<longrightarrow> (\<exists>x. valid_pos d1 p x \<and> key_of d1 (hd (entries x)) = key)"
    "dictIsRehashing d1 \<longrightarrow> find_in_table d1 hash key 1 = Some (slot hash (ht_size_exp (ht1 d1)), r1)"
    "\<forall>p. r1 = Some p \<longrightarrow> (\<exists>x. valid_pos d1 p x \<and> key_of d1 (hd (entries x)) = key)"
    "r0 = None \<or> int (slot hash (ht_size_exp (ht0 d1))) < rehashidx d1 \<longrightarrow> r1 = None \<or> \<not> dictIsRehashing d1 \<longrightarrow> dict_map d1 key = None"
    by (rule find_tables_ok [OF ok1])
  have sk: "int (slot hash (ht_size_exp (ht0 d1))) < rehashidx d1 \<and> dictIsRehashing d1" if "int idx < rehashidx d1"
    using that d1(3) by (auto simp: idx_def dictIsRehashing_def)
  consider (skip) "int idx < rehashidx d1" | (look) "\<not> int idx < rehashidx d1" "r0 \<noteq> None \<or> \<not> dictIsRehashing d1"
    | (both) "\<not> int idx < rehashidx d1" "r0 = None" "dictIsRehashing d1" by blast
  then show ?thesis
  proof cases
    case skip
    then have s: "int (slot hash (ht_size_exp (ht0 d1))) < rehashidx d1" "dictIsRehashing d1" using sk by auto
    then have "found d1 key r1" using r(4,5) by (auto simp: found_def split: option.splits)
    then show ?thesis using E skip s r(3) d1(2) ok1(3) by (simp add: insert_slot_def)
  next
    case look
    then have "found d1 key r0" using r(2,5) by (auto simp: found_def split: option.splits)
    then show ?thesis using E r(1) d1(2) look ok1(3) by (cases r0) (auto simp: insert_slot_def)
  next
    case both
    then have "found d1 key r1" using r(4,5) by (auto simp: found_def split: option.splits)
    then show ?thesis using E both r(1,3) d1(2) ok1(3) by (simp add: insert_slot_def)
  qed
qed

lemma dictFindLinkForInsert_ok:
  assumes ok: "dict_ok d" and tbl: "has_table d \<or> pauseAutoResize d \<le> 0"
  shows "\<exists>d' link ex. dictFindLinkForInsert can d key = Some (d', link, ex) \<and> kept d d' \<and> has_table d' \<and>
    found d' key ex \<and> link = (if ex = None then Some (insert_slot d' key) else None)"
proof -
  define hash where "hash = dictGetHash d key"
  define idx where "idx = slot hash (ht_size_exp (ht0 d))"
  obtain d0 where d0: "dictRehashStepIfNeeded can d idx = Some d0" "kept d d0"
    "dictIsRehashing d0 \<longrightarrow> dictIsRehashing d \<and> ht_size_exp (ht0 d0) = ht_size_exp (ht0 d)"
    using dictRehashStepIfNeeded_ok [OF ok] step_slot [OF ok, of hash] unfolding idx_def by blast
  obtain d1 b where d1: "priv_dictExpandIfNeeded can d0 = Some (d1, b)" "kept d0 d1" "has_table d1" "d1 = d0 \<or> rehashidx d1 \<le> 0"
    using priv_dictExpandIfNeeded_ok [OF kept_ok [OF d0(2)], of can] tbl d0(2) by (auto simp: kept_def same_frame_def)
  have k: "kept d d1" using d0(2) d1(2) by (rule kept_trans)
  have ok1: "dict_ok d1" "has_table d1" "hash = dictGetHash d1 key"
    using k d1(3) kept_hash [OF k] by (auto simp: kept_def hash_def)
  have E: "dictFindLinkForInsert can d key = do {
     (idx, existing) \<leftarrow> (if int idx < rehashidx d1 then Some (idx, None) else find_in_table d1 hash key 0);
     if existing \<noteq> None then Some (d1, None, existing)
     else if \<not> dictIsRehashing d1 then Some (d1, Some (0, idx), None)
     else do {
       (idx, existing) \<leftarrow> find_in_table d1 hash key 1;
       if existing \<noteq> None then Some (d1, None, existing)
       else Some (d1, Some (1, idx), None) } }"
    unfolding dictFindLinkForInsert_def hash_def [symmetric] idx_def [symmetric] Let_def d0(1) bind.bind_lunit d1(1) prod.case ..
  obtain r0 r1 where r: "find_in_table d1 hash key 0 = Some (slot hash (ht_size_exp (ht0 d1)), r0)"
    "\<forall>p. r0 = Some p \<longrightarrow> (\<exists>x. valid_pos d1 p x \<and> key_of d1 (hd (entries x)) = key)"
    "dictIsRehashing d1 \<longrightarrow> find_in_table d1 hash key 1 = Some (slot hash (ht_size_exp (ht1 d1)), r1)"
    "\<forall>p. r1 = Some p \<longrightarrow> (\<exists>x. valid_pos d1 p x \<and> key_of d1 (hd (entries x)) = key)"
    "r0 = None \<or> int (slot hash (ht_size_exp (ht0 d1))) < rehashidx d1 \<longrightarrow> r1 = None \<or> \<not> dictIsRehashing d1 \<longrightarrow> dict_map d1 key = None"
    by (rule find_tables_ok [OF ok1])
  have sk: "int (slot hash (ht_size_exp (ht0 d1))) < rehashidx d1 \<and> dictIsRehashing d1" if "int idx < rehashidx d1"
    using that d1(4) d0(3) by (auto simp: idx_def dictIsRehashing_def)
  consider (skip) "int idx < rehashidx d1" | (look) "\<not> int idx < rehashidx d1" "r0 \<noteq> None \<or> \<not> dictIsRehashing d1"
    | (both) "\<not> int idx < rehashidx d1" "r0 = None" "dictIsRehashing d1" by blast
  then show ?thesis
  proof cases
    case skip
    then have "found d1 key r1" using r(4,5) sk by (auto simp: found_def split: option.splits)
    then show ?thesis using E skip sk [OF skip] r(3) k d1(3) ok1(3) by (cases r1) (auto simp: insert_slot_def)
  next
    case look
    then have "found d1 key r0" using r(2,5) by (auto simp: found_def split: option.splits)
    then show ?thesis using E r(1) k d1(3) look ok1(3) by (cases r0) (auto simp: insert_slot_def)
  next
    case both
    then have "found d1 key r1" using r(4,5) by (auto simp: found_def split: option.splits)
    then show ?thesis using E both r(1,3) k d1(3) ok1(3) by (cases r1) (auto simp: insert_slot_def)
  qed
qed



subsection \<open>Insertion and replacement\<close>

lemma keys_distinct_add:
  assumes "keys_distinct ty M" "\<And>e. e \<in># M \<Longrightarrow> keyFromStoredKey ty (fst e) \<noteq> keyFromStoredKey ty (fst x)"
  shows "keys_distinct ty (add_mset x M)"
  unfolding keys_distinct_def
proof
  fix k
  have "filter_mset (\<lambda>e. keyFromStoredKey ty (fst e) = keyFromStoredKey ty (fst x)) M = {#}"
    unfolding set_mset_eq_empty_iff [symmetric] using assms(2) by auto
  then show "size (filter_mset (\<lambda>e. keyFromStoredKey ty (fst e) = k) (add_mset x M)) \<le> 1"
    using assms(1) by (cases "k = keyFromStoredKey ty (fst x)") (auto simp: keys_distinct_def)
qed

lemma keys_distinct_subset:
  assumes "keys_distinct ty (M + N)"
  shows "keys_distinct ty M"
  unfolding keys_distinct_def
proof
  fix k show "size (filter_mset (\<lambda>e. keyFromStoredKey ty (fst e) = k) M) \<le> 1"
    using assms [unfolded keys_distinct_def, rule_format, of k] by simp
qed

lemma keys_distinct_same_key:
  assumes "keys_distinct ty (add_mset x M)" "fst x = fst y"
  shows "keys_distinct ty (add_mset y M)"
  unfolding keys_distinct_def
proof
  fix k show "size (filter_mset (\<lambda>e. keyFromStoredKey ty (fst e) = k) (add_mset y M)) \<le> 1"
    using assms(1) [unfolded keys_distinct_def, rule_format, of k] assms(2)
    by (cases "keyFromStoredKey ty (fst y) = k") simp_all
qed

lemma insert_slot_bucket:
  assumes "dict_ok d" "has_table d" "insert_slot d key = (t, i)"
  shows "t = (if dictIsRehashing d then 1 else 0) \<and> i < length (ht_table (get_ht d t)) \<and>
    slot (hashFunction (dtype d) key) (ht_size_exp (get_ht d t)) = i \<and> (t = 0 \<longrightarrow> rehashidx d = - 1)"
proof (cases "dictIsRehashing d")
  case True
  have "ht_ok (dtype d) (ht1 d)" "ht_table (ht1 d) \<noteq> []"
    using assms(1) True by (auto simp: dict_ok_def dictIsRehashing_def split: if_splits)
  then show ?thesis using True assms(3) ht_ok_slot [of "dtype d" "ht1 d" "dictGetHash d key"]
    by (auto simp: insert_slot_def dictGetHash_def)
next
  case False
  have "ht_ok (dtype d) (ht0 d)" "ht_table (ht0 d) \<noteq> []" using assms(1,2) by (auto simp: dict_ok_def has_table_def)
  then show ?thesis using False assms(3) ht_ok_slot [of "dtype d" "ht0 d" "dictGetHash d key"]
    by (auto simp: insert_slot_def dictGetHash_def dictIsRehashing_def)
qed

lemma mask_bound: "2 \<le> e \<Longrightarrow> e \<le> 60 \<Longrightarrow> unat (DICTHT_SIZE_MASK e) = 2 ^ nat e - 1"
proof -
  assume e: "2 \<le> e" "e \<le> 60"
  then have "DICTHT_SIZE_MASK e = take_bit (nat e) (- 1)"
    by (simp add: DICTHT_SIZE_MASK_def mask_eq_exp_minus_1 take_bit_minus_one_eq_mask)
  then have "unat (DICTHT_SIZE_MASK e) = take_bit (nat e) (unat (- 1 :: u64))" by (simp only: unsigned_take_bit_eq)
  also have "\<dots> = (2 ^ LENGTH(64) - 1) mod 2 ^ nat e" unfolding unsigned_minus_1_eq_mask take_bit_eq_mod mask_eq_exp_minus_1 ..
  also have "\<dots> = 2 ^ nat e - 1" unfolding mask_mod_exp using e by (simp add: min_def)
  finally show ?thesis .
qed

lemma dictInsertKeyAtLink_ok:
  assumes ok: "dict_ok d" "has_table d" and link: "link = insert_slot d (keyFromStoredKey (dtype d) s)"
    and new: "dict_map d (keyFromStoredKey (dtype d) s) = None"
  shows "\<exists>d' p x. dictInsertKeyAtLink d s link = Some (d', p) \<and> dict_ok d' \<and> contents d' = add_mset (s, None) (contents d) \<and>
    same_frame d d' \<and> has_table d' \<and> valid_pos d' p x \<and>
    (if no_value (dtype d) then hd (entries x) = (s, None) else \<exists>n. x = Entry n s None)"
proof -
  obtain t i where ti: "link = (t, i)" by (cases link)
  note sl = insert_slot_bucket [OF ok, of _ t i, OF link [symmetric, unfolded ti]]
  have t1: "t \<le> 1" and t0: "t = 0 \<longrightarrow> rehashidx d = - 1" using sl by simp_all
  have i: "i < length (ht_table (get_ht d t))" using sl by blast
  have h: "ht_ok (dtype d) (get_ht d t)" by (rule dict_ok_get_ht [OF ok(1) t1])
  define bucket where "bucket = ht_table (get_ht d t) ! i"
  define b where "b = (if no_value (dtype d) then if bucket = NoEntry then KeyPtr s else EntryNoValue bucket s
                  else Entry bucket s None)"
  have kb: "kind_ok (no_value (dtype d)) bucket" using h i by (auto simp: ht_ok_def bucket_def)
  then have b: "kind_ok (no_value (dtype d)) b" "entries b = (s, None) # entries bucket" by (auto simp: b_def)
  have bs: "\<forall>e \<in> set (entries b). slot (hashFunction (dtype d) (key_of d e)) (ht_size_exp (get_ht d t)) = i"
    using sl ht_ok_tableI [OF h i] unfolding b(2) bucket_def by auto
  have kd: "keys_distinct (dtype d) (add_mset (s, None) (contents d))"
    using ok(1) new by (intro keys_distinct_add) (auto simp: dict_ok_def dict_map_None [OF ok(1)])
  define d' where "d' = set_ht d t ((get_ht d t)\<lparr>ht_table := (ht_table (get_ht d t))[i := b], ht_used := ht_used (get_ht d t) + 1\<rparr>)"
  have D: "dict_ok d' \<and> contents d' = add_mset (s, None) (contents d) \<and> same_frame d d' \<and> (has_table d \<longrightarrow> has_table d') \<and>
    rehashidx d' = rehashidx d \<and> ht_size_exp (ht0 d') = ht_size_exp (ht0 d) \<and> ht_size_exp (ht1 d') = ht_size_exp (ht1 d)"
    by (rule dict_ok_bucket [OF ok(1) t1 i b(1) bs _ _ kd _ d'_def]) (use b(2) t0 in \<open>simp_all add: bucket_def [symmetric]\<close>)
  have e: "2 \<le> ht_size_exp (get_ht d t)" "ht_size_exp (get_ht d t) \<le> 60" "length (ht_table (get_ht d t)) = 2 ^ nat (ht_size_exp (get_ht d t))"
    using h i by (auto simp: ht_ok_def split: if_splits)
  have c: "t = (if dictIsRehashing d then 1 else 0) \<and> i \<le> unat (DICTHT_SIZE_MASK (ht_size_exp (get_ht d (if dictIsRehashing d then 1 else 0))))"
    using sl i e mask_bound [OF e(1,2)] by (auto split: if_splits)
  have "dictInsertKeyAtLink d s link = Some (d', (t, i, 0))"
  proof -
    have "chk (t = (if dictIsRehashing d then 1 else 0) \<and>
        i \<le> unat (DICTHT_SIZE_MASK (ht_size_exp (get_ht d (if dictIsRehashing d then 1 else 0))))) = Some ()"
      using c by (simp only: chk_eq_Some)
    moreover have "rd (ht_table (get_ht d t)) i = Some bucket" using i by (simp add: rd_def bucket_def)
    moreover have "wr (ht_table (get_ht d t)) i b = Some ((ht_table (get_ht d t))[i := b])" using i by (simp add: wr_def)
    ultimately show ?thesis
      unfolding dictInsertKeyAtLink_def ti Let_def prod.case d'_def by (simp only: bind.bind_lunit b_def [symmetric])
  qed
  moreover have "valid_pos d' (t, i, 0) b"
  proof -
    have "ht_table (get_ht d' t) = (ht_table (get_ht d t))[i := b]" using t1 by (auto simp: d'_def get_ht_def set_ht_def)
    then show ?thesis using i t1 b(2) by (auto simp: valid_pos_def)
  qed
  ultimately show ?thesis using D ok(2) by (auto simp: b_def)
qed

lemma set_val_at_ok:
  assumes ok: "dict_ok d" and p: "valid_pos d p (Entry n s v)"
  shows "\<exists>d'. set_val_at d p val = Some d' \<and> dict_ok d' \<and> same_frame d d' \<and> (has_table d \<longrightarrow> has_table d') \<and>
    add_mset (s, v) (contents d') = add_mset (s, Some val) (contents d)"
proof -
  obtain t i j where tij: "p = (t, i, j)" by (cases p)
  define tbl where "tbl = ht_table (get_ht d t)"
  have v: "t \<le> 1" "i < length tbl" "chain_at (tbl ! i) j = Some (Entry n s v)" "j < length (entries (tbl ! i))"
    "entries (Entry n s v) = drop j (entries (tbl ! i))"
    using p by (auto simp: valid_pos_def tij tbl_def)
  have h: "ht_ok (dtype d) (get_ht d t)" by (rule dict_ok_get_ht [OF ok v(1)])
  have kb: "kind_ok (no_value (dtype d)) (tbl ! i)" using h v(2) by (auto simp: ht_ok_def tbl_def)
  then have "kind_ok (no_value (dtype d)) (Entry n s v)" using chain_at_kind [OF v(3)] by blast
  then have ky: "kind_ok (no_value (dtype d)) (Entry n s (Some val))" unfolding kind_ok.simps .
  obtain b where b: "chain_set (tbl ! i) j (Entry n s (Some val)) = Some b" "kind_ok (no_value (dtype d)) b"
    "entries b = take j (entries (tbl ! i)) @ (s, Some val) # entries n"
    using chain_set_ok [OF v(3) _ kb ky] by auto
  have eb: "entries (tbl ! i) = take j (entries (tbl ! i)) @ (s, v) # entries n"
    using v(5) append_take_drop_id [of j "entries (tbl ! i)"] by simp
  define d' where "d' = set_ht d t ((get_ht d t)\<lparr>ht_table := (ht_table (get_ht d t))[i := b], ht_used := ht_used (get_ht d t)\<rparr>)"
  define M where "M = contents d - {#(s, v)#} + {#(s, Some val)#}"
  have mem: "(s, v) \<in># contents d" using valid_pos_mem [OF p] by simp
  then have M: "contents d = add_mset (s, v) (contents d - {#(s, v)#})" by simp
  have kd: "keys_distinct (dtype d) M"
    using keys_distinct_same_key [of "dtype d" "(s, v)" "contents d - {#(s, v)#}" "(s, Some val)"] ok M
    by (simp add: dict_ok_def M_def)
  have bs: "\<forall>e \<in> set (entries b). slot (hashFunction (dtype d) (key_of d e)) (ht_size_exp (get_ht d t)) = i"
  proof
    fix e assume "e \<in> set (entries b)"
    then obtain e' where e': "e' \<in> set (entries (tbl ! i))" "fst e' = fst e"
      using b(3) eb by (metis Un_iff fst_conv list.set_intros(1) list.set_intros(2) set_ConsD set_append)
    then show "slot (hashFunction (dtype d) (key_of d e)) (ht_size_exp (get_ht d t)) = i"
      using ht_ok_tableI [OF h, of i e'] v(2) by (simp add: tbl_def)
  qed
  have nz: "tbl ! i \<noteq> NoEntry" using v(4) by auto
  have D: "dict_ok d' \<and> contents d' = M \<and> same_frame d d' \<and> (has_table d \<longrightarrow> has_table d') \<and>
    rehashidx d' = rehashidx d \<and> ht_size_exp (ht0 d') = ht_size_exp (ht0 d) \<and> ht_size_exp (ht1 d') = ht_size_exp (ht1 d)"
  proof (rule dict_ok_bucket [OF ok v(1) v(2) [unfolded tbl_def] b(2) bs _ _ kd _ d'_def])
    show "ht_used (get_ht d t) + length (entries (ht_table (get_ht d t) ! i)) = ht_used (get_ht d t) + length (entries b)"
      using b(3) arg_cong [OF eb, of length] by (simp add: tbl_def)
    show "t = 0 \<longrightarrow> int i < rehashidx d \<longrightarrow> b = NoEntry"
      using ok nz by (auto simp: dict_ok_def tbl_def split: if_splits)
    show "M + mset (entries (ht_table (get_ht d t) ! i)) = contents d + mset (entries b)"
      unfolding M_def tbl_def [symmetric] by (subst eb, subst (2) M) (simp add: b(3))
  qed
  have "get_entry d p = Some (Entry n s v)" by (rule valid_pos_get [OF p])
  then have "set_val_at d p val = Some d'"
    using b(1) v(2) by (simp add: set_val_at_def dictSetVal_def set_entry_def tij rd_def wr_def tbl_def d'_def)
  moreover have "add_mset (s, v) M = add_mset (s, Some val) (contents d)"
    using insert_DiffM [OF mem] by (simp add: M_def add_mset_commute)
  ultimately show ?thesis using D by auto
qed


lemma found_map:
  "dict_ok d \<Longrightarrow> found d key r \<Longrightarrow> r = None \<longleftrightarrow> dict_map d key = None"
  using valid_pos_map [of d] by (fastforce simp: found_def split: option.splits)

lemma dictAddRaw_ok:
  assumes ok: "dict_ok d" and tbl: "has_table d \<or> pauseAutoResize d \<le> 0" and k: "k = keyFromStoredKey (dtype d) s"
  shows "\<exists>d' en ex. dictAddRaw can d s = Some (d', en, ex) \<and> dict_ok d' \<and> same_frame d d' \<and> has_table d' \<and>
    (if dict_map d k = None
     then \<exists>p x. en = Some p \<and> ex = None \<and> contents d' = add_mset (s, None) (contents d) \<and> valid_pos d' p x \<and>
       (if no_value (dtype d) then hd (entries x) = (s, None) else \<exists>n. x = Entry n s None)
     else \<exists>p x. en = None \<and> ex = Some p \<and> kept d d' \<and> valid_pos d' p x \<and> key_of d (hd (entries x)) = k)"
proof -
  obtain d1 link ex where d1: "dictFindLinkForInsert can d k = Some (d1, link, ex)" "kept d d1" "has_table d1"
    "found d1 k ex" "link = (if ex = None then Some (insert_slot d1 k) else None)"
    using dictFindLinkForInsert_ok [OF ok tbl, of can k] by blast
  have ok1: "dict_ok d1" and sf: "same_frame d d1" and ty: "dtype d1 = dtype d" and mp: "dict_map d1 = dict_map d"
    and ct: "contents d1 = contents d"
    using d1(2) kept_map [OF ok d1(2)] by (auto simp: kept_def same_frame_def)
  have E: "dictAddRaw can d s = (case link of None \<Rightarrow> Some (d1, None, ex)
     | Some link \<Rightarrow> do { (d, entry) \<leftarrow> dictInsertKeyAtLink d1 s link; Some (d, Some entry, ex) })"
    unfolding dictAddRaw_def dictStoredKey2Key_def k [symmetric] d1(1) bind.bind_lunit prod.case ..
  show ?thesis
  proof (cases "dict_map d k")
    case None
    then have ex: "ex = None" using found_map [OF ok1 d1(4)] mp by simp
    obtain d' p x where d': "dictInsertKeyAtLink d1 s (insert_slot d1 k) = Some (d', p)" "dict_ok d'"
      "contents d' = add_mset (s, None) (contents d1)" "same_frame d1 d'" "has_table d'" "valid_pos d' p x"
      "if no_value (dtype d1) then hd (entries x) = (s, None) else \<exists>n. x = Entry n s None"
      using dictInsertKeyAtLink_ok [OF ok1 d1(3), of _ s, OF refl] None mp k ty by auto
    have "dictAddRaw can d s = Some (d', Some p, None)" using E d1(5) ex d'(1) by simp
    then show ?thesis using None d'(2-7) ct ty same_frame_trans [OF sf d'(4)]
      by (cases p, cases "no_value (dtype d)") auto
  next
    case (Some e)
    then have "ex \<noteq> None" using found_map [OF ok1 d1(4)] mp by simp
    then obtain p where p: "ex = Some p" by blast
    then obtain x where x: "valid_pos d1 p x" "key_of d1 (hd (entries x)) = k" using d1(4) by (auto simp: found_def)
    have "dictAddRaw can d s = Some (d1, None, Some p)" using E d1(5) p by simp
    then show ?thesis using Some x p d1(2,3) ok1 sf ty by (cases p) auto
  qed
qed

lemma dictAdd_ok:
  assumes ok: "dict_ok d" and tbl: "has_table d \<or> pauseAutoResize d \<le> 0" and k: "k = keyFromStoredKey (dtype d) s"
  shows "\<exists>d'. dictAdd can d s v = Some (d', dict_map d k = None) \<and> dict_ok d' \<and> same_frame d d' \<and> has_table d' \<and>
    dict_map d' = (if dict_map d k = None then (dict_map d)(k \<mapsto> (s, if no_value (dtype d) then None else Some v)) else dict_map d)"
proof -
  obtain d1 en ex where d1: "dictAddRaw can d s = Some (d1, en, ex)" "dict_ok d1" "same_frame d d1" "has_table d1"
    and r: "if dict_map d k = None
     then \<exists>p x. en = Some p \<and> ex = None \<and> contents d1 = add_mset (s, None) (contents d) \<and> valid_pos d1 p x \<and>
       (if no_value (dtype d) then hd (entries x) = (s, None) else \<exists>n. x = Entry n s None)
     else \<exists>p x. en = None \<and> ex = Some p \<and> kept d d1 \<and> valid_pos d1 p x \<and> key_of d (hd (entries x)) = k"
    using dictAddRaw_ok [OF ok tbl k] by blast
  have ty: "dtype d1 = dtype d" using d1(3) by (simp add: same_frame_def)
  show ?thesis
  proof (cases "dict_map d k")
    case (Some e)
    then have "en = None" "kept d d1" using r by auto
    then show ?thesis using Some d1 kept_map [OF ok, of d1] by (simp add: dictAdd_def)
  next
    case None
    then obtain p x where p: "en = Some p" "contents d1 = add_mset (s, None) (contents d)" "valid_pos d1 p x"
      "if no_value (dtype d) then hd (entries x) = (s, None) else \<exists>n. x = Entry n s None" using r by auto
    show ?thesis
    proof (cases "no_value (dtype d)")
      case True
      then show ?thesis using None d1 p(1) ty dict_map_add [OF ok d1(2) ty p(2)] k by (simp add: dictAdd_def)
    next
      case False
      then obtain n where "x = Entry n s None" using p(4) by auto
      then obtain d2 where d2: "set_val_at d1 p v = Some d2" "dict_ok d2" "same_frame d1 d2" "has_table d1 \<longrightarrow> has_table d2"
        "add_mset (s, None) (contents d2) = add_mset (s, Some v) (contents d1)"
        using set_val_at_ok [OF d1(2), of p n s None v] p(3) by blast
      have "contents d2 = add_mset (s, Some v) (contents d)" using d2(5) p(2) by (simp add: add_mset_commute)
      moreover have "dtype d2 = dtype d" using d2(3) ty by (simp add: same_frame_def)
      ultimately have "dict_map d2 = (dict_map d)(k \<mapsto> (s, Some v))" using dict_map_add [OF ok d2(2)] k by simp
      then show ?thesis
        using False None d1 p(1) ty d2(1,2,4) same_frame_trans [OF d1(3) d2(3)] by (simp add: dictAdd_def)
    qed
  qed
qed

text \<open>In a dict with values, every entry has its value once the insertion that created it is over.\<close>

definition values_set :: "('s, 'k, 'v) dict \<Rightarrow> bool" where
  "values_set d \<longleftrightarrow> \<not> no_value (dtype d) \<and> (\<forall>k s v. dict_map d k = Some (s, v) \<longrightarrow> v \<noteq> None)"

lemma valid_pos_Entry:
  assumes "dict_ok d" "valid_pos d p x" "\<not> no_value (dtype d)" "hd (entries x) = (s, v)"
  obtains n where "x = Entry n s v"
proof -
  obtain t i j where tij: "p = (t, i, j)" by (cases p)
  have a: "t \<le> 1" "i < length (ht_table (get_ht d t))" "chain_at (ht_table (get_ht d t) ! i) j = Some x" "x \<noteq> NoEntry"
    using assms(2) by (auto simp: valid_pos_def tij)
  have "kind_ok (no_value (dtype d)) (ht_table (get_ht d t) ! i)"
    using dict_ok_get_ht [OF assms(1) a(1)] a(2) by (auto simp: ht_ok_def)
  then have "kind_ok False x" using chain_at_kind [OF a(3)] assms(3) by simp
  then show thesis using a(4) assms(4) that by (cases x) auto
qed

lemma dict_map_set_val:
  assumes ok: "dict_ok d" "dict_ok d'" "dtype d' = dtype d" and k: "k = keyFromStoredKey (dtype d) s"
    and c: "add_mset (s, v) (contents d') = add_mset (s, v') (contents d)"
    and m: "(s, v) \<in># contents d"
  shows "dict_map d' = (dict_map d)(k \<mapsto> (s, v'))"
proof
  fix k'
  have "(s, v') \<in># contents d'"
  proof (cases "v = v'")
    case False
    have "(s, v') \<in># add_mset (s, v) (contents d')" unfolding c by simp
    then show ?thesis using False by simp
  qed (use m c in simp)
  then have "dict_map d' k = Some (s, v')" using dict_map_iff [OF ok(2), of k "(s, v')"] k ok(3) by simp
  moreover have "dict_map d' k' = Some e \<longleftrightarrow> dict_map d k' = Some e" if "k' \<noteq> k" for e
  proof -
    have "key_of d e = k' \<Longrightarrow> e \<in># contents d' \<longleftrightarrow> e \<in># contents d"
      using that k arg_cong [OF c, of "\<lambda>M. e \<in># M"] by auto
    then show ?thesis using dict_map_iff [OF ok(2), of k' e] dict_map_iff [OF ok(1), of k' e] ok(3) by auto
  qed
  ultimately show "dict_map d' k' = ((dict_map d)(k \<mapsto> (s, v'))) k'" by (metis fun_upd_apply not_None_eq)
qed

lemma dictReplace_ok:
  assumes ok: "dict_ok d" and tbl: "has_table d \<or> pauseAutoResize d \<le> 0" and k: "k = keyFromStoredKey (dtype d) s"
    and vs: "values_set d"
  shows "\<exists>d'. dictReplace can d s v = Some (d', dict_map d k = None) \<and> dict_ok d' \<and> same_frame d d' \<and> has_table d' \<and>
    dict_map d' = (dict_map d)(k \<mapsto> (case dict_map d k of None \<Rightarrow> s | Some e \<Rightarrow> fst e, Some v))"
proof -
  obtain d1 en ex where d1: "dictAddRaw can d s = Some (d1, en, ex)" "dict_ok d1" "same_frame d d1" "has_table d1"
    and r: "if dict_map d k = None
     then \<exists>p x. en = Some p \<and> ex = None \<and> contents d1 = add_mset (s, None) (contents d) \<and> valid_pos d1 p x \<and>
       (if no_value (dtype d) then hd (entries x) = (s, None) else \<exists>n. x = Entry n s None)
     else \<exists>p x. en = None \<and> ex = Some p \<and> kept d d1 \<and> valid_pos d1 p x \<and> key_of d (hd (entries x)) = k"
    using dictAddRaw_ok [OF ok tbl k] by blast
  have ty: "dtype d1 = dtype d" and nv: "\<not> no_value (dtype d)" using d1(3) vs by (simp_all add: same_frame_def values_set_def)
  show ?thesis
  proof (cases "dict_map d k")
    case None
    then obtain p n where p: "en = Some p" "contents d1 = add_mset (s, None) (contents d)" "valid_pos d1 p (Entry n s None)"
      using r nv by auto
    obtain d2 where d2: "set_val_at d1 p v = Some d2" "dict_ok d2" "same_frame d1 d2" "has_table d1 \<longrightarrow> has_table d2"
        "add_mset (s, None) (contents d2) = add_mset (s, Some v) (contents d1)"
      using set_val_at_ok [OF d1(2), of p n s None v] p(3) by blast
    have "contents d2 = add_mset (s, Some v) (contents d)" using d2(5) p(2) by (simp add: add_mset_commute)
    moreover have "dtype d2 = dtype d" using d2(3) ty by (simp add: same_frame_def)
    ultimately have "dict_map d2 = (dict_map d)(k \<mapsto> (s, Some v))" using dict_map_add [OF ok d2(2)] k by simp
    then show ?thesis
      using None d1 p(1) ty d2(1,2,4) same_frame_trans [OF d1(3) d2(3)] by (simp add: dictReplace_def)
  next
    case (Some e)
    then obtain p x where p: "en = None" "ex = Some p" "kept d d1" "valid_pos d1 p x" "key_of d (hd (entries x)) = k" using r by auto
    have "dict_map d1 k = Some (hd (entries x))" using valid_pos_map [OF d1(2) p(4)] p(5) ty by simp
    then have he: "hd (entries x) = e" using Some kept_map [OF ok p(3)] by simp
    obtain s0 v0 where e: "e = (s0, Some v0)"
      using vs Some by (metis option.exhaust prod.exhaust values_set_def)
    obtain n where x: "x = Entry n s0 (Some v0)" using valid_pos_Entry [OF d1(2) p(4)] nv ty he e by metis
    obtain d2 where d2: "set_val_at d1 p v = Some d2" "dict_ok d2" "same_frame d1 d2" "has_table d1 \<longrightarrow> has_table d2"
        "add_mset (s0, Some v0) (contents d2) = add_mset (s0, Some v) (contents d1)"
      using set_val_at_ok [OF d1(2), of p n s0 "Some v0" v] p(4) x by blast
    have ty2: "dtype d2 = dtype d1" using d2(3) by (simp add: same_frame_def)
    have "k = keyFromStoredKey (dtype d1) s0" using p(5) x ty by simp
    then have "dict_map d2 = (dict_map d1)(k \<mapsto> (s0, Some v))"
      using dict_map_set_val [OF d1(2) d2(2) ty2 _ d2(5)] valid_pos_mem [OF p(4)] x by simp
    moreover have "dictReplace can d s v = Some (d2, False)"
      using d1(1) p(1,2) valid_pos_get [OF p(4)] x d2(1) by (simp add: dictReplace_def dictGetVal_def)
    ultimately show ?thesis
      using Some e d2(2,4) d1(4) same_frame_trans [OF d1(3) d2(3)] kept_map [OF ok p(3)] by simp
  qed
qed


lemma dictFindLink_ok:
  assumes ok: "dict_ok d"
  shows "\<exists>d' link bucket. dictFindLink can d key wb = Some (d', link, bucket) \<and> kept d d' \<and> found d' key link \<and>
    (wb \<and> link = None \<and> contents d \<noteq> {#} \<longrightarrow> bucket = Some (insert_slot d' key))"
proof (cases "contents d = {#}")
  case True
  then show ?thesis using kept_refl [OF ok] dict_map_None [OF ok, of key] dictSize_contents [OF ok]
    by (simp add: dictFindLink_def found_def)
next
  case False
  then show ?thesis
    using dictFindLinkInternal_ok [OF ok, of wb can key] has_table_contents [OF ok] dictSize_contents [OF ok]
    by (simp add: dictFindLink_def)
qed

lemma dictFind_ok:
  assumes "dict_ok d"
  shows "\<exists>d' r. dictFind can d key = Some (d', r) \<and> kept d d' \<and> found d' key r"
  using dictFindLink_ok [OF assms, of can key False] by (auto simp: dictFind_def)

lemma dictFetchValue_ok:
  assumes ok: "dict_ok d" and vs: "values_set d"
  shows "\<exists>d'. dictFetchValue can d key = Some (d', Option.bind (dict_map d key) snd) \<and> kept d d'"
proof -
  obtain d1 r where d1: "dictFind can d key = Some (d1, r)" "kept d d1" "found d1 key r" using dictFind_ok [OF ok] by blast
  have ok1: "dict_ok d1" and mp: "dict_map d1 = dict_map d" and ty: "dtype d1 = dtype d"
    using d1(2) kept_map [OF ok d1(2)] by (auto simp: kept_def same_frame_def)
  show ?thesis
  proof (cases r)
    case None
    then show ?thesis using d1 mp by (simp add: dictFetchValue_def found_def)
  next
    case (Some p)
    then obtain x where x: "valid_pos d1 p x" "key_of d1 (hd (entries x)) = key" using d1(3) by (auto simp: found_def)
    then have m: "dict_map d key = Some (hd (entries x))" using valid_pos_map [OF ok1 x] mp by simp
    obtain s0 v0 where e: "hd (entries x) = (s0, Some v0)"
      using vs m by (metis option.exhaust prod.exhaust values_set_def)
    obtain n where "x = Entry n s0 (Some v0)" using valid_pos_Entry [OF ok1 x(1)] vs ty e by (metis values_set_def)
    then show ?thesis using Some d1(1,2) valid_pos_get [OF x(1)] m by (simp add: dictFetchValue_def dictGetVal_def)
  qed
qed


subsection \<open>Deletion\<close>

lemma delete_in_table_ok:
  assumes ok: "dict_ok d" and t: "t \<le> 1" "ht_table (get_ht d t) \<noteq> []"
  shows "\<exists>d' he. delete_in_table can d (dictGetHash d key) key t = Some (d', he) \<and>
    (he = None \<longrightarrow> d' = d \<and> (\<forall>e. e \<in># tbl_entries (ht_table (get_ht d t)) \<longrightarrow> key_of d e \<noteq> key)) \<and>
    (\<forall>x. he = Some x \<longrightarrow> dict_ok d' \<and> same_frame d d' \<and> x \<noteq> NoEntry \<and> key_of d (hd (entries x)) = key \<and>
       contents d = add_mset (hd (entries x)) (contents d'))"
proof -
  have h: "ht_ok (dtype d) (get_ht d t)" by (rule dict_ok_get_ht [OF ok t(1)])
  define i where "i = slot (dictGetHash d key) (ht_size_exp (get_ht d t))"
  define b where "b = ht_table (get_ht d t) ! i"
  have i: "i < length (ht_table (get_ht d t))" unfolding i_def using ht_ok_slot [OF h t(2)] .
  have kb: "kind_ok (no_value (dtype d)) b" using h i by (auto simp: ht_ok_def b_def)
  have E: "delete_in_table can d (dictGetHash d key) key t = (case chain_unlink (dictStoredKey2Key d) key b of
       None \<Rightarrow> Some (d, None)
     | Some (he, rest) \<Rightarrow> do {
         d \<leftarrow> priv_dictShrinkIfNeeded can
           (set_ht d t ((get_ht d t)\<lparr>ht_table := (ht_table (get_ht d t))[i := rest], ht_used := ht_used (get_ht d t) - 1\<rparr>));
         Some (d, Some he) })"
    using i unfolding delete_in_table_def i_def [symmetric] by (simp add: rd_def wr_def b_def split: option.splits)
  show ?thesis
  proof (cases "chain_unlink (dictStoredKey2Key d) key b")
    case None
    have "key_of d e \<noteq> key" if em: "e \<in># tbl_entries (ht_table (get_ht d t))" for e
    proof
      assume k: "key_of d e = key"
      obtain i' where i': "i' < length (ht_table (get_ht d t))" "e \<in> set (entries (ht_table (get_ht d t) ! i'))"
        using em by (auto simp: tbl_entries_mem)
      then have "i' = i" using ht_ok_tableI [OF h i'] k by (simp add: i_def dictGetHash_def)
      then show False using None i' k chain_unlink_None [of "dictStoredKey2Key d" key b]
        by (auto simp: b_def dictStoredKey2Key_def)
    qed
    then show ?thesis using E None by simp
  next
    case (Some hr)
    then obtain he rest where hr: "chain_unlink (dictStoredKey2Key d) key b = Some (he, rest)" by (cases hr) auto
    have u: "he \<noteq> NoEntry" "key_of d (hd (entries he)) = key" "kind_ok (no_value (dtype d)) rest"
      "set (entries rest) \<subseteq> set (entries b)" "mset (entries b) = add_mset (hd (entries he)) (mset (entries rest))"
      using chain_unlink_Some [OF hr kb] by (auto simp: dictStoredKey2Key_def)
    have nz: "b \<noteq> NoEntry" using u(5) by auto
    have mb: "hd (entries he) \<in> set (entries b)" using arg_cong [OF u(5), of set_mset] by auto
    have len: "length (entries b) = Suc (length (entries rest))" using arg_cong [OF u(5), of size] by simp
    have mt: "hd (entries he) \<in># tbl_entries (ht_table (get_ht d t))" using mb i by (auto simp: tbl_entries_mem b_def)
    then have used: "0 < ht_used (get_ht d t)" using ht_used_0 [OF h] by (metis gr0I empty_iff set_mset_empty)
    have "t = 0 \<or> t = Suc 0" using t(1) by auto
    then have mem: "hd (entries he) \<in># contents d" using mt by (auto simp: contents_def)
    define M where "M = contents d - {#hd (entries he)#}"
    have M: "contents d = add_mset (hd (entries he)) M" using mem by (simp add: M_def)
    have kd: "keys_distinct (dtype d) M"
      using ok keys_distinct_subset [of "dtype d" M "{#hd (entries he)#}"] M by (simp add: dict_ok_def)
    have bs: "\<forall>e \<in> set (entries rest). slot (hashFunction (dtype d) (key_of d e)) (ht_size_exp (get_ht d t)) = i"
      using ht_ok_tableI [OF h i] u(4) by (auto simp: b_def)
    define d1 where "d1 = set_ht d t ((get_ht d t)\<lparr>ht_table := (ht_table (get_ht d t))[i := rest], ht_used := ht_used (get_ht d t) - 1\<rparr>)"
    have D: "dict_ok d1 \<and> contents d1 = M \<and> same_frame d d1 \<and> (has_table d \<longrightarrow> has_table d1) \<and>
      rehashidx d1 = rehashidx d \<and> ht_size_exp (ht0 d1) = ht_size_exp (ht0 d) \<and> ht_size_exp (ht1 d1) = ht_size_exp (ht1 d)"
    proof (rule dict_ok_bucket [OF ok t(1) i u(3) bs _ _ kd _ d1_def])
      show "ht_used (get_ht d t) - 1 + length (entries (ht_table (get_ht d t) ! i)) = ht_used (get_ht d t) + length (entries rest)"
        using used len unfolding b_def by simp
      show "t = 0 \<longrightarrow> int i < rehashidx d \<longrightarrow> rest = NoEntry"
        using ok nz by (auto simp: dict_ok_def b_def split: if_splits)
      show "M + mset (entries (ht_table (get_ht d t) ! i)) = contents d + mset (entries rest)"
        unfolding b_def [symmetric] u(5) M by simp
    qed
    then obtain d2 where d2: "priv_dictShrinkIfNeeded can d1 = Some d2" "kept d1 d2"
      using priv_dictShrinkIfNeeded_ok [of d1 can] by blast
    have "delete_in_table can d (dictGetHash d key) key t = Some (d2, Some he)"
      using E hr d2(1) by (simp add: d1_def)
    moreover have "dict_ok d2" "same_frame d d2" "contents d2 = M" using D d2(2) same_frame_trans [of d d1 d2] by (auto simp: kept_def)
    ultimately show ?thesis using u(1,2) M by auto
  qed
qed

lemma dictGenericDelete_ok:
  assumes ok: "dict_ok d"
  shows "\<exists>d' he. dictGenericDelete can d key = Some (d', he) \<and> dict_ok d' \<and> same_frame d d' \<and>
    dict_map d' = (dict_map d)(key := None) \<and>
    (he = None \<longrightarrow> dict_map d key = None \<and> contents d' = contents d) \<and>
    (\<forall>x. he = Some x \<longrightarrow> x \<noteq> NoEntry \<and> dict_map d key = Some (hd (entries x)) \<and>
       contents d = add_mset (hd (entries x)) (contents d'))"
proof (cases "dictSize d = 0")
  case True
  then have "dict_map d key = None" using dict_map_None [OF ok, of key] dictSize_contents [OF ok] by simp
  then show ?thesis using True ok by (auto simp: dictGenericDelete_def)
next
  case False
  then have ht: "has_table d" using has_table_contents [OF ok] dictSize_contents [OF ok] by auto
  define hash where "hash = dictGetHash d key"
  define idx where "idx = slot hash (ht_size_exp (ht0 d))"
  obtain d1 where d1: "dictRehashStepIfNeeded can d idx = Some d1" "kept d d1"
    "dictIsRehashing d1 \<longrightarrow> dictIsRehashing d \<and> ht_size_exp (ht0 d1) = ht_size_exp (ht0 d)"
    using dictRehashStepIfNeeded_ok [OF ok] step_slot [OF ok, of hash] unfolding idx_def by blast
  have ok1: "dict_ok d1" "has_table d1" "hash = dictGetHash d1 key" and mp: "dict_map d1 = dict_map d"
    and ct: "contents d1 = contents d" and sf: "same_frame d d1" and ty: "dtype d1 = dtype d"
    using d1(2) ht kept_hash [OF d1(2)] kept_map [OF ok d1(2)] by (auto simp: kept_def hash_def same_frame_def)
  have E: "dictGenericDelete can d key = do {
        (d, he) \<leftarrow> (if int idx < rehashidx d1 then Some (d1, None) else delete_in_table can d1 hash key 0);
        if he \<noteq> None \<or> \<not> dictIsRehashing d then Some (d, he)
        else delete_in_table can d hash key 1 }"
    unfolding dictGenericDelete_def hash_def [symmetric] idx_def [symmetric] Let_def if_not_P [OF False] d1(1) bind.bind_lunit ..
  have deleted: "dict_map d' = (dict_map d)(key := None) \<and> dict_map d key = Some (hd (entries x))"
    if "dict_ok d'" "same_frame d1 d'" "key_of d1 (hd (entries x)) = key" "contents d1 = add_mset (hd (entries x)) (contents d')" for d' x
    using dict_map_remove [OF ok1(1) that(1) _ that(4)] dict_map_iff [OF ok1(1), of key "hd (entries x)"] that mp
    by (simp add: same_frame_def)
  have not0: "dict_map d key = None" if "\<forall>e. e \<in># tbl_entries (ht_table (ht0 d1)) \<longrightarrow> key_of d1 e \<noteq> key"
    "\<forall>e. e \<in># tbl_entries (ht_table (ht1 d1)) \<longrightarrow> key_of d1 e \<noteq> key"
    using that dict_map_None [OF ok1(1), of key] mp by (auto simp: contents_def)
  have t1: "\<not> dictIsRehashing d1 \<Longrightarrow> tbl_entries (ht_table (ht1 d1)) = {#}"
    using ok1(1) by (simp add: dict_ok_def dictIsRehashing_def dictReset_def)
  obtain a where a: "(if int idx < rehashidx d1 then Some (d1, None) else delete_in_table can d1 hash key 0) = Some a"
    "snd a = None \<longrightarrow> fst a = d1 \<and> (\<forall>e. e \<in># tbl_entries (ht_table (ht0 d1)) \<longrightarrow> key_of d1 e \<noteq> key)"
    "\<forall>x. snd a = Some x \<longrightarrow> dict_ok (fst a) \<and> same_frame d1 (fst a) \<and> x \<noteq> NoEntry \<and> key_of d1 (hd (entries x)) = key \<and>
       contents d1 = add_mset (hd (entries x)) (contents (fst a))"
  proof (cases "int idx < rehashidx d1")
    case True
    then have "int (slot (dictGetHash d1 key) (ht_size_exp (ht0 d1))) < rehashidx d1"
      using d1(3) ok1(3) by (auto simp: idx_def dictIsRehashing_def)
    then show thesis using that [of "(d1, None)"] True below_rehashidx [OF ok1(1)] by simp
  next
    case F: False
    then show thesis using that delete_in_table_ok [OF ok1(1), of 0 can key] ok1(2,3) by (auto simp: has_table_def)
  qed
  show ?thesis
  proof (cases "snd a")
    case (Some x)
    then have "dictGenericDelete can d key = Some (fst a, Some x)" unfolding E a(1) by (cases a) simp
    then show ?thesis using a(3) Some deleted [of "fst a" x] ct same_frame_trans [OF sf] by auto
  next
    case None
    then have fa: "fst a = d1" and n0: "\<forall>e. e \<in># tbl_entries (ht_table (ht0 d1)) \<longrightarrow> key_of d1 e \<noteq> key" using a(2) by auto
    show ?thesis
    proof (cases "dictIsRehashing d1")
      case False
      have "dictGenericDelete can d key = Some (d1, None)" unfolding E a(1) using None fa False by (cases a) simp
      then show ?thesis using ok1(1) sf not0 [OF n0] t1 [OF False] mp ct by auto
    next
      case True
      then have "ht_table (get_ht d1 1) \<noteq> []" using ok1(1) by (auto simp: dict_ok_def dictIsRehashing_def split: if_splits)
      then obtain d2 he where d2: "delete_in_table can d1 hash key 1 = Some (d2, he)"
        "he = None \<longrightarrow> d2 = d1 \<and> (\<forall>e. e \<in># tbl_entries (ht_table (ht1 d1)) \<longrightarrow> key_of d1 e \<noteq> key)"
        "\<forall>x. he = Some x \<longrightarrow> dict_ok d2 \<and> same_frame d1 d2 \<and> x \<noteq> NoEntry \<and> key_of d1 (hd (entries x)) = key \<and>
          contents d1 = add_mset (hd (entries x)) (contents d2)"
        using delete_in_table_ok [OF ok1(1), of 1 can key] ok1(3) by auto
      have "dictGenericDelete can d key = Some (d2, he)" unfolding E a(1) using None fa True d2(1) by (cases a) simp
      then show ?thesis
        using d2(2,3) ok1(1) sf not0 [OF n0] mp ct deleted [of d2] same_frame_trans [OF sf, of d2] by (cases he) auto
    qed
  qed
qed

lemma dictDelete_ok:
  assumes "dict_ok d"
  shows "\<exists>d'. dictDelete can d key = Some (d', dict_map d key \<noteq> None) \<and> dict_ok d' \<and> same_frame d d' \<and>
    dict_map d' = (dict_map d)(key := None)"
proof -
  obtain d' he where "dictGenericDelete can d key = Some (d', he)" "dict_ok d'" "same_frame d d'"
    "dict_map d' = (dict_map d)(key := None)" "he = None \<longleftrightarrow> dict_map d key = None"
    using dictGenericDelete_ok [OF assms, of can key] by (metis option.distinct(1) option.exhaust)
  then show ?thesis by (simp add: dictDelete_def del: not_None_eq)
qed

end
