(* ===== verification/Dict_Scan.thy ===== *)
theory Dict_Scan
  imports Dict_Map
begin

unbundle bit_operations_syntax

text \<open>
  The cursor of \<open>dictScan\<close>. The bits of the cursor are incremented in reverse order, so that the reversed cursors of the
  successive calls increase, whatever the sizes of the tables are at each call; a call visits every key whose reversed
  hash lies between the old and the new reversed cursor.
\<close>

subsection \<open>Reversing a word\<close>

definition swap_bits :: "nat \<Rightarrow> u64 \<Rightarrow> u64 \<Rightarrow> u64" where
  "swap_bits s m v = (drop_bit s v AND m) OR (push_bit s v AND NOT m)"

lemma bit_swap_bits:
  "n < 64 \<Longrightarrow> bit (swap_bits s m v) n = (if bit m n then bit v (n + s) else s \<le> n \<and> bit v (n - s))"
  by (auto simp: swap_bits_def bit_simps add.commute)

lemma rev_loop_step:
  "s div 2 > 0 \<Longrightarrow> msk' = msk XOR push_bit (s div 2) msk \<Longrightarrow> rev_loop s msk v = rev_loop (s div 2) msk' (swap_bits (s div 2) msk' v)"
  by (subst rev_loop.simps) (simp add: Let_def swap_bits_def)

lemma rev_ul_unfold:
  "rev_ul v = swap_bits 1 0x5555555555555555 (swap_bits 2 0x3333333333333333 (swap_bits 4 0x0F0F0F0F0F0F0F0F
     (swap_bits 8 0x00FF00FF00FF00FF (swap_bits 16 0x0000FFFF0000FFFF (swap_bits 32 0x00000000FFFFFFFF v)))))"
proof -
  have "rev_loop 1 m v = v" for m v by (subst rev_loop.simps) simp
  then show ?thesis unfolding rev_ul_def
    using rev_loop_step [of 64 "0x00000000FFFFFFFF" "NOT 0"] rev_loop_step [of 32 "0x0000FFFF0000FFFF" "0x00000000FFFFFFFF"]
      rev_loop_step [of 16 "0x00FF00FF00FF00FF" "0x0000FFFF0000FFFF"] rev_loop_step [of 8 "0x0F0F0F0F0F0F0F0F" "0x00FF00FF00FF00FF"]
      rev_loop_step [of 4 "0x3333333333333333" "0x0F0F0F0F0F0F0F0F"] rev_loop_step [of 2 "0x5555555555555555" "0x3333333333333333"]
    by (simp add: mask_eq_exp_minus_1)
qed

lemma bit_rev_ul:
  assumes "n < 64"
  shows "bit (rev_ul v) n = bit v (63 - n)"
proof -
  have "q = 0 \<or> q = 1 \<or> q = 2 \<or> q = 3 \<or> q = 4 \<or> q = 5 \<or> q = 6 \<or> q = 7" if "q < 8" for q :: nat
    using that by linarith
  then have dm: "n div 8 = 0 \<or> n div 8 = 1 \<or> n div 8 = 2 \<or> n div 8 = 3 \<or> n div 8 = 4 \<or> n div 8 = 5 \<or> n div 8 = 6 \<or> n div 8 = 7"
    "n mod 8 = 0 \<or> n mod 8 = 1 \<or> n mod 8 = 2 \<or> n mod 8 = 3 \<or> n mod 8 = 4 \<or> n mod 8 = 5 \<or> n mod 8 = 6 \<or> n mod 8 = 7"
    using assms by simp_all
  have eq: "n = 8 * (n div 8) + n mod 8" by simp
  have key: "bit (rev_ul v) n = bit v (63 - n)"
    if "n = 8 * q + r"
    "q = 0 \<or> q = 1 \<or> q = 2 \<or> q = 3 \<or> q = 4 \<or> q = 5 \<or> q = 6 \<or> q = 7"
    "r = 0 \<or> r = 1 \<or> r = 2 \<or> r = 3 \<or> r = 4 \<or> r = 5 \<or> r = 6 \<or> r = 7" for q r
    using that(2,3) unfolding that(1) rev_ul_unfold by (elim disjE; hypsubst_thin; simp add: bit_swap_bits)
  show ?thesis by (rule key [OF eq dm])
qed

lemma rev_ul_rev_ul [simp]: "rev_ul (rev_ul v) = v"
  by (rule bit_word_eqI) (simp add: bit_rev_ul)



subsection \<open>The order of the cursors\<close>

abbreviation rc :: "u64 \<Rightarrow> nat" where
  "rc v \<equiv> unat (rev_ul v)"

lemma rc_less: "rc v < 2 ^ 64"
  using unsigned_less [of "rev_ul v"] by simp

definition next_block :: "nat \<Rightarrow> nat \<Rightarrow> nat" where
  "next_block a w = (w div 2 ^ (64 - a) + 1) * 2 ^ (64 - a)"

lemma rev_or_mask: "a \<le> 64 \<Longrightarrow> rev_ul (v OR NOT (mask a)) = rev_ul v OR mask (64 - a)"
  by (rule bit_word_eqI) (auto simp: bit_rev_ul bit_simps)

lemma rc_cursor_next:
  assumes "a \<le> 64"
  shows "rc (cursor_next (mask a) v) = next_block a (rc v) mod 2 ^ 64"
proof -
  define b where "b = 64 - a"
  have "rev_ul v OR mask b = push_bit b (drop_bit b (rev_ul v)) + mask b"
    by (subst disjunctive_add) (auto simp: bit_simps intro!: bit_word_eqI)
  then have "(rev_ul v OR mask b) + 1 = push_bit b (drop_bit b (rev_ul v) + 1)"
    by (simp add: mask_eq_exp_minus_1 push_bit_add)
  also have "drop_bit b (rev_ul v) = of_nat (rc v div 2 ^ b)"
    by (simp flip: drop_bit_eq_div unat_drop_bit_eq)
  also have "push_bit b (of_nat (rc v div 2 ^ b) + 1 :: u64) = of_nat (next_block a (rc v))"
    by (simp add: push_bit_eq_mult next_block_def b_def [symmetric] algebra_simps)
  finally have "rev_ul (v OR NOT (mask a)) + 1 = of_nat (next_block a (rc v))" using assms by (simp add: rev_or_mask b_def)
  then show ?thesis by (simp add: cursor_next_def unat_of_nat)
qed

lemma next_block_bounds: "a \<le> 64 \<Longrightarrow> w < 2 ^ 64 \<Longrightarrow> w < next_block a w \<and> next_block a w \<le> 2 ^ 64"
proof -
  assume a: "a \<le> 64" "w < 2 ^ 64"
  have "w < next_block a w"
    unfolding next_block_def using dividend_less_div_times [of "2 ^ (64 - a)" w] by (simp add: algebra_simps)
  moreover have "(2::nat) ^ 64 = 2 ^ a * 2 ^ (64 - a)" using a(1) by (simp flip: power_add)
  then have "w div 2 ^ (64 - a) < 2 ^ a" using a(2) by (simp add: less_mult_imp_div_less)
  then have "next_block a w \<le> 2 ^ a * 2 ^ (64 - a)" unfolding next_block_def by (intro mult_right_mono) simp_all
  ultimately show ?thesis using \<open>2 ^ 64 = 2 ^ a * 2 ^ (64 - a)\<close> by simp
qed

lemma same_block:
  assumes "a \<le> 64" "rc v \<le> rc h" "rc h < next_block a (rc v)"
  shows "h AND mask a = v AND mask a"
proof -
  have "rc h div 2 ^ (64 - a) < rc v div 2 ^ (64 - a) + 1"
    using assms(3) unfolding next_block_def by (rule less_mult_imp_div_less)
  then have "rc h div 2 ^ (64 - a) = rc v div 2 ^ (64 - a)"
    using div_le_mono [OF assms(2), of "2 ^ (64 - a)"] by simp
  then have e: "drop_bit (64 - a) (rev_ul h) = drop_bit (64 - a) (rev_ul v)"
    by (metis drop_bit_eq_div unat_drop_bit_eq unsigned_word_eqI)
  have "bit h n = bit v n" if "n < a" for n
    using arg_cong [OF e, of "\<lambda>x. bit x (a - 1 - n)"] that assms(1) by (simp add: bit_simps bit_rev_ul)
  then show ?thesis by (auto simp: bit_simps intro!: bit_word_eqI)
qed

lemma dvd_rc: "a \<le> 64 \<Longrightarrow> 2 ^ (64 - a) dvd rc v \<longleftrightarrow> (\<forall>n. a \<le> n \<longrightarrow> \<not> bit v n)"
proof -
  assume a: "a \<le> 64"
  have "2 ^ (64 - a) dvd rc v \<longleftrightarrow> take_bit (64 - a) (rev_ul v) = 0"
    by (metis dvd_eq_mod_eq_0 take_bit_eq_mod unsigned_take_bit_eq unsigned_0 unat_eq_zero)
  also have "\<dots> \<longleftrightarrow> (\<forall>n < 64 - a. \<not> bit (rev_ul v) n)"
    by (auto simp: bit_eq_iff bit_simps)
  also have "\<dots> \<longleftrightarrow> (\<forall>n. a \<le> n \<longrightarrow> \<not> bit v n)"
  proof safe
    fix n assume n: "\<forall>n < 64 - a. \<not> bit (rev_ul v) n" "a \<le> n" "bit v n"
    then have "n < 64" using bit_imp_le_length by fastforce
    moreover have "63 - n < 64 - a" using \<open>n < 64\<close> n(2) by linarith
    ultimately show False using n(1) [rule_format, of "63 - n"] n(2,3) by (simp add: bit_rev_ul)
  qed (use a in \<open>auto simp: bit_rev_ul\<close>)
  finally show ?thesis .
qed

lemma scan_stop:
  assumes "a0 \<le> a1" "a1 \<le> 64" "2 ^ (64 - a1) dvd rc v"
  shows "v AND (mask a0 XOR mask a1) = 0 \<longleftrightarrow> 2 ^ (64 - a0) dvd rc v"
proof -
  have "v AND (mask a0 XOR mask a1) = 0 \<longleftrightarrow> (\<forall>n. a0 \<le> n \<longrightarrow> n < a1 \<longrightarrow> \<not> bit v n)"
  proof safe
    fix n assume "v AND (mask a0 XOR mask a1) = 0" "a0 \<le> n" "n < a1" "bit v n"
    then have "\<not> bit (v AND (mask a0 XOR mask a1)) n" "n < 64" using assms(2) by simp_all
    then show False using \<open>a0 \<le> n\<close> \<open>n < a1\<close> \<open>bit v n\<close> by (simp add: bit_simps)
  next
    assume "\<forall>n. a0 \<le> n \<longrightarrow> n < a1 \<longrightarrow> \<not> bit v n"
    then have "bit v n \<Longrightarrow> n < a0 \<longleftrightarrow> n < a1" for n using assms(1) by (cases "n < a0") auto
    then show "v AND (mask a0 XOR mask a1) = 0" by (intro bit_word_eqI) (auto simp: bit_simps)
  qed
  moreover have "\<forall>n. a1 \<le> n \<longrightarrow> \<not> bit v n" using assms dvd_rc [of a1 v] by simp
  then have "(\<forall>n. a0 \<le> n \<longrightarrow> n < a1 \<longrightarrow> \<not> bit v n) \<longleftrightarrow> (\<forall>n. a0 \<le> n \<longrightarrow> \<not> bit v n)" by (meson not_less)
  ultimately show ?thesis using assms dvd_rc [of a0 v] by simp
qed


lemma next_block_dvd: "2 ^ (64 - a) dvd next_block a w"
  by (simp add: next_block_def)

lemma next_block_least: "2 ^ (64 - a) dvd n \<Longrightarrow> w < n \<Longrightarrow> next_block a w \<le> n"
proof -
  assume "2 ^ (64 - a) dvd n" "w < n"
  then obtain m where m: "n = m * 2 ^ (64 - a)" by (metis dvd_div_mult_self)
  then have "w div 2 ^ (64 - a) < m" using \<open>w < n\<close> by (simp add: less_mult_imp_div_less)
  then show ?thesis unfolding next_block_def m by (intro mult_right_mono) simp_all
qed

lemma next_block_same: "w \<le> w' \<Longrightarrow> w' < next_block a w \<Longrightarrow> next_block a w' = next_block a w"
proof -
  assume w: "w \<le> w'" "w' < next_block a w"
  have "w' div 2 ^ (64 - a) < w div 2 ^ (64 - a) + 1" using w(2) unfolding next_block_def by (rule less_mult_imp_div_less)
  then have "w' div 2 ^ (64 - a) = w div 2 ^ (64 - a)" using div_le_mono [OF w(1), of "2 ^ (64 - a)"] by simp
  then show ?thesis by (simp add: next_block_def)
qed


subsection \<open>What a call visits\<close>

definition scan_fold :: "('p \<Rightarrow> 's \<Rightarrow> 'v ptr \<Rightarrow> 'p) \<Rightarrow> 'p \<Rightarrow> ('s \<times> 'v ptr) list \<Rightarrow> 'p" where
  "scan_fold fn = foldl (\<lambda>p e. fn p (fst e) (snd e))"

lemma scan_fold_append: "scan_fold fn p (xs @ ys) = scan_fold fn (scan_fold fn p xs) ys"
  by (simp add: scan_fold_def)

lemma dictScanBucket_fold: "dictScanBucket fn p de = scan_fold fn p (entries de)"
  by (induction fn p de rule: dictScanBucket.induct) (simp_all add: scan_fold_def)

lemma and_mask_less: "a \<le> 63 \<Longrightarrow> unat (v AND mask a :: u64) < 2 ^ a"
  unfolding take_bit_eq_mask [symmetric] unsigned_take_bit_eq by (rule take_bit_nat_less_exp)

lemma dictScan_loop_ok:
  assumes a: "a0 \<le> a1" "a1 \<le> 63" and tbl: "length tbl = 2 ^ a1"
  shows "\<exists>v' xs. (\<forall>p. dictScan_loop fn tbl (mask a0) (mask a1) v p = Some (v', scan_fold fn p xs)) \<and>
    rc v' = next_block a0 (rc v) mod 2 ^ 64 \<and> set xs \<subseteq> (\<Union>b \<in> set tbl. set (entries b)) \<and>
    (\<forall>h. rc v \<le> rc h \<longrightarrow> rc h < next_block a0 (rc v) \<longrightarrow> set (entries (tbl ! unat (h AND mask a1))) \<subseteq> set xs)"
proof (induction "next_block a0 (rc v) - rc v" arbitrary: v rule: less_induct)
  case less
  define i where "i = unat (v AND mask a1)"
  define v1 where "v1 = cursor_next (mask a1) v"
  have i: "i < length tbl" using and_mask_less [OF a(2), of v] tbl by (simp add: i_def)
  have E: "dictScan_loop fn tbl (mask a0) (mask a1) v p =
     (if v1 AND (mask a0 XOR mask a1) \<noteq> 0 then dictScan_loop fn tbl (mask a0) (mask a1) v1 (scan_fold fn p (entries (tbl ! i)))
      else Some (v1, scan_fold fn p (entries (tbl ! i))))" for p
    using i by (subst dictScan_loop.simps) (simp add: rd_def i_def [symmetric] v1_def [symmetric] dictScanBucket_fold Let_def)
  have w: "rc v < 2 ^ 64" by (rule rc_less)
  have d01: "(2::nat) ^ (64 - a1) dvd 2 ^ (64 - a0)" using a by (intro le_imp_power_dvd) simp
  have d0: "(2::nat) ^ (64 - a0) dvd 2 ^ 64" by (intro le_imp_power_dvd) simp
  have n1: "rc v1 = next_block a1 (rc v) mod 2 ^ 64" unfolding v1_def using rc_cursor_next [of a1 v] a by simp
  have nb: "rc v < next_block a1 (rc v)" "rc v < next_block a0 (rc v)" "next_block a0 (rc v) \<le> 2 ^ 64"
    using next_block_bounds [OF _ w, of a1] next_block_bounds [OF _ w, of a0] a by auto
  have le: "next_block a1 (rc v) \<le> next_block a0 (rc v)"
    by (rule next_block_least [OF dvd_trans [OF d01 next_block_dvd] nb(2)])
  have "2 ^ (64 - a1) dvd rc v1" unfolding n1 by (intro dvd_mod next_block_dvd dvd_trans [OF d01 d0])
  then have stop: "v1 AND (mask a0 XOR mask a1) = 0 \<longleftrightarrow> 2 ^ (64 - a0) dvd rc v1" using scan_stop a by simp
  have here: "set (entries (tbl ! unat (h AND mask a1))) \<subseteq> set (entries (tbl ! i))"
    if "rc v \<le> rc h" "rc h < next_block a1 (rc v)" for h
    using same_block [OF _ that] a by (simp add: i_def)
  have sub: "set (entries (tbl ! i)) \<subseteq> (\<Union>b \<in> set tbl. set (entries b))" by (rule UN_upper [OF nth_mem [OF i]])
  show ?case
  proof (cases "next_block a1 (rc v) = next_block a0 (rc v)")
    case True
    then have "2 ^ (64 - a0) dvd rc v1" unfolding n1 by (metis dvd_mod next_block_dvd d0)
    then have "dictScan_loop fn tbl (mask a0) (mask a1) v p = Some (v1, scan_fold fn p (entries (tbl ! i)))" for p
      using E stop by simp
    then show ?thesis using n1 True here sub by auto
  next
    case False
    then have lt: "next_block a1 (rc v) < next_block a0 (rc v)" using le by simp
    then have e1: "rc v1 = next_block a1 (rc v)" using n1 nb(3) by simp
    have nd: "\<not> 2 ^ (64 - a0) dvd rc v1" using next_block_least [of a0 "rc v1" "rc v"] nb(1) lt unfolding e1 by linarith
    have s: "next_block a0 (rc v1) = next_block a0 (rc v)" using next_block_same [of "rc v" "rc v1" a0] nb(1) lt e1 by simp
    have "next_block a0 (rc v1) - rc v1 < next_block a0 (rc v) - rc v" using s e1 nb(1) lt by linarith
    from less [OF this] obtain v' xs where ih: "\<And>p. dictScan_loop fn tbl (mask a0) (mask a1) v1 p = Some (v', scan_fold fn p xs)"
      "rc v' = next_block a0 (rc v) mod 2 ^ 64" "set xs \<subseteq> (\<Union>b \<in> set tbl. set (entries b))"
      "\<And>h. rc v1 \<le> rc h \<Longrightarrow> rc h < next_block a0 (rc v) \<Longrightarrow> set (entries (tbl ! unat (h AND mask a1))) \<subseteq> set xs"
      unfolding s by blast
    have "dictScan_loop fn tbl (mask a0) (mask a1) v p = Some (v', scan_fold fn p (entries (tbl ! i) @ xs))" for p
      using E stop nd ih(1) by (simp add: scan_fold_append)
    moreover have "set (entries (tbl ! unat (h AND mask a1))) \<subseteq> set (entries (tbl ! i) @ xs)"
      if "rc v \<le> rc h" "rc h < next_block a0 (rc v)" for h
      using here [OF that(1)] ih(4) [OF _ that(2)] e1 by (cases "rc h < rc v1") auto
    moreover have "set (entries (tbl ! i) @ xs) \<subseteq> (\<Union>b \<in> set tbl. set (entries b))" using sub ih(3) by auto
    ultimately show ?thesis using ih(2) by blast
  qed
qed


definition scan_exp :: "('s, 'k, 'v) dict \<Rightarrow> nat" where
  "scan_exp d = nat (if dictIsRehashing d then min (ht_size_exp (ht0 d)) (ht_size_exp (ht1 d)) else ht_size_exp (ht0 d))"

lemma size_mask: "0 \<le> e \<Longrightarrow> e \<le> 63 \<Longrightarrow> DICTHT_SIZE_MASK e = mask (nat e)"
  by (simp add: DICTHT_SIZE_MASK_def mask_eq_exp_minus_1)

text \<open>The bucket of a visited block holds every entry of the table whose reversed hash is in the block.\<close>

lemma table_entry:
  assumes "ht_ok ty h" "e \<in># tbl_entries (ht_table h)"
  shows "e \<in> set (entries (ht_table h ! unat (hashFunction ty (keyFromStoredKey ty (fst e)) AND mask (nat (ht_size_exp h)))))"
proof -
  obtain i where i: "i < length (ht_table h)" "e \<in> set (entries (ht_table h ! i))" using assms(2) by (auto simp: tbl_entries_mem)
  then have "ht_table h \<noteq> []" by auto
  then have "DICTHT_SIZE_MASK (ht_size_exp h) = mask (nat (ht_size_exp h))"
    using ht_ok_exp [OF assms(1)] by (intro size_mask) auto
  then show ?thesis using ht_ok_tableI [OF assms(1) i] i(2) by (simp add: slot_def)
qed

lemma table_entries_UN: "set (entries b) \<subseteq> set_mset (tbl_entries tbl)" if "b \<in> set tbl"
  using that by (auto simp: tbl_entries_def)

definition emits ::
  "('s, 'k, 'v) dict \<Rightarrow> u64 \<Rightarrow> u64 \<Rightarrow> ('s \<times> 'v ptr) list \<Rightarrow> bool" where
  "emits d v v' xs \<longleftrightarrow> set xs \<subseteq> set_mset (contents d) \<and> rc v' = next_block (scan_exp d) (rc v) mod 2 ^ 64 \<and>
     (\<forall>e. e \<in># contents d \<longrightarrow> rc v \<le> rc (dictGetHash d (key_of d e)) \<longrightarrow>
        rc (dictGetHash d (key_of d e)) < next_block (scan_exp d) (rc v) \<longrightarrow> e \<in> set xs)"

lemma scan_one_ok:
  assumes ok: "dict_ok d" "contents d \<noteq> {#}" and nr: "\<not> dictIsRehashing d"
  shows "\<exists>v' xs. (\<forall>p. dictScan d v fn p = Some (d, v', scan_fold fn p xs)) \<and> emits d v v' xs"
proof -
  define a where "a = nat (ht_size_exp (ht0 d))"
  have h: "ht_ok (dtype d) (ht0 d)" and c: "contents d = tbl_entries (ht_table (ht0 d))"
    using ok(1) nr by (auto simp: dict_ok_def contents_def dictIsRehashing_def dictReset_def)
  then have t: "ht_table (ht0 d) \<noteq> []" using ok(2) by auto
  note e = ht_ok_exp [OF h t]
  have m: "DICTHT_SIZE_MASK (ht_size_exp (ht0 d)) = mask a" unfolding a_def using e by (intro size_mask) auto
  have a: "a \<le> 63" "scan_exp d = a" using e nr by (auto simp: a_def scan_exp_def)
  have len: "length (ht_table (ht0 d)) = 2 ^ a" using h t by (simp add: ht_ok_def a_def)
  define i where "i = unat (v AND mask a)"
  have i: "i < length (ht_table (ht0 d))" using and_mask_less [OF a(1), of v] len by (simp add: i_def)
  have "dictScan d v fn p = Some (d, cursor_next (mask a) v, scan_fold fn p (entries (ht_table (ht0 d) ! i)))" for p
    using ok nr i dictSize_contents [OF ok(1)]
    by (simp add: dictScan_def dictPauseRehashing_def dictResumeRehashing_def dictIsRehashing_def m rd_def i_def [symmetric]
        dictScanBucket_fold)
  moreover have "e \<in> set (entries (ht_table (ht0 d) ! i))"
    if "e \<in># contents d" "rc v \<le> rc (dictGetHash d (key_of d e))" "rc (dictGetHash d (key_of d e)) < next_block a (rc v)" for e
    using table_entry [OF h, of e] that(1) same_block [OF _ that(2,3)] a(1) c by (simp add: i_def a_def dictGetHash_def)
  then have "emits d v (cursor_next (mask a) v) (entries (ht_table (ht0 d) ! i))"
    unfolding emits_def a(2) using table_entries_UN [OF nth_mem [OF i]] rc_cursor_next [of a v] a c by simp
  ultimately show ?thesis by blast
qed

lemma scan_two_ok:
  assumes ok: "dict_ok d" "contents d \<noteq> {#}" and r: "dictIsRehashing d"
  shows "\<exists>v' xs. (\<forall>p. dictScan d v fn p = Some (d, v', scan_fold fn p xs)) \<and> emits d v v' xs"
proof -
  define t0 :: nat where "t0 = (if DICTHT_SIZE (ht_size_exp (ht0 d)) > DICTHT_SIZE (ht_size_exp (ht1 d)) then 1 else 0)"
  have T: "(if DICTHT_SIZE (ht_size_exp (ht0 d)) > DICTHT_SIZE (ht_size_exp (ht1 d)) then (1, 0) else (0, 1)) = (t0, 1 - t0)"
    by (simp add: t0_def)
  define h0 where "h0 = get_ht d t0"
  define h1 where "h1 = get_ht d (1 - t0)"
  have ne: "ht_table (ht0 d) \<noteq> []" "ht_table (ht1 d) \<noteq> []" and hk: "ht_ok (dtype d) (ht0 d)" "ht_ok (dtype d) (ht1 d)"
    using ok(1) r by (auto simp: dict_ok_def dictIsRehashing_def split: if_splits)
  have h: "ht_ok (dtype d) h0" "ht_ok (dtype d) h1" "ht_table h0 \<noteq> []" "ht_table h1 \<noteq> []"
    and c: "contents d = tbl_entries (ht_table h0) + tbl_entries (ht_table h1)"
    using ne hk by (auto simp: h0_def h1_def t0_def contents_def add.commute)
  define a0 where "a0 = nat (ht_size_exp h0)"
  define a1 where "a1 = nat (ht_size_exp h1)"
  note e0 = ht_ok_exp [OF h(1,3)]
  note e1 = ht_ok_exp [OF h(2,4)]
  have m: "DICTHT_SIZE_MASK (ht_size_exp h0) = mask a0" "DICTHT_SIZE_MASK (ht_size_exp h1) = mask a1"
    unfolding a0_def a1_def using e0 e1 by (auto intro!: size_mask)
  have ex: "2 \<le> ht_size_exp (ht0 d)" "2 \<le> ht_size_exp (ht1 d)" using ht_ok_exp [OF hk(1) ne(1)] ht_ok_exp [OF hk(2) ne(2)] by auto
  then have cmp: "DICTHT_SIZE (ht_size_exp (ht0 d)) > DICTHT_SIZE (ht_size_exp (ht1 d)) \<longleftrightarrow> ht_size_exp (ht0 d) > ht_size_exp (ht1 d)"
    by (simp add: DICTHT_SIZE_def nat_less_eq_zless)
  then have a: "a0 \<le> a1" "a0 \<le> 63" "a1 \<le> 63" "scan_exp d = a0"
    using r e0 e1 ex by (auto simp: a0_def a1_def h0_def h1_def t0_def scan_exp_def)
  have len: "length (ht_table h0) = 2 ^ a0" "length (ht_table h1) = 2 ^ a1" using h by (simp_all add: ht_ok_def a0_def a1_def)
  define i where "i = unat (v AND mask a0)"
  have i: "i < length (ht_table h0)" using and_mask_less [OF a(2), of v] len by (simp add: i_def)
  obtain v' xs where loop: "\<And>p. dictScan_loop fn (ht_table h1) (mask a0) (mask a1) v p = Some (v', scan_fold fn p xs)"
    "rc v' = next_block a0 (rc v) mod 2 ^ 64" "set xs \<subseteq> (\<Union>b \<in> set (ht_table h1). set (entries b))"
    "\<And>h. rc v \<le> rc h \<Longrightarrow> rc h < next_block a0 (rc v) \<Longrightarrow> set (entries (ht_table h1 ! unat (h AND mask a1))) \<subseteq> set xs"
    using dictScan_loop_ok [OF a(1,3) len(2), where v = v and fn = fn] by blast
  have "dictScan d v fn p = Some (d, v', scan_fold fn p (entries (ht_table h0 ! i) @ xs))" for p
  proof -
    have [simp]: "dictIsRehashing (dictPauseRehashing d)" "ht0 (dictPauseRehashing d) = ht0 d" "ht1 (dictPauseRehashing d) = ht1 d"
      "get_ht (dictPauseRehashing d) t = get_ht d t" "dictResumeRehashing (dictPauseRehashing d) = d" for t
      using r by (simp_all add: dictPauseRehashing_def dictResumeRehashing_def dictIsRehashing_def get_ht_def)
    show ?thesis
      unfolding dictScan_def T using ok i dictSize_contents [OF ok(1)] loop(1)
      by (simp add: T h0_def [symmetric] h1_def [symmetric] m rd_def i_def [symmetric] dictScanBucket_fold scan_fold_append
          del: get_ht_simps One_nat_def)
  qed
  moreover have "e \<in> set (entries (ht_table h0 ! i) @ xs)"
    if e: "e \<in># contents d" "rc v \<le> rc (dictGetHash d (key_of d e))" "rc (dictGetHash d (key_of d e)) < next_block a0 (rc v)" for e
  proof (cases "e \<in># tbl_entries (ht_table h0)")
    case True
    then show ?thesis
      using table_entry [OF h(1) True] same_block [OF _ e(2,3)] a(2) by (simp add: i_def a0_def dictGetHash_def)
  next
    case False
    then have "e \<in># tbl_entries (ht_table h1)" using e(1) c by simp
    then show ?thesis using table_entry [OF h(2), of e] loop(4) [OF e(2,3)] by (auto simp: a1_def dictGetHash_def)
  qed
  moreover have "set xs \<subseteq> set_mset (contents d)" using loop(3) table_entries_UN [of _ "ht_table h1"] c by fastforce
  then have "set (entries (ht_table h0 ! i) @ xs) \<subseteq> set_mset (contents d)"
    using table_entries_UN [OF nth_mem [OF i]] c by auto
  ultimately show ?thesis using loop(2) unfolding emits_def a(4) by blast
qed


lemma dictScan_ok:
  assumes "dict_ok d" "contents d \<noteq> {#}"
  shows "\<exists>v' xs. (\<forall>p. dictScan d v fn p = Some (d, v', scan_fold fn p xs)) \<and> emits d v v' xs"
  using scan_one_ok [OF assms] scan_two_ok [OF assms] by (cases "dictIsRehashing d") simp_all

lemma scan_exp_bound:
  assumes "dict_ok d" "contents d \<noteq> {#}"
  shows "scan_exp d \<le> 60"
proof -
  have "has_table d" using has_table_contents [OF assms] .
  then have "ht_size_exp (ht0 d) \<le> 60" using ht_ok_exp [of "dtype d" "ht0 d"] assms(1) by (simp add: dict_ok_def has_table_def)
  then show ?thesis by (auto simp: scan_exp_def nat_le_iff)
qed


subsection \<open>Iterations\<close>

text \<open>The calls of an iteration, each on the dict as it is then; the callback collects the stored keys.\<close>

fun scan_seq :: "('s, 'k, 'v) dict list \<Rightarrow> u64 \<Rightarrow> 's list \<Rightarrow> (u64 \<times> 's list) res" where
  "scan_seq [] v ks = Some (v, ks)"
| "scan_seq (d # ds) v ks = do { (_, v, ks) \<leftarrow> dictScan d v (\<lambda>ks s _. ks @ [s]) ks; scan_seq ds v ks }"

lemma scan_fold_collect: "scan_fold (\<lambda>ks s _. ks @ [s]) ks xs = ks @ map fst xs"
  by (induction xs arbitrary: ks) (simp_all add: scan_fold_def)

lemma dictScan_collect:
  assumes "dict_ok d" "contents d \<noteq> {#}"
  shows "\<exists>v' xs. (\<forall>ks. dictScan d v (\<lambda>ks s _. ks @ [s]) ks = Some (d, v', ks @ map fst xs)) \<and> emits d v v' xs"
  using dictScan_ok [OF assms, of v "\<lambda>ks s _. ks @ [s]"] unfolding scan_fold_collect .

lemma scan_seq_mono: "scan_seq ds v ks = Some (v', ks') \<Longrightarrow> \<forall>d \<in> set ds. dict_ok d \<Longrightarrow> set ks \<subseteq> set ks'"
proof (induction ds arbitrary: v ks)
  case (Cons d ds)
  show ?case
  proof (cases "contents d = {#}")
    case True
    then show ?thesis using Cons dictSize_contents [of d] by (simp add: dictScan_def)
  next
    case False
    then obtain v1 xs where "\<And>ks. dictScan d v (\<lambda>ks s _. ks @ [s]) ks = Some (d, v1, ks @ map fst xs)" "emits d v v1 xs"
      using dictScan_collect [of d v] Cons.prems(2) by auto
    then show ?thesis using Cons.IH [of v1 "ks @ map fst xs"] Cons.prems by auto
  qed
qed simp

lemma rc_zero: "rc v = 0 \<longleftrightarrow> v = 0"
proof -
  have "rev_ul 0 = 0" by (rule bit_word_eqI) (simp add: bit_rev_ul)
  then show ?thesis by (metis rev_ul_rev_ul unat_eq_zero)
qed

lemma scan_seq_covers:
  assumes "scan_seq ds v ks = Some (0, ks')" "ds \<noteq> []"
    and "\<forall>d \<in> set ds. dict_ok d \<and> dtype d = ty \<and> dict_map d k \<noteq> None" "rc v \<le> rc (hashFunction ty k)"
  shows "\<exists>s \<in> set ks'. keyFromStoredKey ty s = k"
  using assms
proof (induction ds arbitrary: v ks)
  case (Cons d ds)
  have ok: "dict_ok d" "dtype d = ty" using Cons.prems by auto
  obtain e where "dict_map d k = Some e" using Cons.prems(3) by auto
  then have e: "e \<in># contents d" "key_of d e = k" using dict_map_iff [OF ok(1), of k e] by simp_all
  then have "contents d \<noteq> {#}" by auto
  then obtain v1 xs where 1: "\<And>ks. dictScan d v (\<lambda>ks s _. ks @ [s]) ks = Some (d, v1, ks @ map fst xs)" and em: "emits d v v1 xs"
    using dictScan_collect [OF ok(1), of v] by blast
  have run: "scan_seq ds v1 (ks @ map fst xs) = Some (0, ks')" using Cons.prems(1) 1 by simp
  have b: "next_block (scan_exp d) (rc v) \<le> 2 ^ 64"
    using next_block_bounds [OF _ rc_less, of "scan_exp d"] scan_exp_bound [OF ok(1) \<open>contents d \<noteq> {#}\<close>] by simp
  show ?case
  proof (cases "rc (hashFunction ty k) < next_block (scan_exp d) (rc v)")
    case True
    then have "e \<in> set xs" using em e ok(2) Cons.prems(4) by (cases e) (simp add: emits_def dictGetHash_def)
    then have "fst e \<in> set ks'" using scan_seq_mono [OF run] Cons.prems(3) by auto
    then show ?thesis using e(2) ok(2) by auto
  next
    case False
    then have lt: "next_block (scan_exp d) (rc v) < 2 ^ 64" using rc_less [of "hashFunction ty k"] by simp
    then have "rc v1 = next_block (scan_exp d) (rc v)" using em by (simp add: emits_def)
    moreover have "0 < next_block (scan_exp d) (rc v)" by (simp add: next_block_def)
    ultimately have v1: "rc v1 \<le> rc (hashFunction ty k)" "v1 \<noteq> 0" using False rc_zero [of v1] by linarith+
    then have "ds \<noteq> []" using run by auto
    then show ?thesis using Cons.IH [OF run] Cons.prems(3) v1(1) by simp
  qed
qed simp

lemma scan_seq_same:
  assumes ok: "dict_ok d" "contents d \<noteq> {#}" and a: "a = scan_exp d"
  shows "0 < n \<Longrightarrow> i + n = 2 ^ a \<Longrightarrow> rc v = i * 2 ^ (64 - a) \<Longrightarrow>
    \<exists>ks'. scan_seq (replicate n d) v ks = Some (0, ks') \<and> set ks' \<subseteq> set ks \<union> fst ` set_mset (contents d)"
proof (induction n arbitrary: i v ks)
  case (Suc n)
  have a64: "(2::nat) ^ a * 2 ^ (64 - a) = 2 ^ 64" using scan_exp_bound [OF ok] a by (simp flip: power_add)
  obtain v1 xs where 1: "\<And>ks. dictScan d v (\<lambda>ks s _. ks @ [s]) ks = Some (d, v1, ks @ map fst xs)" and em: "emits d v v1 xs"
    using dictScan_collect [OF ok, of v] by blast
  have nb: "next_block a (rc v) = (i + 1) * 2 ^ (64 - a)" unfolding next_block_def Suc.prems(3) by simp
  then have v1: "rc v1 = (i + 1) * 2 ^ (64 - a) mod 2 ^ 64" using em a unfolding emits_def by simp
  have sub: "set (ks @ map fst xs) \<subseteq> set ks \<union> fst ` set_mset (contents d)" using em unfolding emits_def by auto
  show ?case
  proof (cases "n = 0")
    case True
    then have "i + 1 = 2 ^ a" using Suc.prems(2) by simp
    then have "v1 = 0" using v1 a64 rc_zero [of v1] by simp
    then show ?thesis using 1 True sub by auto
  next
    case False
    then have "i + 1 < 2 ^ a" using Suc.prems(2) by linarith
    then have "(i + 1) * 2 ^ (64 - a) < 2 ^ 64" unfolding a64 [symmetric] by (rule mult_less_mono1) simp
    then have "rc v1 = (i + 1) * 2 ^ (64 - a)" using v1 by simp
    then obtain ks' where "scan_seq (replicate n d) v1 (ks @ map fst xs) = Some (0, ks')"
      "set ks' \<subseteq> set (ks @ map fst xs) \<union> fst ` set_mset (contents d)"
      using Suc.IH [of "i + 1" v1 "ks @ map fst xs"] False Suc.prems(2) by auto
    moreover from this(2) have "set ks' \<subseteq> set ks \<union> fst ` set_mset (contents d)" using sub by blast
    ultimately show ?thesis using 1 by simp
  qed
qed simp

end
