(* ===== verification/Dict_Props.thy ===== *)
theory Dict_Props
  imports Dict_Scan
begin

unbundle bit_operations_syntax

text \<open>
  The properties of dicts. The operations of a dict with values implement those of a finite map whatever the resize
  policy is at each call; incremental rehashing ends; an iteration with \<open>dictScan\<close> ends and misses no key that
  stays in the dict.
\<close>

subsection \<open>Unlinking in two phases\<close>

lemma dictTwoPhaseUnlinkFind_ok:
  assumes ok: "dict_ok d"
  shows "\<exists>d1 r. dictTwoPhaseUnlinkFind can d key = Some (if r \<noteq> None then dictPauseRehashing d1 else d1, r) \<and> kept d d1 \<and>
    found d1 key r"
proof (cases "dictSize d = 0")
  case True
  then show ?thesis using kept_refl [OF ok] dict_map_None [OF ok, of key] dictSize_contents [OF ok]
    by (intro exI [of _ d] exI [of _ None]) (simp add: dictTwoPhaseUnlinkFind_def found_def)
next
  case False
  obtain d1 where d1: "(if dictIsRehashing d then dictRehashStep can d else Some d) = Some d1" "kept d d1"
    using dictRehashStep_ok [OF ok, of can] kept_refl [OF ok] by (cases "dictIsRehashing d") auto
  have ok1: "dict_ok d1" "has_table d1"
    using d1(2) False has_table_contents [of d1] dictSize_contents [OF ok] by (auto simp: kept_def)
  define h where "h = dictGetHash d1 key"
  obtain r0 r1 where r: "find_in_table d1 h key 0 = Some (slot h (ht_size_exp (ht0 d1)), r0)"
    "\<forall>p. r0 = Some p \<longrightarrow> (\<exists>x. valid_pos d1 p x \<and> key_of d1 (hd (entries x)) = key)"
    "dictIsRehashing d1 \<longrightarrow> find_in_table d1 h key 1 = Some (slot h (ht_size_exp (ht1 d1)), r1)"
    "\<forall>p. r1 = Some p \<longrightarrow> (\<exists>x. valid_pos d1 p x \<and> key_of d1 (hd (entries x)) = key)"
    "r0 = None \<or> int (slot h (ht_size_exp (ht0 d1))) < rehashidx d1 \<longrightarrow> r1 = None \<or> \<not> dictIsRehashing d1 \<longrightarrow> dict_map d1 key = None"
    by (rule find_tables_ok [OF ok1 h_def])
  define l0 where "l0 = (if int (slot h (ht_size_exp (ht0 d1))) < rehashidx d1 then None else r0)"
  define l1 where "l1 = (if l0 \<noteq> None \<or> \<not> dictIsRehashing d1 then l0 else r1)"
  have "found d1 key l1" using r(2,4,5) by (auto simp: found_def l0_def l1_def split: option.splits)
  moreover have "dictTwoPhaseUnlinkFind can d key = Some (if l1 \<noteq> None then dictPauseRehashing d1 else d1, l1)"
    using False d1(1) r(1,3) unfolding dictTwoPhaseUnlinkFind_def l1_def l0_def h_def by (simp add: Let_def)
  ultimately show ?thesis using d1(2) by blast
qed

lemma dictGetNext_entries: "x \<noteq> NoEntry \<Longrightarrow> kind_ok nv x \<Longrightarrow> \<exists>n. dictGetNext x = Some n \<and> kind_ok nv n \<and> entries x = hd (entries x) # entries n"
  by (cases x; cases nv) (auto simp: dictGetNext_def)

lemma dictTwoPhaseUnlinkFree_ok:
  assumes ok: "dict_ok d" and p: "valid_pos d p x"
  shows "\<exists>d'. dictTwoPhaseUnlinkFree can d (Some p) = Some (dictResumeRehashing d') \<and> dict_ok d' \<and> same_frame d d' \<and>
    contents d = add_mset (hd (entries x)) (contents d')"
proof -
  obtain t i j where tij: "p = (t, i, j)" by (cases p)
  define tbl where "tbl = ht_table (get_ht d t)"
  have v: "t \<le> 1" "i < length tbl" "chain_at (tbl ! i) j = Some x" "x \<noteq> NoEntry" "j < length (entries (tbl ! i))"
    "entries x = drop j (entries (tbl ! i))"
    using p by (auto simp: valid_pos_def tij tbl_def)
  have h: "ht_ok (dtype d) (get_ht d t)" by (rule dict_ok_get_ht [OF ok v(1)])
  have kb: "kind_ok (no_value (dtype d)) (tbl ! i)" using h v(2) by (auto simp: ht_ok_def tbl_def)
  obtain n where n: "dictGetNext x = Some n" "kind_ok (no_value (dtype d)) n" "entries x = hd (entries x) # entries n"
    using dictGetNext_entries [OF v(4) chain_at_kind [OF v(3) kb]] by blast
  obtain b where b: "chain_set (tbl ! i) j n = Some b" "kind_ok (no_value (dtype d)) b" "entries b = take j (entries (tbl ! i)) @ entries n"
    using chain_set_ok [OF v(3,4) kb n(2)] by auto
  have eb: "entries (tbl ! i) = take j (entries (tbl ! i)) @ hd (entries x) # entries n"
    using v(6) n(3) append_take_drop_id [of j "entries (tbl ! i)"] by simp
  have mb: "mset (entries (tbl ! i)) = add_mset (hd (entries x)) (mset (entries b))"
    using arg_cong [OF eb, of mset] by (simp add: b(3))
  have mem: "hd (entries x) \<in># contents d" by (rule valid_pos_mem [OF p])
  define M where "M = contents d - {#hd (entries x)#}"
  have M: "contents d = add_mset (hd (entries x)) M" using mem by (simp add: M_def)
  have kd: "keys_distinct (dtype d) M"
    using ok keys_distinct_subset [of "dtype d" M "{#hd (entries x)#}"] M by (simp add: dict_ok_def)
  have used: "0 < ht_used (get_ht d t)"
  proof -
    have "hd (entries x) \<in> set (entries (tbl ! i))" by (subst eb) simp
    then have "hd (entries x) \<in># tbl_entries tbl" using v(2) by (auto simp: tbl_entries_mem)
    then show ?thesis using ht_used_0 [OF h] unfolding tbl_def by (metis gr0I empty_iff set_mset_empty)
  qed
  define d1 where "d1 = set_ht d t ((get_ht d t)\<lparr>ht_table := (ht_table (get_ht d t))[i := b], ht_used := ht_used (get_ht d t) - 1\<rparr>)"
  have D: "dict_ok d1 \<and> contents d1 = M \<and> same_frame d d1 \<and> (has_table d \<longrightarrow> has_table d1) \<and>
    rehashidx d1 = rehashidx d \<and> ht_size_exp (ht0 d1) = ht_size_exp (ht0 d) \<and> ht_size_exp (ht1 d1) = ht_size_exp (ht1 d)"
  proof (rule dict_ok_bucket [OF ok v(1) v(2) [unfolded tbl_def] b(2) _ _ _ kd _ d1_def])
    have "set (entries b) \<subseteq> set (entries (tbl ! i))" using arg_cong [OF mb, of set_mset] by auto
    then show "\<forall>e \<in> set (entries b). slot (hashFunction (dtype d) (key_of d e)) (ht_size_exp (get_ht d t)) = i"
      using ht_ok_tableI [OF h] v(2) by (auto simp: tbl_def)
    show "ht_used (get_ht d t) - 1 + length (entries (ht_table (get_ht d t) ! i)) = ht_used (get_ht d t) + length (entries b)"
      using used arg_cong [OF mb, of size] by (simp add: tbl_def)
    show "t = 0 \<longrightarrow> int i < rehashidx d \<longrightarrow> b = NoEntry"
      using ok v(5) by (auto simp: dict_ok_def tbl_def split: if_splits)
    show "M + mset (entries (ht_table (get_ht d t) ! i)) = contents d + mset (entries b)"
      unfolding tbl_def [symmetric] mb M by simp
  qed
  obtain d2 where d2: "priv_dictShrinkIfNeeded can d1 = Some d2" "kept d1 d2" using priv_dictShrinkIfNeeded_ok [of d1 can] D by blast
  have "get_entry d (t, i, j) = Some x" using valid_pos_get [OF p] tij by simp
  moreover have "set_entry (set_ht d t ((get_ht d t)\<lparr>ht_used := ht_used (get_ht d t) - 1\<rparr>)) (t, i, j) n = Some d1"
    using b(1) v(2) by (auto simp: set_entry_def rd_def wr_def tbl_def d1_def get_ht_def set_ht_def split: if_splits)
  ultimately have "dictTwoPhaseUnlinkFree can d (Some p) = Some (dictResumeRehashing d2)"
    using v(4) n(1) d2(1) unfolding dictTwoPhaseUnlinkFree_def tij by (simp add: Let_def)
  moreover have "dict_ok d2" "same_frame d d2" "contents d2 = M" using D d2(2) same_frame_trans [of d d1 d2] by (auto simp: kept_def)
  ultimately show ?thesis using M by auto
qed


lemma two_phase_ok:
  assumes ok: "dict_ok d"
  shows "\<exists>d1 r d'. dictTwoPhaseUnlinkFind can d key = Some (d1, r) \<and> dictTwoPhaseUnlinkFree can d1 r = Some d' \<and>
    dict_ok d' \<and> same_frame d d' \<and> (r \<noteq> None \<longleftrightarrow> dict_map d key \<noteq> None) \<and> dict_map d' = (dict_map d)(key := None)"
proof -
  obtain d1 r where d1: "dictTwoPhaseUnlinkFind can d key = Some (if r \<noteq> None then dictPauseRehashing d1 else d1, r)"
    "kept d d1" "found d1 key r"
    using dictTwoPhaseUnlinkFind_ok [OF ok] by blast
  have ok1: "dict_ok d1" and sf: "same_frame d d1" and mp: "dict_map d1 = dict_map d" and ty: "dtype d1 = dtype d"
    using d1(2) kept_map [OF ok d1(2)] by (auto simp: kept_def same_frame_def)
  show ?thesis
  proof (cases r)
    case None
    then show ?thesis using d1 ok1 sf mp by (auto simp: dictTwoPhaseUnlinkFree_def found_def)
  next
    case (Some p)
    then obtain x where x: "valid_pos d1 p x" "key_of d1 (hd (entries x)) = key" using d1(3) by (auto simp: found_def)
    define d2 where "d2 = dictPauseRehashing d1"
    have ok2: "dict_ok d2" "valid_pos d2 p x" "contents d2 = contents d1"
      using ok1 x(1) by (auto simp: d2_def dictPauseRehashing_def dict_ok_def contents_def dictBuckets_def valid_pos_def get_ht_def)
    obtain d3 where d3: "dictTwoPhaseUnlinkFree can d2 (Some p) = Some (dictResumeRehashing d3)" "dict_ok d3" "same_frame d2 d3"
      "contents d2 = add_mset (hd (entries x)) (contents d3)"
      using dictTwoPhaseUnlinkFree_ok [OF ok2(1,2)] by blast
    define d4 where "d4 = dictResumeRehashing d3"
    have "same_frame d1 d4"
      using d3(3) by (simp add: d4_def d2_def dictPauseRehashing_def dictResumeRehashing_def same_frame_def)
    then have d4: "same_frame d d4" "dict_ok d4" "contents d4 = contents d3" "dtype d4 = dtype d1"
      using d3(2) same_frame_trans [OF sf, of d4] by (auto simp: d4_def d2_def dictPauseRehashing_def dictResumeRehashing_def dict_ok_def contents_def
          dictBuckets_def same_frame_def)
    have "dict_map d4 = (dict_map d1)(key := None)"
      using dict_map_remove [OF ok1 d4(2,4), of "hd (entries x)"] d4(3) d3(4) ok2(3) x(2) by simp
    moreover have "dict_map d1 key \<noteq> None" using valid_pos_map [OF ok1 x] by simp
    ultimately show ?thesis using d1(1) Some d3(1) d4 mp by (intro exI [of _ d2] exI [of _ r] exI [of _ d4]) (simp add: d2_def d4_def)
  qed
qed

lemma dictEmpty_ok:
  assumes "dict_ok d"
  shows "dict_ok (dictEmpty d) \<and> contents (dictEmpty d) = {#} \<and> dtype (dictEmpty d) = dtype d \<and>
    pauserehash (dictEmpty d) = 0 \<and> pauseAutoResize (dictEmpty d) = 0"
  using assms
  by (auto simp: dictEmpty_def dictClear_def Let_def set_ht_def get_ht_def dict_ok_def dictReset_def contents_def
      keys_distinct_def dictBuckets_def DICTHT_SIZE_def ht_ok_def call_def dictIsRehashing_def)


lemma dict_map_empty: "dict_ok d \<Longrightarrow> contents d = {#} \<Longrightarrow> dict_map d = Map.empty"
  by (simp add: fun_eq_iff dict_map_None)


subsection \<open>A dict implements a map\<close>

datatype ('s, 'k, 'v) dict_op =
    OpAdd 's 'v | OpReplace 's 'v | OpDelete 'k | OpUnlink 'k | OpFetch 'k | OpRehash nat | OpExpand nat | OpShrink | OpEmpty

datatype 'v dict_reply = Done bool | Value "'v ptr" | Quiet

text \<open>A call of an operation while \<open>dict_can_resize\<close> has a given value. \<open>OpUnlink\<close> is the pair of
  \<open>dictTwoPhaseUnlinkFind\<close> and \<open>dictTwoPhaseUnlinkFree\<close>.\<close>

fun dict_step ::
  "dictResizeEnable \<times> ('s, 'k, 'v) dict_op \<Rightarrow> ('s, 'k, 'v) dict \<Rightarrow> (('s, 'k, 'v) dict \<times> 'v dict_reply) res" where
  "dict_step (can, OpAdd s v) d = do { (d, b) \<leftarrow> dictAdd can d s v; Some (d, Done b) }"
| "dict_step (can, OpReplace s v) d = do { (d, b) \<leftarrow> dictReplace can d s v; Some (d, Done b) }"
| "dict_step (can, OpDelete k) d = do { (d, b) \<leftarrow> dictDelete can d k; Some (d, Done b) }"
| "dict_step (can, OpUnlink k) d = do {
     (d, link) \<leftarrow> dictTwoPhaseUnlinkFind can d k;
     d \<leftarrow> dictTwoPhaseUnlinkFree can d link;
     Some (d, Done (link \<noteq> None)) }"
| "dict_step (can, OpFetch k) d = do { (d, v) \<leftarrow> dictFetchValue can d k; Some (d, Value v) }"
| "dict_step (can, OpRehash n) d = do { (d, _) \<leftarrow> dictRehash can d (Suc n); Some (d, Quiet) }"
| "dict_step (can, OpExpand n) d = do { (d, _) \<leftarrow> dictExpand can d n; Some (d, Quiet) }"
| "dict_step (can, OpShrink) d = do { (d, _) \<leftarrow> dictShrinkIfNeeded can d; Some (d, Quiet) }"
| "dict_step (can, OpEmpty) d = Some (dictEmpty d, Quiet)"

fun map_step ::
  "('s, 'k) dictType \<Rightarrow> dictResizeEnable \<times> ('s, 'k, 'v) dict_op \<Rightarrow> ('k \<rightharpoonup> 's \<times> 'v option) \<Rightarrow>
   ('k \<rightharpoonup> 's \<times> 'v option) \<times> 'v dict_reply" where
  "map_step ty (_, OpAdd s v) m =
     (let k = keyFromStoredKey ty s in (if m k = None then m(k \<mapsto> (s, Some v)) else m, Done (m k = None)))"
| "map_step ty (_, OpReplace s v) m =
     (let k = keyFromStoredKey ty s
      in (m(k \<mapsto> (case m k of None \<Rightarrow> s | Some e \<Rightarrow> fst e, Some v)), Done (m k = None)))"
| "map_step ty (_, OpDelete k) m = (m(k := None), Done (m k \<noteq> None))"
| "map_step ty (_, OpUnlink k) m = (m(k := None), Done (m k \<noteq> None))"
| "map_step ty (_, OpFetch k) m = (m, Value (Option.bind (m k) snd))"
| "map_step ty (_, OpEmpty) m = (Map.empty, Quiet)"
| "map_step ty (_, _) m = (m, Quiet)"

definition dict_state :: "('s, 'k) dictType \<Rightarrow> ('s, 'k, 'v) dict \<Rightarrow> bool" where
  "dict_state ty d \<longleftrightarrow> dict_ok d \<and> values_set d \<and> dtype d = ty \<and> pauseAutoResize d = 0"

lemma dict_state_next:
  "dict_state ty d \<Longrightarrow> dict_ok d' \<Longrightarrow> same_frame d d' \<Longrightarrow> (\<And>k s v. dict_map d' k = Some (s, v) \<Longrightarrow> v \<noteq> None) \<Longrightarrow> dict_state ty d'"
  unfolding dict_state_def values_set_def same_frame_def by metis

lemma dict_state_kept: "dict_state ty d \<Longrightarrow> kept d d' \<Longrightarrow> dict_state ty d' \<and> dict_map d' = dict_map d"
  using kept_map [of d d'] by (auto simp: dict_state_def values_set_def kept_def same_frame_def)

lemma dict_step_ok:
  assumes st: "dict_state ty d"
  shows "\<exists>d' r. dict_step c d = Some (d', r) \<and> dict_state ty d' \<and> map_step ty c (dict_map d) = (dict_map d', r)"
proof -
  have ok: "dict_ok d" and vs: "values_set d" and ty: "dtype d = ty" "\<not> no_value (dtype d)" and pa: "has_table d \<or> pauseAutoResize d \<le> 0"
    and vm: "dict_map d k = Some (s, v) \<Longrightarrow> v \<noteq> None" for k s v
    using st unfolding dict_state_def values_set_def by auto
  obtain can opr where c: "c = (can, opr)" by (cases c)
  show ?thesis
  proof (cases opr)
    case (OpAdd s v)
    obtain d' where d': "dictAdd can d s v = Some (d', dict_map d (keyFromStoredKey ty s) = None)" "dict_ok d'" "same_frame d d'"
      "dict_map d' = (if dict_map d (keyFromStoredKey ty s) = None then (dict_map d)(keyFromStoredKey ty s \<mapsto> (s, Some v)) else dict_map d)"
      using dictAdd_ok [OF ok pa refl, of can s v] ty by auto
    have "dict_state ty d'" by (rule dict_state_next [OF st d'(2,3)]) (use d'(4) vm in \<open>auto split: if_splits\<close>)
    then show ?thesis using c OpAdd d' by (auto simp: Let_def)
  next
    case (OpReplace s v)
    obtain d' where d': "dictReplace can d s v = Some (d', dict_map d (keyFromStoredKey ty s) = None)" "dict_ok d'" "same_frame d d'"
      "dict_map d' = (dict_map d)(keyFromStoredKey ty s \<mapsto> (case dict_map d (keyFromStoredKey ty s) of None \<Rightarrow> s | Some e \<Rightarrow> fst e, Some v))"
      using dictReplace_ok [OF ok pa refl vs, of can s v] ty by auto
    have "dict_state ty d'" by (rule dict_state_next [OF st d'(2,3)]) (use d'(4) vm in \<open>auto split: if_splits\<close>)
    then show ?thesis using c OpReplace d' by (auto simp: Let_def)
  next
    case (OpDelete k)
    obtain d' where d': "dictDelete can d k = Some (d', dict_map d k \<noteq> None)" "dict_ok d'" "same_frame d d'" "dict_map d' = (dict_map d)(k := None)"
      using dictDelete_ok [OF ok, of can k] by blast
    have "dict_state ty d'" by (rule dict_state_next [OF st d'(2,3)]) (use d'(4) vm in \<open>auto split: if_splits\<close>)
    then show ?thesis using c OpDelete d' by simp
  next
    case (OpUnlink k)
    obtain d1 r d' where d': "dictTwoPhaseUnlinkFind can d k = Some (d1, r)" "dictTwoPhaseUnlinkFree can d1 r = Some d'"
      "dict_ok d'" "same_frame d d'" "r \<noteq> None \<longleftrightarrow> dict_map d k \<noteq> None" "dict_map d' = (dict_map d)(k := None)"
      using two_phase_ok [OF ok, of can k] by blast
    have "dict_state ty d'" by (rule dict_state_next [OF st d'(3,4)]) (use d'(6) vm in \<open>auto split: if_splits\<close>)
    then show ?thesis using c OpUnlink d' by simp
  next
    case (OpFetch k)
    then show ?thesis using c dictFetchValue_ok [OF ok vs, of can k] dict_state_kept [OF st] by auto
  next
    case (OpRehash n)
    obtain d' m where "dictRehash can d (Suc n) = Some (d', m)" "kept d d'" using dictRehash_ok [OF ok, of "Suc n" can] by blast
    then show ?thesis using c OpRehash dict_state_kept [OF st] by simp
  next
    case (OpExpand n)
    obtain d' m where "dictExpand can d n = Some (d', m)" "kept d d'" using dictExpand_ok [OF ok, of can n] by blast
    then show ?thesis using c OpExpand dict_state_kept [OF st] by simp
  next
    case OpShrink
    obtain d' m where "dictShrinkIfNeeded can d = Some (d', m)" "kept d d'" using dictShrinkIfNeeded_ok [OF ok, of can] by blast
    then show ?thesis using c OpShrink dict_state_kept [OF st] by simp
  next
    case OpEmpty
    have "dict_map (dictEmpty d) = Map.empty" using dictEmpty_ok [OF ok] dict_map_empty by blast
    then show ?thesis using c OpEmpty dictEmpty_ok [OF ok] ty by (auto simp: dict_state_def values_set_def)
  qed
qed

interpretation dm: implements "dict_state ty" dict_map dict_step "map_step ty" for ty :: "('s, 'k) dictType"
  by unfold_locales (rule dict_step_ok)

lemma dictCreate_ok: "dict_ok (dictCreate ty)" "contents (dictCreate ty) = {#}"
  by (simp_all add: dict_ok_def dictCreate_def ht_ok_def dictReset_def contents_def keys_distinct_def dictBuckets_def DICTHT_SIZE_def)

lemma dictCreate_map: "dict_map (dictCreate ty) = Map.empty"
  by (rule dict_map_empty [OF dictCreate_ok])

lemma dictCreate_state: "\<not> no_value ty \<Longrightarrow> dict_state ty (dictCreate ty)"
  using dictCreate_ok(1) [of ty] unfolding dict_state_def values_set_def dictCreate_map by (simp add: dictCreate_ok(1)) (simp add: dictCreate_def)


subsection \<open>Rehashing ends\<close>

text \<open>Calls of \<open>dictRehash(d, 1)\<close>, what \<open>_dictRehashStep\<close> and the server's cron do.\<close>

fun rehash_calls :: "nat \<Rightarrow> dictResizeEnable \<Rightarrow> ('s, 'k, 'v) dict \<Rightarrow> ('s, 'k, 'v) dict res" where
  "rehash_calls 0 can d = Some d"
| "rehash_calls (Suc n) can d = do { (d, _) \<leftarrow> dictRehash can d 1; rehash_calls n can d }"

lemma rehash_calls_done: "\<not> dictIsRehashing d \<Longrightarrow> rehash_calls n can d = Some d"
  by (induction n) (simp_all add: dictRehash_def)

lemma rehash_calls_ok:
  assumes "dict_ok d" "rehash_left d < n"
  shows "\<exists>d'. rehash_calls n DICT_RESIZE_ENABLE d = Some d' \<and> \<not> dictIsRehashing d' \<and> kept d d'"
  using assms
proof (induction n arbitrary: d)
  case (Suc n)
  obtain d1 more where d1: "dictRehash DICT_RESIZE_ENABLE d 1 = Some (d1, more)" "kept d d1"
    "more \<longrightarrow> rehash_left d1 < rehash_left d" "\<not> dictIsRehashing d \<longrightarrow> d1 = d" "more \<or> \<not> dictIsRehashing d1"
    using dictRehash_ok [OF Suc.prems(1), of 1 DICT_RESIZE_ENABLE] by (auto simp: rehash_avoided_def split: if_splits)
  show ?case
  proof (cases more)
    case True
    then show ?thesis using d1 Suc.IH [of d1] Suc.prems(2) kept_ok kept_trans [OF d1(2)] by auto
  next
    case False
    then show ?thesis using d1 rehash_calls_done [of d1 n] by auto
  qed
qed simp

lemma rehash_left_le: "dict_ok d \<Longrightarrow> dictIsRehashing d \<Longrightarrow> rehash_left d \<le> DICTHT_SIZE (ht_size_exp (ht0 d))"
  using DICTHT_SIZE_ok [of "dtype d" "ht0 d"] by (auto simp: rehash_left_def dict_ok_def dictIsRehashing_def split: if_splits)

lemma dictNextExp_least: "4 < sz \<Longrightarrow> sz < 2 ^ 63 - 1 \<Longrightarrow> DICTHT_SIZE (dictNextExp sz - 1) < sz"
proof -
  assume sz: "4 < sz" "sz < 2 ^ 63 - 1"
  then have "2 ^ (floorlog 2 (sz - 1) - 1) \<le> sz - 1" "2 \<le> floorlog 2 (sz - 1)"
    using floorlog_bounds [of "sz - 1" 2] floorlog_size [OF sz] by simp_all
  moreover have "nat (int (floorlog 2 (sz - 1)) - 1) = floorlog 2 (sz - 1) - 1" by simp
  ultimately have "DICTHT_SIZE (dictNextExp sz - 1) \<le> sz - 1" using sz by (simp add: dictNextExp_eq DICTHT_SIZE_def)
  then show ?thesis using sz by linarith
qed

lemma dictSize_card:
  assumes "dict_ok d"
  shows "dictSize d = card (dom (dict_map d))"
proof -
  have "distinct (map (key_of d) (all_entries d))"
    using assms keys_distinct_mset [of "dtype d" "all_entries d"] by (simp add: dict_ok_def mset_all_entries)
  then have "card (key_of d ` set (all_entries d)) = length (all_entries d)" using distinct_card by fastforce
  moreover have "dom (dict_map d) = key_of d ` set (all_entries d)" by (force simp: dict_map_def dom_map_of_conv_image_fst)
  ultimately show ?thesis using dictSize_contents [OF assms] arg_cong [OF mset_all_entries, of size d] by simp
qed


subsection \<open>A dict in the middle of a rehash\<close>

definition sample_type :: "(nat, nat) dictType" where
  "sample_type = \<lparr>hashFunction = of_nat, keyFromStoredKey = id, resizeAllowed = None, no_value = False, force_full_rehash = False\<rparr>"

definition sample_dict :: "(nat, nat, nat) dict" where
  "sample_dict = \<lparr>dtype = sample_type,
     ht0 = \<lparr>ht_table = [NoEntry, Entry (Entry NoEntry 5 (Some 50)) 1 (Some 10), NoEntry, NoEntry], ht_used = 2, ht_size_exp = 2\<rparr>,
     ht1 = \<lparr>ht_table = [Entry NoEntry 8 (Some 80), NoEntry, NoEntry, NoEntry, NoEntry, NoEntry, NoEntry, NoEntry],
            ht_used = 1, ht_size_exp = 3\<rparr>,
     rehashidx = 1, pauserehash = 0, pauseAutoResize = 0,
     calls = [BucketChanged 4, RehashingStarted 4, BucketChanged 8]\<rparr>"

lemma sample_dict_ok: "dict_ok sample_dict"
proof -
  have "ht_ok sample_type (ht0 sample_dict)" "ht_ok sample_type (ht1 sample_dict)"
    by (simp_all add: ht_ok_def sample_dict_def sample_type_def tbl_entries_def slot_eq All_less_Suc2)
  moreover have "keys_distinct sample_type (contents sample_dict)"
    using keys_distinct_mset [of sample_type "all_entries sample_dict"] unfolding mset_all_entries
    by (simp add: all_entries_def sample_dict_def sample_type_def)
  ultimately show ?thesis
    unfolding dict_ok_def by (simp add: sample_dict_def dictBuckets_def DICTHT_SIZE_def)
qed

lemma sample_dict_simps: "dtype sample_dict = sample_type" "dictIsRehashing sample_dict" "dictSize sample_dict = 3"
  "ht_size_exp (ht0 sample_dict) = 2" "ht_size_exp (ht1 sample_dict) = 3" "has_table sample_dict" "pauseAutoResize sample_dict = 0"
  "all_entries sample_dict = [(1, Some 10), (5, Some 50), (8, Some 80)]"
  by (simp_all add: sample_dict_def dictIsRehashing_def dictSize_def has_table_def all_entries_def)

lemma sample_dict_map: "dict_map sample_dict k \<noteq> None \<longleftrightarrow> k \<in> {1, 5, 8}"
  by (simp add: dict_map_def sample_dict_simps) (auto simp: sample_type_def)


section \<open>Properties\<close>

text \<open>C1: a dict with values behaves like a finite map. From \<open>dictCreate\<close>, every sequence of additions, replacements,
  deletions, two-phase deletions, fetches, rehashing steps, expansions, shrinks and clears, each under its own
  setting of \<open>dict_can_resize\<close>, runs without an invalid access or a failed assertion, keeps the invariant of the
  two tables, and gives the replies that the map gives.\<close>

theorem dict_refines_map:
  assumes "\<not> no_value ty"
  shows "\<exists>d rs. run_steps dict_step oprs (dictCreate ty) = Some (d, rs) \<and> dict_ok d \<and>
    run_spec (map_step ty) oprs Map.empty = (dict_map d, rs)"
  using dm.run_ok [OF dictCreate_state [OF assms], of oprs] unfolding dictCreate_map dict_state_def by blast

theorem dict_refines_map_witness:
  "\<exists>d. run_steps dict_step [(DICT_RESIZE_ENABLE, OpAdd 1 10), (DICT_RESIZE_AVOID, OpReplace 1 11), (DICT_RESIZE_FORBID, OpFetch 1),
       (DICT_RESIZE_ENABLE, OpRehash 3), (DICT_RESIZE_ENABLE, OpUnlink 1), (DICT_RESIZE_ENABLE, OpFetch 1)] (dictCreate sample_type) =
     Some (d, [Done True, Done False, Value (Some (11::nat)), Quiet, Done True, Value None]) \<and> dict_map d = Map.empty"
  using dict_refines_map [of sample_type "[(DICT_RESIZE_ENABLE, OpAdd 1 10), (DICT_RESIZE_AVOID, OpReplace 1 11),
      (DICT_RESIZE_FORBID, OpFetch 1), (DICT_RESIZE_ENABLE, OpRehash 3), (DICT_RESIZE_ENABLE, OpUnlink 1), (DICT_RESIZE_ENABLE, OpFetch 1)]"]
  by (auto simp add: sample_type_def Let_def simp del: run_steps.simps)

text \<open>C35: the invariant of a dict, of any type and in any state of rehashing: the operations return, every entry stays in the
  bucket of its hash in a table of a power of two of buckets, the buckets below \<open>rehashidx\<close> stay empty, no key is
  duplicated, the counters are exact (\<open>dictSize\<close> is the number of keys) and the calls of \<open>bucketChanged\<close> add up to
  the number of buckets.\<close>

theorem dict_ops_keep_invariant:
  assumes "dict_ok d" "has_table d \<or> pauseAutoResize d \<le> 0" "n > 0"
  shows "(\<exists>d' b. dictAdd can d s v = Some (d', b) \<and> dict_ok d' \<and> dictSize d' = card (dom (dict_map d'))) \<and>
    (\<exists>d' p. dictAddOrFind can d s = Some (d', p) \<and> dict_ok d' \<and> p \<noteq> None) \<and>
    (\<exists>d' b. dictDelete can d k = Some (d', b) \<and> dict_ok d' \<and> dictSize d' = card (dom (dict_map d'))) \<and>
    (\<exists>d' p. dictFind can d k = Some (d', p) \<and> dict_ok d' \<and> (p \<noteq> None \<longleftrightarrow> dict_map d k \<noteq> None)) \<and>
    (\<exists>d' b. dictRehash can d n = Some (d', b) \<and> dict_ok d') \<and>
    (\<exists>d' b. dictExpand can d sz = Some (d', b) \<and> dict_ok d') \<and>
    (\<exists>d' b. dictTryExpand can d sz mem = Some (d', b) \<and> dict_ok d') \<and>
    (\<exists>d' b. dictShrinkIfNeeded can d = Some (d', b) \<and> dict_ok d') \<and>
    dict_ok (dictEmpty d) \<and> dictSize (dictEmpty d) = 0"
proof (intro conjI)
  show "\<exists>d' b. dictAdd can d s v = Some (d', b) \<and> dict_ok d' \<and> dictSize d' = card (dom (dict_map d'))"
    using dictAdd_ok [OF assms(1,2) refl, of can s v] dictSize_card by blast
  show "\<exists>d' p. dictAddOrFind can d s = Some (d', p) \<and> dict_ok d' \<and> p \<noteq> None"
    using dictAddRaw_ok [OF assms(1,2) refl, of can s] by (auto simp: dictAddOrFind_def split: if_splits option.splits)
  show "\<exists>d' b. dictDelete can d k = Some (d', b) \<and> dict_ok d' \<and> dictSize d' = card (dom (dict_map d'))"
    using dictDelete_ok [OF assms(1), of can k] dictSize_card by blast
  show "\<exists>d' p. dictFind can d k = Some (d', p) \<and> dict_ok d' \<and> (p \<noteq> None \<longleftrightarrow> dict_map d k \<noteq> None)"
    using dictFind_ok [OF assms(1), of can k] found_map kept_map [OF assms(1)] kept_ok by metis
  show "\<exists>d' b. dictRehash can d n = Some (d', b) \<and> dict_ok d'"
    using dictRehash_ok [OF assms(1,3), of can] kept_ok by blast
  show "\<exists>d' b. dictExpand can d sz = Some (d', b) \<and> dict_ok d'"
    using dictExpand_ok [OF assms(1), of can sz] kept_ok by blast
  show "\<exists>d' b. dictTryExpand can d sz mem = Some (d', b) \<and> dict_ok d'"
    using dictTryExpand_ok [OF assms(1), of can sz mem] kept_ok by blast
  show "\<exists>d' b. dictShrinkIfNeeded can d = Some (d', b) \<and> dict_ok d'"
    using dictShrinkIfNeeded_ok [OF assms(1), of can] kept_ok by blast
  show "dict_ok (dictEmpty d)" "dictSize (dictEmpty d) = 0"
    using dictEmpty_ok [OF assms(1)] dictSize_contents [of "dictEmpty d"] by simp_all
qed

theorem dict_ops_keep_invariant_witness:
  "(\<exists>d' b. dictAdd DICT_RESIZE_AVOID sample_dict 13 (7::nat) = Some (d', b) \<and> dict_ok d' \<and> dictSize d' = card (dom (dict_map d'))) \<and>
   (\<exists>d' p. dictFind DICT_RESIZE_AVOID sample_dict 5 = Some (d', p) \<and> dict_ok d' \<and> p \<noteq> None)"
  using dict_ops_keep_invariant [OF sample_dict_ok, of 1 DICT_RESIZE_AVOID 13 7 5] sample_dict_map [of 5]
  by (simp add: sample_dict_simps)

text \<open>C37: incremental rehashing ends. When resizing is enabled, as many calls of \<open>dictRehash(d, 1)\<close> as the old table has
  buckets, and one more, leave the dict with one table and the same map.\<close>

theorem dictRehash_finishes:
  assumes "dict_ok d" "n > DICTHT_SIZE (ht_size_exp (ht0 d))"
  shows "\<exists>d'. rehash_calls n DICT_RESIZE_ENABLE d = Some d' \<and> \<not> dictIsRehashing d' \<and> dict_ok d' \<and> dict_map d' = dict_map d"
proof (cases "dictIsRehashing d")
  case True
  then have "rehash_left d < n" using rehash_left_le [OF assms(1)] assms(2) by simp
  then show ?thesis using rehash_calls_ok [OF assms(1)] kept_map [OF assms(1)] kept_ok by blast
qed (use rehash_calls_done assms in blast)

theorem dictRehash_finishes_witness:
  "dictIsRehashing sample_dict \<and>
   (\<exists>d'. rehash_calls 5 DICT_RESIZE_ENABLE sample_dict = Some d' \<and> \<not> dictIsRehashing d' \<and> dict_map d' = dict_map sample_dict)"
  using dictRehash_finishes [OF sample_dict_ok, of 5] by (auto simp: sample_dict_simps DICTHT_SIZE_def)

text \<open>C38: \<open>_dictNextExp\<close> gives the least exponent of a power of two, at least \<open>DICT_HT_INITIAL_SIZE\<close>, that holds the size;
  the table is less than twice the size, and the exponent fits the width of \<open>unsigned long\<close>.\<close>

theorem dictNextExp_least_power:
  assumes "sz < 2 ^ 63 - 1"
  shows "sz \<le> DICTHT_SIZE (dictNextExp sz) \<and> (DICT_HT_INITIAL_SIZE < sz \<longrightarrow> DICTHT_SIZE (dictNextExp sz - 1) < sz) \<and>
    (sz \<le> DICT_HT_INITIAL_SIZE \<longrightarrow> dictNextExp sz = DICT_HT_INITIAL_EXP) \<and> 2 \<le> dictNextExp sz \<and> dictNextExp sz \<le> 63"
  using dictNextExp_fits [OF assms] dictNextExp_least [of sz] dictNextExp_bounds [of sz] assms
  by (simp add: dictNextExp_def)

theorem dictNextExp_least_power_witness:
  "1000 \<le> DICTHT_SIZE (dictNextExp 1000) \<and> DICTHT_SIZE (dictNextExp 1000 - 1) < 1000"
  using dictNextExp_least_power [of 1000] by simp

text \<open>C5: the guarantee of \<open>dictScan\<close>. In an iteration from cursor 0 back to cursor 0, where the dict may have been changed,
  resized or rehashed in any way between the calls, every key that is in the dict at each call is passed to the
  callback.\<close>

theorem dictScan_misses_no_key:
  assumes "scan_seq ds 0 [] = Some (0, ks)" "ds \<noteq> []"
    and "\<forall>d \<in> set ds. dict_ok d \<and> dtype d = ty \<and> dict_map d k \<noteq> None"
  shows "\<exists>s \<in> set ks. keyFromStoredKey ty s = k"
  using scan_seq_covers [OF assms] rc_zero [of 0] by simp

theorem dictScan_misses_no_key_witness:
  "\<exists>ks. scan_seq (replicate 4 sample_dict) 0 [] = Some (0, ks) \<and> (\<exists>s \<in> set ks. keyFromStoredKey sample_type s = 5)"
proof -
  have "scan_exp sample_dict = 2" by (simp add: scan_exp_def sample_dict_simps)
  moreover have "contents sample_dict \<noteq> {#}" using dictSize_contents [OF sample_dict_ok] by (auto simp: sample_dict_simps)
  ultimately obtain ks where "scan_seq (replicate 4 sample_dict) 0 [] = Some (0, ks)"
    using scan_seq_same [OF sample_dict_ok, where n = 4 and i = 0 and v = 0 and ks = "[]"] rc_zero [of 0] by auto
  then show ?thesis
    using dictScan_misses_no_key [of "replicate 4 sample_dict" ks sample_type 5] sample_dict_ok sample_dict_map [of 5]
    by (simp add: sample_dict_simps)
qed

text \<open>C36: an iteration with \<open>dictScan\<close> over a dict that does not change ends: each call returns, also while the dict is
  rehashing, the cursor is back at 0 after as many calls as the smaller table has buckets (one if the dict is empty), and
  the keys passed to the callback are those of the dict.\<close>

theorem dictScan_iteration_ends:
  assumes "dict_ok d"
  shows "\<exists>ks. scan_seq (replicate (if dictSize d = 0 then 1 else 2 ^ scan_exp d) d) 0 [] = Some (0, ks) \<and>
    keyFromStoredKey (dtype d) ` set ks = dom (dict_map d)"
proof (cases "dictSize d = 0")
  case True
  then show ?thesis using dictSize_contents [OF assms] dict_map_empty [OF assms] by (simp add: dictScan_def)
next
  case False
  then have ne: "contents d \<noteq> {#}" using dictSize_contents [OF assms] by auto
  then obtain ks where ks: "scan_seq (replicate (2 ^ scan_exp d) d) 0 [] = Some (0, ks)" "set ks \<subseteq> fst ` set_mset (contents d)"
    using scan_seq_same [OF assms ne refl, where n = "2 ^ scan_exp d" and i = 0 and v = 0 and ks = "[]"] rc_zero [of 0] by auto
  have "keyFromStoredKey (dtype d) ` set ks = dom (dict_map d)"
  proof (intro equalityI subsetI)
    fix k assume "k \<in> keyFromStoredKey (dtype d) ` set ks"
    then obtain e where "e \<in># contents d" "key_of d e = k" using ks(2) by auto
    then show "k \<in> dom (dict_map d)" using dict_map_iff [OF assms, of k e] by auto
  next
    fix k assume "k \<in> dom (dict_map d)"
    then show "k \<in> keyFromStoredKey (dtype d) ` set ks"
      using scan_seq_covers [OF ks(1), of "dtype d" k] assms rc_zero [of 0] by auto
  qed
  then show ?thesis using ks(1) False by auto
qed

theorem dictScan_iteration_ends_witness:
  "\<exists>ks. scan_seq (replicate 4 sample_dict) 0 [] = Some (0, ks) \<and> keyFromStoredKey (dtype sample_dict) ` set ks = dom (dict_map sample_dict)"
  using dictScan_iteration_ends [OF sample_dict_ok] by (simp add: scan_exp_def sample_dict_simps)

end
