(* ===== verification/Kvstore.thy ===== *)
theory Kvstore
  imports Dict_Props Fwtree
begin

unbundle bit_operations_syntax

text \<open>
  The key-value store of \<open>kvstore.c\<close>: an array of dicts, one for each slot of a cluster, with the counters and the
  Fenwick tree that say where the keys are. A dict is known by its index. The dict type given to \<open>kvstoreCreate\<close> is a
  parameter. The callbacks that a dict makes while an operation runs on it are recorded in its log
  and are carried out when the operation returns; no dict operation reads the store.

  \<open>can\<close> is the value of \<open>dict_can_resize\<close>. The callbacks of a \<open>kvstoreType\<close> that decide something are arguments:
  \<open>cf\<close> is \<open>canFreeDict\<close>. The counters \<open>key_count\<close>, \<open>bucket_count\<close> and \<open>overhead_hashtable_rehashing\<close> are words of 64 bits.
  \<open>kvstoreCreate\<close> asserts that the given dict type has no rehashing callbacks, metadata or user data of its own; a dict type of the
  model has none of these fields, so of its assertions the one on the number of bits is left.
\<close>

subsection \<open>State\<close>

text \<open>A dict of the store with the flag that says whether \<open>rehashing_node\<close> of its metadata is set.\<close>

record ('s, 'k, 'v) kvdict =
  kd :: "('s, 'k, 'v) dict"
  rehashing_node :: bool

record ('s, 'k, 'v) kvstore =
  kvs_flags :: nat
  kvs_dtype :: "('s, 'k) dictType"
  dicts :: "('s, 'k, 'v) kvdict ptr list"
  num_dicts :: nat
  num_dicts_bits :: nat
  rehashing :: "nat list"
  resize_cursor :: nat
  allocated_dicts :: int
  non_empty_dicts :: int
  key_count :: u64
  bucket_count :: u64
  dict_sizes :: "fenwickTree ptr"
  overhead_hashtable_rehashing :: u64

definition KVSTORE_ALLOCATE_DICTS_ON_DEMAND :: nat where [simp]: "KVSTORE_ALLOCATE_DICTS_ON_DEMAND = 1"
definition KVSTORE_FREE_EMPTY_DICTS :: nat where [simp]: "KVSTORE_FREE_EMPTY_DICTS = 2"


subsection \<open>Helpers\<close>

definition kvstoreGetDict :: "('s, 'k, 'v) kvstore \<Rightarrow> nat \<Rightarrow> ('s, 'k, 'v) dict ptr res" where
  "kvstoreGetDict kvs didx = do { e \<leftarrow> rd (dicts kvs) didx; Some (map_option kd e) }"

definition kvstoreDictSize :: "('s, 'k, 'v) kvstore \<Rightarrow> nat \<Rightarrow> nat res" where
  "kvstoreDictSize kvs didx = do {
     d \<leftarrow> kvstoreGetDict kvs didx;
     Some (case d of None \<Rightarrow> 0 | Some d \<Rightarrow> dictSize d) }"

definition kvstoreDictIsRehashingPaused :: "('s, 'k, 'v) kvstore \<Rightarrow> nat \<Rightarrow> bool res" where
  "kvstoreDictIsRehashingPaused kvs didx = do {
     d \<leftarrow> kvstoreGetDict kvs didx;
     Some (case d of None \<Rightarrow> False | Some d \<Rightarrow> pauserehash d > 0) }"

definition addDictIndexToCursor :: "('s, 'k, 'v) kvstore \<Rightarrow> int \<Rightarrow> u64 \<Rightarrow> u64" where
  "addDictIndexToCursor kvs didx cursor =
     (if num_dicts kvs = 1 then cursor
      else if didx < 0 then cursor
      else push_bit (num_dicts_bits kvs) cursor OR word_of_int didx)"

definition getAndClearDictIndexFromCursor :: "('s, 'k, 'v) kvstore \<Rightarrow> u64 \<Rightarrow> nat \<times> u64" where
  "getAndClearDictIndexFromCursor kvs cursor =
     (if num_dicts kvs = 1 then (0, cursor)
      else (unat (cursor AND of_nat (num_dicts kvs - 1)), drop_bit (num_dicts_bits kvs) cursor))"

definition cumulativeKeyCountAdd :: "('s, 'k, 'v) kvstore \<Rightarrow> nat \<Rightarrow> int \<Rightarrow> ('s, 'k, 'v) kvstore res" where
  "cumulativeKeyCountAdd kvs didx delta = do {
     let kvs = kvs\<lparr>key_count := key_count kvs + word_of_int delta\<rparr>;
     d \<leftarrow> kvstoreGetDict kvs didx;
     dsize \<leftarrow> map_option dictSize d;
     let non_empty_dicts_delta = (if dsize = 1 \<and> delta > 0 then 1 else if dsize = 0 then - 1 else 0);
     let kvs = kvs\<lparr>non_empty_dicts := non_empty_dicts kvs + non_empty_dicts_delta\<rparr>;
     if num_dicts kvs = 1 then Some kvs
     else do {
       t \<leftarrow> fwTreeUpdate (dict_sizes kvs) (int didx) delta;
       Some (kvs\<lparr>dict_sizes := t\<rparr>) } }"

definition createDictIfNeeded :: "('s, 'k, 'v) kvstore \<Rightarrow> nat \<Rightarrow> (('s, 'k, 'v) kvstore \<times> ('s, 'k, 'v) dict) res" where
  "createDictIfNeeded kvs didx = do {
     d \<leftarrow> kvstoreGetDict kvs didx;
     case d of Some d \<Rightarrow> Some (kvs, d)
     | None \<Rightarrow> do {
         let d = dictCreate (kvs_dtype kvs);
         ds \<leftarrow> wr (dicts kvs) didx (Some \<lparr>kd = d, rehashing_node = False\<rparr>);
         Some (kvs\<lparr>dicts := ds, allocated_dicts := allocated_dicts kvs + 1\<rparr>, d) } }"


subsection \<open>The callbacks of the dicts\<close>

definition set_node :: "('s, 'k, 'v) kvstore \<Rightarrow> nat \<Rightarrow> bool \<Rightarrow> ('s, 'k, 'v) kvstore res" where
  "set_node kvs didx b = do {
     e \<leftarrow> rd (dicts kvs) didx;
     e \<leftarrow> e;
     ds \<leftarrow> wr (dicts kvs) didx (Some (e\<lparr>rehashing_node := b\<rparr>));
     Some (kvs\<lparr>dicts := ds\<rparr>) }"

text \<open>\<open>from\<close> is the size of the first table that \<open>dictRehashingInfo\<close> returns.\<close>

definition kvstoreDictRehashingStarted :: "('s, 'k, 'v) kvstore \<Rightarrow> nat \<Rightarrow> nat \<Rightarrow> ('s, 'k, 'v) kvstore res" where
  "kvstoreDictRehashingStarted kvs didx from = do {
     kvs \<leftarrow> set_node (kvs\<lparr>rehashing := rehashing kvs @ [didx]\<rparr>) didx True;
     Some (kvs\<lparr>overhead_hashtable_rehashing := overhead_hashtable_rehashing kvs + of_nat from\<rparr>) }"

definition kvstoreDictRehashingCompleted :: "('s, 'k, 'v) kvstore \<Rightarrow> nat \<Rightarrow> nat \<Rightarrow> ('s, 'k, 'v) kvstore res" where
  "kvstoreDictRehashingCompleted kvs didx from = do {
     e \<leftarrow> rd (dicts kvs) didx;
     e \<leftarrow> e;
     kvs \<leftarrow> (if rehashing_node e then set_node (kvs\<lparr>rehashing := remove1 didx (rehashing kvs)\<rparr>) didx False else Some kvs);
     Some (kvs\<lparr>overhead_hashtable_rehashing := overhead_hashtable_rehashing kvs - of_nat from\<rparr>) }"

definition kvstoreDictBucketChanged :: "('s, 'k, 'v) kvstore \<Rightarrow> int \<Rightarrow> ('s, 'k, 'v) kvstore" where
  "kvstoreDictBucketChanged kvs delta = kvs\<lparr>bucket_count := bucket_count kvs + word_of_int delta\<rparr>"

fun run_calls :: "nat \<Rightarrow> dict_call list \<Rightarrow> ('s, 'k, 'v) kvstore \<Rightarrow> ('s, 'k, 'v) kvstore res" where
  "run_calls didx [] kvs = Some kvs"
| "run_calls didx (RehashingStarted n # cs) kvs = do { kvs \<leftarrow> kvstoreDictRehashingStarted kvs didx n; run_calls didx cs kvs }"
| "run_calls didx (RehashingCompleted n # cs) kvs = do { kvs \<leftarrow> kvstoreDictRehashingCompleted kvs didx n; run_calls didx cs kvs }"
| "run_calls didx (BucketChanged delta # cs) kvs = run_calls didx cs (kvstoreDictBucketChanged kvs delta)"

text \<open>The state after an operation that leaves the dict as \<open>d\<close>.\<close>

definition put_dict :: "('s, 'k, 'v) kvstore \<Rightarrow> nat \<Rightarrow> ('s, 'k, 'v) dict \<Rightarrow> ('s, 'k, 'v) kvstore res" where
  "put_dict kvs didx d = do {
     e \<leftarrow> rd (dicts kvs) didx;
     e \<leftarrow> e;
     ds \<leftarrow> wr (dicts kvs) didx (Some (e\<lparr>kd := d\<rparr>));
     run_calls didx (drop (length (calls (kd e))) (calls d)) (kvs\<lparr>dicts := ds\<rparr>) }"

definition freeDictIfNeeded :: "(nat \<Rightarrow> bool) ptr \<Rightarrow> ('s, 'k, 'v) kvstore \<Rightarrow> nat \<Rightarrow> ('s, 'k, 'v) kvstore res" where
  "freeDictIfNeeded cf kvs didx = do {
     d \<leftarrow> kvstoreGetDict kvs didx;
     size \<leftarrow> kvstoreDictSize kvs didx;
     paused \<leftarrow> kvstoreDictIsRehashingPaused kvs didx;
     case d of None \<Rightarrow> Some kvs
     | Some d \<Rightarrow>
       if kvs_flags kvs AND KVSTORE_FREE_EMPTY_DICTS = 0 \<or> size \<noteq> 0 \<or> paused then Some kvs
       else if (case cf of None \<Rightarrow> False | Some f \<Rightarrow> \<not> f didx) then Some kvs
       else do {
         kvs \<leftarrow> run_calls didx (dictRelease d) kvs;
         ds \<leftarrow> wr (dicts kvs) didx None;
         Some (kvs\<lparr>dicts := ds, allocated_dicts := allocated_dicts kvs - 1\<rparr>) } }"


subsection \<open>Creation, clearing and sizes\<close>

fun create_dicts :: "nat list \<Rightarrow> ('s, 'k, 'v) kvstore \<Rightarrow> ('s, 'k, 'v) kvstore res" where
  "create_dicts [] kvs = Some kvs"
| "create_dicts (i # is) kvs = do { (kvs, _) \<leftarrow> createDictIfNeeded kvs i; create_dicts is kvs }"

definition kvstoreCreate :: "('s, 'k) dictType \<Rightarrow> nat \<Rightarrow> nat \<Rightarrow> ('s, 'k, 'v) kvstore res" where
  "kvstoreCreate ty bits flags = do {
     chk (bits \<le> 16);
     let kvs = \<lparr>kvs_flags = flags, kvs_dtype = ty, dicts = replicate (2 ^ bits) None, num_dicts = 2 ^ bits,
       num_dicts_bits = bits, rehashing = [], resize_cursor = 0, allocated_dicts = 0, non_empty_dicts = 0, key_count = 0,
       bucket_count = 0, dict_sizes = None, overhead_hashtable_rehashing = 0\<rparr>;
     kvs \<leftarrow> (if flags AND KVSTORE_ALLOCATE_DICTS_ON_DEMAND = 0 then create_dicts [0..<num_dicts kvs] kvs else Some kvs);
     Some (kvs\<lparr>rehashing := [], key_count := 0, non_empty_dicts := 0, resize_cursor := 0,
       dict_sizes := if num_dicts kvs > 1 then Some (fwTreeCreate bits) else None,
       bucket_count := 0, overhead_hashtable_rehashing := 0\<rparr>) }"

fun empty_dicts :: "(nat \<Rightarrow> bool) ptr \<Rightarrow> nat list \<Rightarrow> ('s, 'k, 'v) kvstore \<Rightarrow> ('s, 'k, 'v) kvstore res" where
  "empty_dicts cf [] kvs = Some kvs"
| "empty_dicts cf (didx # is) kvs = do {
     d \<leftarrow> kvstoreGetDict kvs didx;
     kvs \<leftarrow> (case d of None \<Rightarrow> Some kvs
        | Some d \<Rightarrow> do {
            kvs \<leftarrow> set_node kvs didx False;
            kvs \<leftarrow> put_dict kvs didx (dictEmpty d);
            freeDictIfNeeded cf kvs didx });
     empty_dicts cf is kvs }"

definition kvstoreEmpty :: "(nat \<Rightarrow> bool) ptr \<Rightarrow> ('s, 'k, 'v) kvstore \<Rightarrow> ('s, 'k, 'v) kvstore res" where
  "kvstoreEmpty cf kvs = do {
     kvs \<leftarrow> empty_dicts cf [0..<num_dicts kvs] kvs;
     Some (kvs\<lparr>rehashing := [], key_count := 0, non_empty_dicts := 0, resize_cursor := 0, bucket_count := 0,
       dict_sizes := map_option fwTreeClear (dict_sizes kvs), overhead_hashtable_rehashing := 0\<rparr>) }"

definition kvstoreSize :: "('s, 'k, 'v) kvstore \<Rightarrow> u64" where
  "kvstoreSize kvs = key_count kvs"

definition kvstoreBuckets :: "('s, 'k, 'v) kvstore \<Rightarrow> nat res" where
  "kvstoreBuckets kvs =
     (if num_dicts kvs \<noteq> 1 then Some (unat (bucket_count kvs))
      else do { d \<leftarrow> kvstoreGetDict kvs 0; Some (case d of None \<Rightarrow> 0 | Some d \<Rightarrow> dictBuckets d) })"

definition kvstoreNumNonEmptyDicts :: "('s, 'k, 'v) kvstore \<Rightarrow> int" where
  "kvstoreNumNonEmptyDicts kvs = non_empty_dicts kvs"

definition kvstoreNumAllocatedDicts :: "('s, 'k, 'v) kvstore \<Rightarrow> int" where
  "kvstoreNumAllocatedDicts kvs = allocated_dicts kvs"

definition kvstoreDictRehashingCount :: "('s, 'k, 'v) kvstore \<Rightarrow> nat" where
  "kvstoreDictRehashingCount kvs = length (rehashing kvs)"


subsection \<open>Finding a dict\<close>

definition kvstoreFindDictIndexByKeyIndex :: "('s, 'k, 'v) kvstore \<Rightarrow> u64 \<Rightarrow> int res" where
  "kvstoreFindDictIndexByKeyIndex kvs target =
     (if num_dicts kvs = 1 \<or> kvstoreSize kvs = 0 then Some 0
      else do {
        chk (target \<le> kvstoreSize kvs);
        ft \<leftarrow> dict_sizes kvs;
        fwTreeFindIndex ft target })"

definition kvstoreGetFirstNonEmptyDictIndex :: "('s, 'k, 'v) kvstore \<Rightarrow> int res" where
  "kvstoreGetFirstNonEmptyDictIndex kvs =
     (if kvstoreSize kvs = 0 then Some (- 1)
      else if num_dicts kvs = 1 then Some 0
      else do { ft \<leftarrow> dict_sizes kvs; fwTreeFindFirstNonEmpty ft })"

definition kvstoreGetNextNonEmptyDictIndex :: "('s, 'k, 'v) kvstore \<Rightarrow> int \<Rightarrow> int res" where
  "kvstoreGetNextNonEmptyDictIndex kvs didx =
     (if num_dicts kvs = 1 then do { chk (didx = 0); Some (- 1) }
      else fwTreeFindNextNonEmpty (dict_sizes kvs) didx)"

text \<open>\<open>rnd i\<close> is the value of the \<open>i\<close>-th call of \<open>randomULong\<close>.\<close>

fun fair_attempt_loop ::
  "('s, 'k, 'v) kvstore \<Rightarrow> (int \<Rightarrow> bool) ptr \<Rightarrow> (nat \<Rightarrow> u64) \<Rightarrow> nat \<Rightarrow> nat \<Rightarrow> int ptr res" where
  "fair_attempt_loop kvs skip rnd i 0 = Some None"
| "fair_attempt_loop kvs skip rnd i (Suc n) = do {
     let target = rnd i mod kvstoreSize kvs + 1;
     didx \<leftarrow> kvstoreFindDictIndexByKeyIndex kvs target;
     if (case skip of None \<Rightarrow> True | Some f \<Rightarrow> \<not> f didx) then Some (Some didx)
     else fair_attempt_loop kvs skip rnd (Suc i) n }"

fun slow_fallback_loop ::
  "('s, 'k, 'v) kvstore \<Rightarrow> (int \<Rightarrow> bool) ptr \<Rightarrow> nat \<Rightarrow> nat list \<Rightarrow> int ptr res" where
  "slow_fallback_loop kvs skip start [] = Some None"
| "slow_fallback_loop kvs skip start (i # is) = do {
     let didx = (start + i) mod num_dicts kvs;
     d \<leftarrow> kvstoreGetDict kvs didx;
     if d \<noteq> None \<and> (case skip of None \<Rightarrow> True | Some f \<Rightarrow> \<not> f (int didx)) then Some (Some (int didx))
     else slow_fallback_loop kvs skip start is }"

definition kvstoreGetFairRandomDictIndex ::
  "('s, 'k, 'v) kvstore \<Rightarrow> (int \<Rightarrow> bool) ptr \<Rightarrow> nat \<Rightarrow> bool \<Rightarrow> (nat \<Rightarrow> u64) \<Rightarrow> int res" where
  "kvstoreGetFairRandomDictIndex kvs skip fair_attempts slow_fallback rnd =
     (if num_dicts kvs = 1 \<or> kvstoreSize kvs = 0 then Some 0
      else do {
        r \<leftarrow> fair_attempt_loop kvs skip rnd 0 fair_attempts;
        case r of Some didx \<Rightarrow> Some didx
        | None \<Rightarrow>
          if slow_fallback then do {
            let start = unat (rnd fair_attempts) mod num_dicts kvs;
            r \<leftarrow> slow_fallback_loop kvs skip start [0..<num_dicts kvs];
            Some (case r of Some didx \<Rightarrow> didx | None \<Rightarrow> - 1) }
          else Some (- 1) })"


subsection \<open>Operations on all dicts\<close>

fun expand_loop ::
  "dictResizeEnable \<Rightarrow> nat \<Rightarrow> bool \<Rightarrow> (nat \<Rightarrow> bool) \<Rightarrow> (nat \<Rightarrow> bool) ptr \<Rightarrow> nat list \<Rightarrow> ('s, 'k, 'v) kvstore \<Rightarrow>
   (('s, 'k, 'v) kvstore \<times> bool) res" where
  "expand_loop can newsize try_expand mem skip [] kvs = Some (kvs, True)"
| "expand_loop can newsize try_expand mem skip (i # is) kvs =
     (if (case skip of None \<Rightarrow> False | Some f \<Rightarrow> f i) then expand_loop can newsize try_expand mem skip is kvs
      else do {
        (kvs, d) \<leftarrow> createDictIfNeeded kvs i;
        (d, result) \<leftarrow> (if try_expand then dictTryExpand can d newsize (mem i) else dictExpand can d newsize);
        kvs \<leftarrow> put_dict kvs i d;
        if try_expand \<and> \<not> result then Some (kvs, False) else expand_loop can newsize try_expand mem skip is kvs })"

text \<open>\<open>mem i\<close> says whether \<open>ztrycalloc\<close> finds the memory for dict \<open>i\<close>.\<close>

definition kvstoreExpand ::
  "dictResizeEnable \<Rightarrow> ('s, 'k, 'v) kvstore \<Rightarrow> nat \<Rightarrow> bool \<Rightarrow> (nat \<Rightarrow> bool) \<Rightarrow> (nat \<Rightarrow> bool) ptr \<Rightarrow>
   (('s, 'k, 'v) kvstore \<times> bool) res" where
  "kvstoreExpand can kvs newsize try_expand mem skip = expand_loop can newsize try_expand mem skip [0..<num_dicts kvs] kvs"

fun resize_loop :: "dictResizeEnable \<Rightarrow> nat \<Rightarrow> ('s, 'k, 'v) kvstore \<Rightarrow> ('s, 'k, 'v) kvstore res" where
  "resize_loop can 0 kvs = Some kvs"
| "resize_loop can (Suc n) kvs = do {
     let didx = resize_cursor kvs;
     d \<leftarrow> kvstoreGetDict kvs didx;
     kvs \<leftarrow> (case d of None \<Rightarrow> Some kvs
        | Some d \<Rightarrow> do {
            (d, shrunk) \<leftarrow> dictShrinkIfNeeded can d;
            (d, _) \<leftarrow> (if shrunk then Some (d, True) else dictExpandIfNeeded can d);
            put_dict kvs didx d });
     resize_loop can n (kvs\<lparr>resize_cursor := (didx + 1) mod num_dicts kvs\<rparr>) }"

definition kvstoreTryResizeDicts :: "dictResizeEnable \<Rightarrow> ('s, 'k, 'v) kvstore \<Rightarrow> nat \<Rightarrow> ('s, 'k, 'v) kvstore res" where
  "kvstoreTryResizeDicts can kvs limit = resize_loop can (if limit > num_dicts kvs then num_dicts kvs else limit) kvs"

definition kvstoreScan ::
  "(nat \<Rightarrow> bool) ptr \<Rightarrow> ('s, 'k, 'v) kvstore \<Rightarrow> u64 \<Rightarrow> int \<Rightarrow> ('p \<Rightarrow> 's \<Rightarrow> 'v ptr \<Rightarrow> 'p) \<Rightarrow>
   (('s, 'k, 'v) dict \<Rightarrow> nat \<Rightarrow> bool) ptr \<Rightarrow> 'p \<Rightarrow> (('s, 'k, 'v) kvstore \<times> u64 \<times> 'p) res" where
  "kvstoreScan cf kvs cursor onlydidx scan_cb skip_cb privdata = do {
     let (didx, cursor) = getAndClearDictIndexFromCursor kvs cursor;
     if onlydidx \<ge> 0 \<and> int didx > onlydidx then Some (kvs, 0, privdata)
     else do {
       (didx, cursor) \<leftarrow> (if onlydidx \<ge> 0 \<and> int didx < onlydidx then do {
            chk (onlydidx < int (num_dicts kvs));
            Some (nat onlydidx, 0) }
          else Some (didx, cursor));
       d \<leftarrow> kvstoreGetDict kvs didx;
       let skip = (case d of None \<Rightarrow> True | Some d \<Rightarrow> (case skip_cb of None \<Rightarrow> False | Some f \<Rightarrow> f d didx));
       (kvs, c, privdata) \<leftarrow> (if skip then Some (kvs, 0, privdata)
          else do {
            d \<leftarrow> d;
            (d, c, privdata) \<leftarrow> dictScan d cursor scan_cb privdata;
            kvs \<leftarrow> put_dict kvs didx d;
            kvs \<leftarrow> freeDictIfNeeded cf kvs didx;
            Some (kvs, c, privdata) });
       if (c = 0 \<or> skip) \<and> onlydidx \<ge> 0 then Some (kvs, 0, privdata)
       else do {
         n \<leftarrow> (if c = 0 \<or> skip then kvstoreGetNextNonEmptyDictIndex kvs (int didx) else Some (int didx));
         if n = - 1 then Some (kvs, 0, privdata)
         else Some (kvs, addDictIndexToCursor kvs n c, privdata) } } }"


text \<open>\<open>kvstoreMoveDict\<close>: the dict of a slot changes its store.\<close>

definition kvstoreMoveDict ::
  "('s, 'k, 'v) kvstore \<Rightarrow> ('s, 'k, 'v) kvstore \<Rightarrow> nat \<Rightarrow> (('s, 'k, 'v) kvstore \<times> ('s, 'k, 'v) kvstore) res" where
  "kvstoreMoveDict kvs dst didx = do {
     chk (num_dicts kvs > didx);
     chk (num_dicts kvs = num_dicts dst);
     e' \<leftarrow> rd (dicts dst) didx;
     chk (e' = None);
     e \<leftarrow> rd (dicts kvs) didx;
     case e of None \<Rightarrow> Some (kvs, dst)
     | Some e \<Rightarrow> do {
         let d = kd e;
         let kvs = kvs\<lparr>allocated_dicts := allocated_dicts kvs - 1\<rparr>;
         kvs \<leftarrow> cumulativeKeyCountAdd kvs didx (- int (dictSize d));
         let kvs = kvstoreDictBucketChanged kvs (- int (dictBuckets d));
         kvs \<leftarrow> (if dictIsRehashing d
           then kvstoreDictRehashingCompleted kvs didx (DICTHT_SIZE (ht_size_exp (ht0 d))) else Some kvs);
         e \<leftarrow> rd (dicts kvs) didx;
         e \<leftarrow> e;
         ds \<leftarrow> wr (dicts kvs) didx None;
         let kvs = kvs\<lparr>dicts := ds\<rparr>;
         kvs \<leftarrow> (if kvs_flags kvs AND (KVSTORE_ALLOCATE_DICTS_ON_DEMAND OR KVSTORE_FREE_EMPTY_DICTS) = 0
           then do { (kvs, _) \<leftarrow> createDictIfNeeded kvs didx; Some kvs } else Some kvs);
         ds \<leftarrow> wr (dicts dst) didx (Some (e\<lparr>kd := d\<lparr>dtype := kvs_dtype dst\<rparr>\<rparr>));
         let dst = dst\<lparr>dicts := ds, allocated_dicts := allocated_dicts dst + 1\<rparr>;
         dst \<leftarrow> cumulativeKeyCountAdd dst didx (int (dictSize d));
         let dst = kvstoreDictBucketChanged dst (int (dictBuckets d));
         dst \<leftarrow> (if dictIsRehashing d
           then kvstoreDictRehashingStarted dst didx (DICTHT_SIZE (ht_size_exp (ht0 d))) else Some dst);
         Some (kvs, dst) } }"


subsection \<open>Operations on one dict\<close>

definition kvstoreDictExpand ::
  "dictResizeEnable \<Rightarrow> ('s, 'k, 'v) kvstore \<Rightarrow> nat \<Rightarrow> nat \<Rightarrow> (('s, 'k, 'v) kvstore \<times> bool) res" where
  "kvstoreDictExpand can kvs didx sz = do {
     (kvs, d) \<leftarrow> createDictIfNeeded kvs didx;
     (d, r) \<leftarrow> dictExpand can d sz;
     kvs \<leftarrow> put_dict kvs didx d;
     Some (kvs, r) }"

definition kvstoreDictFetchValue ::
  "dictResizeEnable \<Rightarrow> ('s, 'k, 'v) kvstore \<Rightarrow> nat \<Rightarrow> 'k \<Rightarrow> (('s, 'k, 'v) kvstore \<times> 'v ptr) res" where
  "kvstoreDictFetchValue can kvs didx key = do {
     d \<leftarrow> kvstoreGetDict kvs didx;
     case d of None \<Rightarrow> Some (kvs, None)
     | Some d \<Rightarrow> do {
         chk (\<not> no_value (dtype d));
         (d, v) \<leftarrow> dictFetchValue can d key;
         kvs \<leftarrow> put_dict kvs didx d;
         Some (kvs, v) } }"

definition kvstoreDictFind ::
  "dictResizeEnable \<Rightarrow> ('s, 'k, 'v) kvstore \<Rightarrow> nat \<Rightarrow> 'k \<Rightarrow> (('s, 'k, 'v) kvstore \<times> dict_pos ptr) res" where
  "kvstoreDictFind can kvs didx key = do {
     d \<leftarrow> kvstoreGetDict kvs didx;
     case d of None \<Rightarrow> Some (kvs, None)
     | Some d \<Rightarrow> do {
         (d, p) \<leftarrow> dictFind can d key;
         kvs \<leftarrow> put_dict kvs didx d;
         Some (kvs, p) } }"

definition kvstoreDictFindLink ::
  "dictResizeEnable \<Rightarrow> ('s, 'k, 'v) kvstore \<Rightarrow> nat \<Rightarrow> 'k \<Rightarrow> bool \<Rightarrow>
   (('s, 'k, 'v) kvstore \<times> dict_pos ptr \<times> (nat \<times> nat) ptr) res" where
  "kvstoreDictFindLink can kvs didx key want_bucket = do {
     d \<leftarrow> kvstoreGetDict kvs didx;
     case d of None \<Rightarrow> Some (kvs, None, None)
     | Some d \<Rightarrow> do {
         (d, p, b) \<leftarrow> dictFindLink can d key want_bucket;
         kvs \<leftarrow> put_dict kvs didx d;
         Some (kvs, p, b) } }"

text \<open>\<open>kvstoreDictSetAtLink\<close> with and without \<open>newItem\<close>.\<close>

definition kvstoreDictAddAtLink ::
  "dictResizeEnable \<Rightarrow> ('s, 'k, 'v) kvstore \<Rightarrow> nat \<Rightarrow> 's \<Rightarrow> (nat \<times> nat) ptr \<Rightarrow> (('s, 'k, 'v) kvstore \<times> nat \<times> nat) res" where
  "kvstoreDictAddAtLink can kvs didx kv link = do {
     (kvs, d) \<leftarrow> createDictIfNeeded kvs didx;
     (d, link) \<leftarrow> dictAddKeyAtLink can d kv link;
     kvs \<leftarrow> put_dict kvs didx d;
     kvs \<leftarrow> cumulativeKeyCountAdd kvs didx 1;
     Some (kvs, link) }"

definition kvstoreDictReplaceAtLink ::
  "dictResizeEnable \<Rightarrow> ('s \<Rightarrow> 'k) \<Rightarrow> ('s, 'k, 'v) kvstore \<Rightarrow> nat \<Rightarrow> 's \<Rightarrow> dict_pos ptr \<Rightarrow>
   (('s, 'k, 'v) kvstore \<times> dict_pos) res" where
  "kvstoreDictReplaceAtLink can as_key kvs didx kv link = do {
     d \<leftarrow> kvstoreGetDict kvs didx;
     d \<leftarrow> d;
     (d, link) \<leftarrow> dictReplaceKeyAtLink can as_key d kv link;
     kvs \<leftarrow> put_dict kvs didx d;
     Some (kvs, link) }"

definition kvstoreDictAddRaw ::
  "dictResizeEnable \<Rightarrow> ('s, 'k, 'v) kvstore \<Rightarrow> nat \<Rightarrow> 's \<Rightarrow> (('s, 'k, 'v) kvstore \<times> dict_pos ptr \<times> dict_pos ptr) res" where
  "kvstoreDictAddRaw can kvs didx key = do {
     (kvs, d) \<leftarrow> createDictIfNeeded kvs didx;
     (d, ret, existing) \<leftarrow> dictAddRaw can d key;
     kvs \<leftarrow> put_dict kvs didx d;
     kvs \<leftarrow> (if ret \<noteq> None then cumulativeKeyCountAdd kvs didx 1 else Some kvs);
     Some (kvs, ret, existing) }"

definition kvstoreDictSetVal :: "('s, 'k, 'v) kvstore \<Rightarrow> nat \<Rightarrow> dict_pos \<Rightarrow> 'v \<Rightarrow> ('s, 'k, 'v) kvstore res" where
  "kvstoreDictSetVal kvs didx de val = do {
     d \<leftarrow> kvstoreGetDict kvs didx;
     d \<leftarrow> d;
     chk (\<not> no_value (dtype d));
     d \<leftarrow> set_val_at d de val;
     put_dict kvs didx d }"

definition kvstoreDictTwoPhaseUnlinkFind ::
  "dictResizeEnable \<Rightarrow> ('s, 'k, 'v) kvstore \<Rightarrow> nat \<Rightarrow> 'k \<Rightarrow> (('s, 'k, 'v) kvstore \<times> dict_pos ptr) res" where
  "kvstoreDictTwoPhaseUnlinkFind can kvs didx key = do {
     d \<leftarrow> kvstoreGetDict kvs didx;
     case d of None \<Rightarrow> Some (kvs, None)
     | Some d \<Rightarrow> do {
         (d, p) \<leftarrow> dictTwoPhaseUnlinkFind can d key;
         kvs \<leftarrow> put_dict kvs didx d;
         Some (kvs, p) } }"

definition kvstoreDictTwoPhaseUnlinkFree ::
  "dictResizeEnable \<Rightarrow> (nat \<Rightarrow> bool) ptr \<Rightarrow> ('s, 'k, 'v) kvstore \<Rightarrow> nat \<Rightarrow> dict_pos ptr \<Rightarrow> ('s, 'k, 'v) kvstore res" where
  "kvstoreDictTwoPhaseUnlinkFree can cf kvs didx link = do {
     d \<leftarrow> kvstoreGetDict kvs didx;
     d \<leftarrow> d;
     d \<leftarrow> dictTwoPhaseUnlinkFree can d link;
     kvs \<leftarrow> put_dict kvs didx d;
     kvs \<leftarrow> cumulativeKeyCountAdd kvs didx (- 1);
     freeDictIfNeeded cf kvs didx }"

definition kvstoreDictDelete ::
  "dictResizeEnable \<Rightarrow> (nat \<Rightarrow> bool) ptr \<Rightarrow> ('s, 'k, 'v) kvstore \<Rightarrow> nat \<Rightarrow> 'k \<Rightarrow> (('s, 'k, 'v) kvstore \<times> bool) res" where
  "kvstoreDictDelete can cf kvs didx key = do {
     d \<leftarrow> kvstoreGetDict kvs didx;
     case d of None \<Rightarrow> Some (kvs, False)
     | Some d \<Rightarrow> do {
         (d, ret) \<leftarrow> dictDelete can d key;
         kvs \<leftarrow> put_dict kvs didx d;
         kvs \<leftarrow> (if ret then do {
             kvs \<leftarrow> cumulativeKeyCountAdd kvs didx (- 1);
             freeDictIfNeeded cf kvs didx }
           else Some kvs);
         Some (kvs, ret) } }"


subsection \<open>Iterators\<close>

text \<open>\<open>di_set\<close> says that \<open>di.d\<close> is not NULL; it is then the dict of index \<open>didx\<close>.\<close>

record ('s, 'v) kvstoreIterator =
  it_didx :: int
  it_next_didx :: int
  it_di :: "('s, 'v) dictIterator"
  di_set :: bool

definition kvstoreIteratorInit :: "('s, 'k, 'v) kvstore \<Rightarrow> ('s, 'v) kvstoreIterator res" where
  "kvstoreIteratorInit kvs = do {
     n \<leftarrow> kvstoreGetFirstNonEmptyDictIndex kvs;
     Some \<lparr>it_didx = - 1, it_next_didx = n, it_di = dictInitSafeIterator, di_set = False\<rparr> }"

text \<open>\<open>dictResetIterator\<close> on the iterator of the current dict.\<close>

definition reset_current ::
  "(('s, 'k, 'v) dict \<Rightarrow> u64) \<Rightarrow> ('s, 'k, 'v) kvstore \<Rightarrow> ('s, 'v) kvstoreIterator \<Rightarrow> ('s, 'k, 'v) kvstore res" where
  "reset_current fp kvs kit =
     (if it_index (it_di kit) = - 1 \<and> it_table (it_di kit) = 0 then Some kvs
      else do {
        d \<leftarrow> kvstoreGetDict kvs (nat (it_didx kit));
        d \<leftarrow> d;
        d \<leftarrow> dictResetIterator fp d (it_di kit);
        put_dict kvs (nat (it_didx kit)) d })"

definition kvstoreIteratorReset ::
  "(('s, 'k, 'v) dict \<Rightarrow> u64) \<Rightarrow> (nat \<Rightarrow> bool) ptr \<Rightarrow> ('s, 'k, 'v) kvstore \<Rightarrow> ('s, 'v) kvstoreIterator \<Rightarrow> ('s, 'k, 'v) kvstore res" where
  "kvstoreIteratorReset fp cf kvs kit = do {
     kvs \<leftarrow> reset_current fp kvs kit;
     if it_didx kit \<noteq> - 1 then freeDictIfNeeded cf kvs (nat (it_didx kit)) else Some kvs }"

definition kvstoreIteratorNextDict ::
  "(('s, 'k, 'v) dict \<Rightarrow> u64) \<Rightarrow> (nat \<Rightarrow> bool) ptr \<Rightarrow> ('s, 'k, 'v) kvstore \<Rightarrow> ('s, 'v) kvstoreIterator \<Rightarrow>
   (('s, 'k, 'v) kvstore \<times> ('s, 'v) kvstoreIterator \<times> ('s, 'k, 'v) dict ptr) res" where
  "kvstoreIteratorNextDict fp cf kvs kit =
     (if it_next_didx kit = - 1 then Some (kvs, kit, None)
      else do {
        cur \<leftarrow> (if it_didx kit \<noteq> - 1 then kvstoreGetDict kvs (nat (it_didx kit)) else Some None);
        kvs \<leftarrow> (if cur \<noteq> None then do {
            kvs \<leftarrow> reset_current fp kvs kit;
            freeDictIfNeeded cf kvs (nat (it_didx kit)) }
          else Some kvs);
        n \<leftarrow> kvstoreGetNextNonEmptyDictIndex kvs (it_next_didx kit);
        d \<leftarrow> kvstoreGetDict kvs (nat (it_next_didx kit));
        Some (kvs, kit\<lparr>it_didx := it_next_didx kit, it_next_didx := n\<rparr>, d) })"

definition kvstoreIteratorNext ::
  "(('s, 'k, 'v) dict \<Rightarrow> u64) \<Rightarrow> (nat \<Rightarrow> bool) ptr \<Rightarrow> ('s, 'k, 'v) kvstore \<Rightarrow> ('s, 'v) kvstoreIterator \<Rightarrow>
   (('s, 'k, 'v) kvstore \<times> ('s, 'v) kvstoreIterator \<times> ('s, 'v) dictEntry) res" where
  "kvstoreIteratorNext fp cf kvs kit = do {
     (kvs, kit, de) \<leftarrow> (if di_set kit then do {
          d \<leftarrow> kvstoreGetDict kvs (nat (it_didx kit));
          d \<leftarrow> d;
          (d, di, de) \<leftarrow> dictNext fp d (it_di kit);
          kvs \<leftarrow> put_dict kvs (nat (it_didx kit)) d;
          Some (kvs, kit\<lparr>it_di := di\<rparr>, de) }
        else Some (kvs, kit, NoEntry));
     if de \<noteq> NoEntry then Some (kvs, kit, de)
     else do {
       (kvs, kit, d) \<leftarrow> kvstoreIteratorNextDict fp cf kvs kit;
       case d of None \<Rightarrow> Some (kvs, kit, NoEntry)
       | Some d \<Rightarrow> do {
           (d, di, de) \<leftarrow> dictNext fp d dictInitSafeIterator;
           kvs \<leftarrow> put_dict kvs (nat (it_didx kit)) d;
           Some (kvs, kit\<lparr>it_di := di, di_set := True\<rparr>, de) } } }"

end
