(* ===== verification/Kvstore_Inv.thy ===== *)
theory Kvstore_Inv
  imports Kvstore
begin

unbundle bit_operations_syntax

text \<open>
  The invariant of a key-value store: its counters are the sums over its dicts. The counters of keys, those kept by the
  callbacks of the dicts, and the count of the dicts are treated apart, since an operation brings them up to date one
  after the other.
\<close>

declare log_state_def [simp del]

subsection \<open>Sums over the slots\<close>

lemma sum_list_update_map:
  "i < length xs \<Longrightarrow> sum_list (map f (xs[i := y])) + f (xs ! i) = sum_list (map f xs) + (f y :: 'a :: comm_monoid_add)"
proof -
  assume i: "i < length xs"
  have "sum_list (map f xs) = sum_list (map f (take i xs)) + f (xs ! i) + sum_list (map f (drop (Suc i) xs))"
    by (subst id_take_nth_drop [OF i]) (simp add: add.assoc)
  moreover have "sum_list (map f (xs[i := y])) = sum_list (map f (take i xs)) + f y + sum_list (map f (drop (Suc i) xs))"
    using i by (simp add: upd_conv_take_nth_drop add.assoc)
  ultimately show ?thesis by (simp add: add.commute add.left_commute)
qed

lemma sum_list_update_group:
  "i < length xs \<Longrightarrow> sum_list (map f (xs[i := y])) = sum_list (map f xs) - f (xs ! i) + (f y :: 'a :: ab_group_add)"
  using sum_list_update_map [of i xs f y] by (simp add: algebra_simps)

fun kv_size :: "('s, 'k, 'v) kvdict ptr \<Rightarrow> nat" where
  "kv_size None = 0"
| "kv_size (Some e) = dictSize (kd e)"

fun kv_buckets :: "('s, 'k, 'v) kvdict ptr \<Rightarrow> nat" where
  "kv_buckets None = 0"
| "kv_buckets (Some e) = dictBuckets (kd e)"

fun kv_log :: "('s, 'k, 'v) kvdict ptr \<Rightarrow> nat option" where
  "kv_log None = None"
| "kv_log (Some e) = log_state (kd e)"

definition from_size :: "nat option \<Rightarrow> u64" where
  "from_size s = (case s of None \<Rightarrow> 0 | Some n \<Rightarrow> of_nat n)"

lemma from_size_simps [simp]: "from_size None = 0" "from_size (Some n) = of_nat n"
  by (simp_all add: from_size_def)

definition kvs_total :: "('s, 'k, 'v) kvstore \<Rightarrow> nat" where
  "kvs_total kvs = sum_list (map kv_size (dicts kvs))"


subsection \<open>The invariant\<close>

text \<open>The sizes are those of \<open>xs\<close>.\<close>

definition key_counts :: "('s, 'k, 'v) kvstore \<Rightarrow> ('s, 'k, 'v) kvdict ptr list \<Rightarrow> bool" where
  "key_counts kvs xs \<longleftrightarrow> key_count kvs = sum_list (map (\<lambda>e. of_nat (kv_size e)) xs) \<and>
     non_empty_dicts kvs = sum_list (map (\<lambda>e. if kv_size e \<noteq> 0 then 1 else 0) xs) \<and>
     (if num_dicts kvs = 1 then dict_sizes kvs = None
      else \<exists>ft. dict_sizes kvs = Some ft \<and> ft_size ft = int (num_dicts kvs) \<and>
             fw_rep ft (\<lambda>i. of_nat (kv_size (xs ! nat i))))"

definition log_counts :: "('s, 'k, 'v) kvstore \<Rightarrow> bool" where
  "log_counts kvs \<longleftrightarrow> bucket_count kvs = sum_list (map (\<lambda>e. of_nat (kv_buckets e)) (dicts kvs)) \<and>
     overhead_hashtable_rehashing kvs = sum_list (map (\<lambda>e. from_size (kv_log e)) (dicts kvs)) \<and>
     distinct (rehashing kvs) \<and>
     (\<forall>i. i \<in> set (rehashing kvs) \<longleftrightarrow> i < length (dicts kvs) \<and> kv_log (dicts kvs ! i) \<noteq> None)"

definition dict_count :: "('s, 'k, 'v) kvstore \<Rightarrow> bool" where
  "dict_count kvs \<longleftrightarrow> allocated_dicts kvs = sum_list (map (\<lambda>e. if e \<noteq> None then 1 else 0) (dicts kvs))"

text \<open>A dict of the store.\<close>

definition slot_ok :: "('s, 'k) dictType \<Rightarrow> ('s, 'k, 'v) kvdict \<Rightarrow> bool" where
  "slot_ok ty e \<longleftrightarrow> dict_ok (kd e) \<and> dtype (kd e) = ty \<and> pauseAutoResize (kd e) = 0 \<and>
     (rehashing_node e \<longleftrightarrow> dictIsRehashing (kd e))"

definition kvs_frame :: "('s, 'k, 'v) kvstore \<Rightarrow> bool" where
  "kvs_frame kvs \<longleftrightarrow> num_dicts kvs = 2 ^ num_dicts_bits kvs \<and> num_dicts_bits kvs \<le> 16 \<and> length (dicts kvs) = num_dicts kvs \<and>
     resize_cursor kvs < num_dicts kvs \<and> (\<forall>e. Some e \<in> set (dicts kvs) \<longrightarrow> slot_ok (kvs_dtype kvs) e)"

definition kvs_ok :: "('s, 'k, 'v) kvstore \<Rightarrow> bool" where
  "kvs_ok kvs \<longleftrightarrow> kvs_frame kvs \<and> key_counts kvs (dicts kvs) \<and> log_counts kvs \<and> dict_count kvs"

text \<open>The key counters are not those of the dicts.\<close>

definition same_keys :: "('s, 'k, 'v) kvstore \<Rightarrow> ('s, 'k, 'v) kvstore \<Rightarrow> bool" where
  "same_keys kvs kvs' \<longleftrightarrow> key_count kvs' = key_count kvs \<and> non_empty_dicts kvs' = non_empty_dicts kvs \<and>
     dict_sizes kvs' = dict_sizes kvs \<and> num_dicts kvs' = num_dicts kvs \<and> num_dicts_bits kvs' = num_dicts_bits kvs \<and>
     kvs_dtype kvs' = kvs_dtype kvs \<and> kvs_flags kvs' = kvs_flags kvs \<and> resize_cursor kvs' = resize_cursor kvs"

lemma same_keys_refl [simp]: "same_keys kvs kvs"
  by (simp add: same_keys_def)

lemma same_keys_trans: "same_keys a b \<Longrightarrow> same_keys b c \<Longrightarrow> same_keys a c"
  by (simp add: same_keys_def)

lemma key_counts_same: "same_keys kvs kvs' \<Longrightarrow> key_counts kvs' xs = key_counts kvs xs"
  by (simp add: same_keys_def key_counts_def)

lemma kvs_okD:
  assumes "kvs_ok kvs"
  shows "length (dicts kvs) = num_dicts kvs" "key_counts kvs (dicts kvs)" "log_counts kvs" "dict_count kvs" "kvs_frame kvs"
    "i < num_dicts kvs \<Longrightarrow> dicts kvs ! i = Some e \<Longrightarrow> slot_ok (kvs_dtype kvs) e"
  using assms nth_mem [of i "dicts kvs"] by (auto simp: kvs_ok_def kvs_frame_def)


subsection \<open>The callbacks\<close>

lemma set_node_eq:
  "i < length (dicts kvs) \<Longrightarrow> dicts kvs ! i = Some e \<Longrightarrow>
   set_node kvs i b = Some (kvs\<lparr>dicts := (dicts kvs)[i := Some (e\<lparr>rehashing_node := b\<rparr>)]\<rparr>)"
  by (simp add: set_node_def rd_def wr_def)

lemma run_calls_ok:
  assumes "i < length (dicts kvs)" "dicts kvs ! i = Some e" "rehashing_node e \<longleftrightarrow> s \<noteq> None" "log_run s cs = Some s'"
    and "distinct (rehashing kvs)" "i \<in> set (rehashing kvs) \<longleftrightarrow> s \<noteq> None"
  shows "\<exists>r. run_calls i cs kvs = Some (kvs\<lparr>dicts := (dicts kvs)[i := Some (e\<lparr>rehashing_node := s' \<noteq> None\<rparr>)], rehashing := r,
      bucket_count := bucket_count kvs + word_of_int (bucket_sum cs),
      overhead_hashtable_rehashing := overhead_hashtable_rehashing kvs - from_size s + from_size s'\<rparr>) \<and>
    distinct r \<and> set r = set (rehashing kvs) - {i} \<union> (if s' \<noteq> None then {i} else {})"
  using assms
proof (induction s cs arbitrary: kvs e rule: log_run.induct)
  case (1 s)
  have "e\<lparr>rehashing_node := s \<noteq> None\<rparr> = e" using 1(3) by (cases e) simp
  then have "(dicts kvs)[i := Some (e\<lparr>rehashing_node := s \<noteq> None\<rparr>)] = dicts kvs" using 1(2) by (metis list_update_id)
  then show ?case using 1 by (intro exI [of _ "rehashing kvs"]) auto
next
  case (2 s delta cs)
  then show ?case using "2.IH" [of "kvstoreDictBucketChanged kvs delta" e]
    by (auto simp: kvstoreDictBucketChanged_def add.assoc)
next
  case (3 n cs)
  define k1 where "k1 = kvs\<lparr>dicts := (dicts kvs)[i := Some (e\<lparr>rehashing_node := True\<rparr>)], rehashing := rehashing kvs @ [i],
    overhead_hashtable_rehashing := overhead_hashtable_rehashing kvs + of_nat n\<rparr>"
  have 1: "kvstoreDictRehashingStarted kvs i n = Some k1"
    using 3 by (simp add: kvstoreDictRehashingStarted_def set_node_eq k1_def)
  show ?case using "3.IH" [of k1 "e\<lparr>rehashing_node := True\<rparr>"] "3.prems" unfolding run_calls.simps 1
    by (auto simp: k1_def)
next
  case (4 n m cs)
  define k1 where "k1 = kvs\<lparr>dicts := (dicts kvs)[i := Some (e\<lparr>rehashing_node := False\<rparr>)], rehashing := remove1 i (rehashing kvs),
    overhead_hashtable_rehashing := overhead_hashtable_rehashing kvs - of_nat n\<rparr>"
  have mn: "m = n" using "4.prems" by (auto split: if_splits)
  have 1: "kvstoreDictRehashingCompleted kvs i m = Some k1"
    using 4 mn by (simp add: kvstoreDictRehashingCompleted_def set_node_eq k1_def rd_def)
  have s: "set (rehashing k1) = set (rehashing kvs) - {i}" "distinct (rehashing k1)" using "4.prems" by (auto simp: k1_def)
  show ?case using "4.IH" [of k1 "e\<lparr>rehashing_node := False\<rparr>"] "4.prems" mn s unfolding run_calls.simps 1
    by (auto simp: k1_def)
qed auto


lemma log_state_None: "log_state d = None \<longleftrightarrow> \<not> dictIsRehashing d" "(\<exists>n. log_state d = Some n) \<longleftrightarrow> dictIsRehashing d"
  by (simp_all add: log_state_def dictIsRehashing_def)

lemma put_dict_ok:
  assumes fr: "kvs_frame kvs" and lc: "log_counts kvs" and i: "i < num_dicts kvs" "dicts kvs ! i = Some e"
    and d': "dict_ok d'" "dtype d' = kvs_dtype kvs" "pauseAutoResize d' = 0" "take (length (calls (kd e))) (calls d') = calls (kd e)"
  shows "\<exists>kvs'. put_dict kvs i d' = Some kvs' \<and> kvs_frame kvs' \<and> log_counts kvs' \<and> same_keys kvs kvs' \<and>
    dicts kvs' = (dicts kvs)[i := Some \<lparr>kd = d', rehashing_node = dictIsRehashing d'\<rparr>] \<and> allocated_dicts kvs' = allocated_dicts kvs"
proof -
  have len: "i < length (dicts kvs)" using fr i by (simp add: kvs_frame_def)
  have e: "slot_ok (kvs_dtype kvs) e" using fr i len nth_mem [OF len] by (auto simp: kvs_frame_def)
  define cs where "cs = drop (length (calls (kd e))) (calls d')"
  have app: "calls d' = calls (kd e) @ cs" using d'(4) unfolding cs_def by (metis append_take_drop_id)
  have okd: "bucket_sum (calls (kd e)) = int (dictBuckets (kd e))" "log_run None (calls (kd e)) = Some (log_state (kd e))"
    "bucket_sum (calls d') = int (dictBuckets d')" "log_run None (calls d') = Some (log_state d')"
    using e d'(1) by (auto simp: slot_ok_def dict_ok_def)
  have cs: "log_run (log_state (kd e)) cs = Some (log_state d')" "bucket_sum cs = int (dictBuckets d') - int (dictBuckets (kd e))"
    using okd unfolding app by simp_all
  define k1 where "k1 = kvs\<lparr>dicts := (dicts kvs)[i := Some (e\<lparr>kd := d'\<rparr>)]\<rparr>"
  have put: "put_dict kvs i d' = run_calls i cs k1" using len i(2) by (simp add: put_dict_def rd_def wr_def k1_def cs_def)
  have pre: "i < length (dicts k1)" "dicts k1 ! i = Some (e\<lparr>kd := d'\<rparr>)" "rehashing_node (e\<lparr>kd := d'\<rparr>) \<longleftrightarrow> log_state (kd e) \<noteq> None"
    "distinct (rehashing k1)" "i \<in> set (rehashing k1) \<longleftrightarrow> log_state (kd e) \<noteq> None"
    using len e lc i(2) by (simp_all add: k1_def slot_ok_def log_state_None log_counts_def)
  define e' where "e' = \<lparr>kd = d', rehashing_node = dictIsRehashing d'\<rparr>"
  have e'_eq: "e\<lparr>kd := d', rehashing_node := log_state d' \<noteq> None\<rparr> = e'"
    by (cases e) (auto simp: e'_def log_state_def dictIsRehashing_def)
  obtain r where r: "run_calls i cs k1 = Some (k1\<lparr>dicts := (dicts k1)[i := Some e'], rehashing := r,
      bucket_count := bucket_count k1 + word_of_int (bucket_sum cs),
      overhead_hashtable_rehashing := overhead_hashtable_rehashing k1 - from_size (log_state (kd e)) + from_size (log_state d')\<rparr>)"
    "distinct r" "set r = set (rehashing k1) - {i} \<union> (if log_state d' \<noteq> None then {i} else {})"
    using run_calls_ok [OF pre(1,2,3) cs(1) pre(4,5)] unfolding e'_eq [symmetric] by auto
  define k2 where "k2 = kvs\<lparr>dicts := (dicts kvs)[i := Some e'], rehashing := r,
      bucket_count := bucket_count kvs + word_of_int (int (dictBuckets d') - int (dictBuckets (kd e))),
      overhead_hashtable_rehashing := overhead_hashtable_rehashing kvs - from_size (log_state (kd e)) + from_size (log_state d')\<rparr>"
  have run: "put_dict kvs i d' = Some k2" using put r(1) cs(2) by (simp add: k2_def k1_def)
  have "log_counts k2"
    using lc r(2,3) len i(2) unfolding log_counts_def
    by (auto simp: k2_def k1_def sum_list_update_group nth_list_update e'_def algebra_simps)
  moreover have "kvs_frame k2"
    using fr len d' set_update_subset_insert [of "dicts kvs" i "Some e'"]
    by (auto simp: kvs_frame_def k2_def e'_def slot_ok_def)
  ultimately show ?thesis using run by (auto simp: k2_def same_keys_def e'_def)
qed



subsection \<open>The counters of keys\<close>

lemma kv_size_less: "sum_list (map kv_size xs) < 2 ^ 64 \<Longrightarrow> i < length xs \<Longrightarrow> kv_size (xs ! i) < 2 ^ 64"
  using member_le_sum_list [of "kv_size (xs ! i)" "map kv_size xs"] by simp

lemma unat_kv_size: "sum_list (map kv_size xs) < 2 ^ 64 \<Longrightarrow> i < length xs \<Longrightarrow> unat (of_nat (kv_size (xs ! i)) :: u64) = kv_size (xs ! i)"
  using kv_size_less [of xs i] by (simp add: unat_of_nat)

lemma prefix_sizes:
  assumes "sum_list (map kv_size xs) < 2 ^ 64"
  shows "prefix (\<lambda>i. of_nat (kv_size (xs ! nat i))) (int (length xs)) = sum_list (map kv_size xs)"
proof -
  have "{0..<int (length xs)} = int ` {0..<length xs}" using image_int_atLeastLessThan [of 0 "length xs"] by simp
  then have "prefix (\<lambda>i. of_nat (kv_size (xs ! nat i))) (int (length xs)) = (\<Sum>j = 0..<length xs. unat (of_nat (kv_size (xs ! j)) :: u64))"
    unfolding prefix_def by (simp add: sum.reindex)
  also have "\<dots> = (\<Sum>j = 0..<length xs. kv_size (xs ! j))"
    using unat_kv_size [OF assms] by (intro sum.cong) simp_all
  also have "\<dots> = sum_list (map kv_size xs)" unfolding sum_list_sum_nth by simp
  finally show ?thesis .
qed

lemma cumulativeKeyCountAdd_ok:
  assumes fr: "kvs_frame kvs" and kc: "key_counts kvs xs" and i: "i < num_dicts kvs" "length xs = num_dicts kvs"
    and e: "dicts kvs = xs[i := Some e']" "int (dictSize (kd e')) = int (kv_size (xs ! i)) + delta" "delta = 1 \<or> delta = - 1"
    and tot: "sum_list (map kv_size xs) < 2 ^ 64"
  shows "\<exists>k n t. cumulativeKeyCountAdd kvs i delta = Some (kvs\<lparr>key_count := k, non_empty_dicts := n, dict_sizes := t\<rparr>) \<and>
    key_counts (kvs\<lparr>key_count := k, non_empty_dicts := n, dict_sizes := t\<rparr>) (dicts kvs)"
proof -
  have ix: "i < length xs" using i by simp
  have get: "dicts kvs ! i = Some e'" using e(1) ix by simp
  define n where "n = non_empty_dicts kvs + (if dictSize (kd e') = 1 \<and> delta > 0 then 1 else if dictSize (kd e') = 0 then - 1 else 0)"
  define k where "k = key_count kvs + word_of_int delta"
  have nn: "n = sum_list (map (\<lambda>e. if kv_size e \<noteq> 0 then 1 else 0) (dicts kvs))"
    using kc e(2,3) by (auto simp: n_def key_counts_def e(1) sum_list_update_group [OF ix])
  have sz: "(of_nat (dictSize (kd e')) :: u64) = of_nat (kv_size (xs ! i)) + word_of_int delta"
    using arg_cong [OF e(2), of "word_of_int :: int \<Rightarrow> u64"] by simp
  have kk: "k = sum_list (map (\<lambda>e. of_nat (kv_size e)) (dicts kvs))"
    using kc sz by (simp add: k_def key_counts_def e(1) sum_list_update_group [OF ix])
  show ?thesis
  proof (cases "num_dicts kvs = 1")
    case True
    then have "cumulativeKeyCountAdd kvs i delta = Some (kvs\<lparr>key_count := k, non_empty_dicts := n\<rparr>)"
      using get ix e(1) by (simp add: cumulativeKeyCountAdd_def kvstoreGetDict_def rd_def k_def n_def Let_def)
    then have "cumulativeKeyCountAdd kvs i delta = Some (kvs\<lparr>key_count := k, non_empty_dicts := n, dict_sizes := dict_sizes kvs\<rparr>)" by simp
    moreover have "key_counts (kvs\<lparr>key_count := k, non_empty_dicts := n, dict_sizes := dict_sizes kvs\<rparr>) (dicts kvs)"
      using True kk nn kc by (simp add: key_counts_def)
    ultimately show ?thesis by (intro exI conjI)
  next
    case False
    let ?a = "\<lambda>i. of_nat (kv_size (xs ! nat i)) :: u64"
    obtain ft where ft: "dict_sizes kvs = Some ft" "ft_size ft = int (num_dicts kvs)" "fw_rep ft ?a"
      using kc False by (auto simp: key_counts_def)
    have p: "prefix ?a (ft_size ft) < 2 ^ 64" using prefix_sizes [OF tot] i(2) ft(2) tot by simp
    have lo: "- int (unat (?a (int i))) \<le> delta"
      using unat_kv_size [OF tot ix] e(2) by simp
    obtain ft' where ft': "fwTreeUpdate (Some ft) (int i) delta = Some (Some ft')"
      "fw_rep ft' (?a(int i := ?a (int i) + word_of_int delta))" "ft_size ft' = ft_size ft"
      using fw_rep_update [OF ft(3), of "int i" delta] p lo i(1) ft(2) by auto
    have rep: "fw_rep ft' (\<lambda>j. of_nat (kv_size (dicts kvs ! nat j)))"
    proof -
      have eq: "(?a(int i := ?a (int i) + word_of_int delta)) j = of_nat (kv_size (dicts kvs ! nat j))" if "0 \<le> j" "j < ft_size ft'" for j
        using that ix sz by (auto simp: e(1) nth_list_update)
      show ?thesis by (rule iffD1 [OF fw_rep_cong [OF eq] ft'(2)])
    qed
    have "cumulativeKeyCountAdd kvs i delta = Some (kvs\<lparr>key_count := k, non_empty_dicts := n, dict_sizes := Some ft'\<rparr>)"
      using False get ix e(1) ft(1) ft'(1) by (simp add: cumulativeKeyCountAdd_def kvstoreGetDict_def rd_def k_def n_def Let_def)
    moreover have "key_counts (kvs\<lparr>key_count := k, non_empty_dicts := n, dict_sizes := Some ft'\<rparr>) (dicts kvs)"
      using False rep ft(2) ft'(3) kk nn unfolding key_counts_def by simp
    ultimately show ?thesis by (intro exI conjI)
  qed
qed



subsection \<open>The map of a store\<close>

fun slot_map :: "('s, 'k, 'v) kvdict ptr \<Rightarrow> 'k \<rightharpoonup> 's \<times> 'v option" where
  "slot_map None = Map.empty"
| "slot_map (Some e) = dict_map (kd e)"

definition kvs_map :: "('s, 'k, 'v) kvstore \<Rightarrow> nat \<times> 'k \<rightharpoonup> 's \<times> 'v option" where
  "kvs_map kvs = (\<lambda>(i, k). if i < length (dicts kvs) then slot_map (dicts kvs ! i) k else None)"

definition kvs_same :: "('s, 'k, 'v) kvstore \<Rightarrow> ('s, 'k, 'v) kvstore \<Rightarrow> bool" where
  "kvs_same kvs kvs' \<longleftrightarrow> num_dicts kvs' = num_dicts kvs \<and> num_dicts_bits kvs' = num_dicts_bits kvs \<and>
     kvs_dtype kvs' = kvs_dtype kvs \<and> kvs_flags kvs' = kvs_flags kvs"

lemma kvs_same_refl [simp]: "kvs_same kvs kvs"
  by (simp add: kvs_same_def)

lemma kvs_same_trans: "kvs_same a b \<Longrightarrow> kvs_same b c \<Longrightarrow> kvs_same a c"
  by (simp add: kvs_same_def)

lemma same_keys_kvs_same: "same_keys kvs kvs' \<Longrightarrow> kvs_same kvs kvs'"
  by (simp add: kvs_same_def same_keys_def)

text \<open>What an operation that leaves the keys alone does.\<close>

definition kvs_kept :: "('s, 'k, 'v) kvstore \<Rightarrow> ('s, 'k, 'v) kvstore \<Rightarrow> bool" where
  "kvs_kept kvs kvs' \<longleftrightarrow> kvs_ok kvs' \<and> kvs_same kvs kvs' \<and> kvs_map kvs' = kvs_map kvs \<and> kvs_total kvs' = kvs_total kvs"

lemma kvs_kept_refl: "kvs_ok kvs \<Longrightarrow> kvs_kept kvs kvs"
  by (simp add: kvs_kept_def)

lemma kvs_kept_trans [trans]: "kvs_kept a b \<Longrightarrow> kvs_kept b c \<Longrightarrow> kvs_kept a c"
  using kvs_same_trans [of a b c] by (simp add: kvs_kept_def)

lemma kvs_map_update:
  "i < length (dicts kvs) \<Longrightarrow> dicts kvs' = (dicts kvs)[i := x] \<Longrightarrow>
   kvs_map kvs' = (\<lambda>(j, k). if j = i then slot_map x k else kvs_map kvs (j, k))"
  by (auto simp: kvs_map_def fun_eq_iff nth_list_update)

lemma key_counts_update:
  assumes "key_counts kvs xs" "i < length xs" "length xs = num_dicts kvs" "kv_size x = kv_size (xs ! i)"
  shows "key_counts kvs (xs[i := x])"
proof -
  have m: "map kv_size (xs[i := x]) = map kv_size xs"
    using assms(2,4) by (metis list_update_id map_update)
  have f: "map (\<lambda>e. f (kv_size e)) (xs[i := x]) = map (\<lambda>e. f (kv_size e)) xs" for f :: "nat \<Rightarrow> 'z"
    using arg_cong [OF m, of "map f"] by (simp add: comp_def)
  have "kv_size (xs[i := x] ! j) = kv_size (xs ! j)" for j
    using assms(2,4) by (cases "j = i") simp_all
  then show ?thesis using assms(1) f [of "of_nat :: nat \<Rightarrow> u64"] f [of "\<lambda>n. if n \<noteq> 0 then 1 else 0 :: int"]
    unfolding key_counts_def by simp
qed

lemma kvs_total_update:
  "i < length (dicts kvs) \<Longrightarrow> dicts kvs' = (dicts kvs)[i := x] \<Longrightarrow> kvs_total kvs' + kv_size (dicts kvs ! i) = kvs_total kvs + kv_size x"
  unfolding kvs_total_def using sum_list_update_map [of i "dicts kvs" kv_size x] by simp

text \<open>What a dict operation may not change.\<close>

definition dict_frame :: "('s, 'k, 'v) dict \<Rightarrow> ('s, 'k, 'v) dict \<Rightarrow> bool" where
  "dict_frame d d' \<longleftrightarrow> dict_ok d' \<and> dtype d' = dtype d \<and> pauseAutoResize d' = pauseAutoResize d \<and>
     take (length (calls d)) (calls d') = calls d"

lemma dict_frameI: "dict_ok d' \<Longrightarrow> same_frame d d' \<Longrightarrow> dict_frame d d'"
  by (simp add: dict_frame_def same_frame_def)

lemma put_same:
  assumes ok: "kvs_ok kvs" and i: "i < num_dicts kvs" "dicts kvs ! i = Some e" and k: "dict_frame (kd e) d'" "dictSize d' = dictSize (kd e)"
  shows "\<exists>kvs'. put_dict kvs i d' = Some kvs' \<and> kvs_ok kvs' \<and> kvs_same kvs kvs' \<and> kvs_total kvs' = kvs_total kvs \<and>
    dicts kvs' = (dicts kvs)[i := Some \<lparr>kd = d', rehashing_node = dictIsRehashing d'\<rparr>] \<and> resize_cursor kvs' = resize_cursor kvs \<and>
    kvs_map kvs' = (\<lambda>(j, k). if j = i then dict_map d' k else kvs_map kvs (j, k))"
proof -
  note D = kvs_okD [OF ok]
  have e: "slot_ok (kvs_dtype kvs) e" using D(6) [OF i] .
  have d': "dict_ok d'" "dtype d' = kvs_dtype kvs" "pauseAutoResize d' = 0" "take (length (calls (kd e))) (calls d') = calls (kd e)"
    using k e by (auto simp: slot_ok_def dict_frame_def)
  define x where "x = \<lparr>kd = d', rehashing_node = dictIsRehashing d'\<rparr>"
  obtain kvs' where kvs': "put_dict kvs i d' = Some kvs'" "kvs_frame kvs'" "log_counts kvs'" "same_keys kvs kvs'"
    "dicts kvs' = (dicts kvs)[i := Some x]" "allocated_dicts kvs' = allocated_dicts kvs"
    using put_dict_ok [OF D(5,3) i d'] unfolding x_def by blast
  have len: "i < length (dicts kvs)" using i D(1) by simp
  have "key_counts kvs' (dicts kvs')"
    using key_counts_update [OF D(2) len D(1), of "Some x"] k(2) i(2) key_counts_same [OF kvs'(4)] kvs'(5) by (simp add: x_def)
  moreover have "dict_count kvs'" using D(4) kvs'(5,6) len i(2) by (simp add: dict_count_def sum_list_update_group)
  ultimately have "kvs_ok kvs'" using kvs'(2,3) by (simp add: kvs_ok_def)
  moreover have "kvs_map kvs' = (\<lambda>(j, k). if j = i then dict_map d' k else kvs_map kvs (j, k))"
    unfolding kvs_map_update [OF len kvs'(5)] by (auto simp: x_def fun_eq_iff)
  moreover have "kvs_total kvs' = kvs_total kvs" using kvs_total_update [OF len kvs'(5)] i(2) k(2) by (simp add: x_def)
  moreover have "resize_cursor kvs' = resize_cursor kvs" using kvs'(4) by (simp add: same_keys_def)
  ultimately show ?thesis using kvs'(1,5) same_keys_kvs_same [OF kvs'(4)] unfolding x_def by blast
qed

lemma slot_map_id:
  "i < length (dicts kvs) \<Longrightarrow> dicts kvs ! i = Some e \<Longrightarrow> dict_map d' = dict_map (kd e) \<Longrightarrow>
   (\<lambda>(j, k). if j = i then dict_map d' k else kvs_map kvs (j, k)) = kvs_map kvs"
  by (auto simp: kvs_map_def fun_eq_iff)

lemma put_kept:
  assumes ok: "kvs_ok kvs" and i: "i < num_dicts kvs" "dicts kvs ! i = Some e" and k: "kept (kd e) d'"
  shows "\<exists>kvs'. put_dict kvs i d' = Some kvs' \<and> kvs_kept kvs kvs' \<and>
    dicts kvs' = (dicts kvs)[i := Some \<lparr>kd = d', rehashing_node = dictIsRehashing d'\<rparr>] \<and> resize_cursor kvs' = resize_cursor kvs"
proof -
  have e: "dict_ok (kd e)" using kvs_okD(6) [OF ok i] by (simp add: slot_ok_def)
  have "dict_frame (kd e) d'" "dictSize d' = dictSize (kd e)" "dict_map d' = dict_map (kd e)"
    using k e dict_frameI [of d' "kd e"] dictSize_contents [of d'] dictSize_contents [of "kd e"] kept_map [OF e k] by (auto simp: kept_def)
  moreover have "i < length (dicts kvs)" using i kvs_okD(1) [OF ok] by simp
  ultimately show ?thesis using put_same [OF ok i, of d'] slot_map_id [of i kvs e d'] i(2) by (auto simp: kvs_kept_def)
qed

lemma getDict_eq: "kvs_ok kvs \<Longrightarrow> i < num_dicts kvs \<Longrightarrow> kvstoreGetDict kvs i = Some (map_option kd (dicts kvs ! i))"
  using kvs_okD(1) [of kvs] by (simp add: kvstoreGetDict_def rd_def)

lemma createDictIfNeeded_ok:
  fixes kvs :: "('s, 'k, 'v) kvstore"
  assumes ok: "kvs_ok kvs" and i: "i < num_dicts kvs"
  shows "\<exists>kvs' e. createDictIfNeeded kvs i = Some (kvs', kd e) \<and> kvs_kept kvs kvs' \<and> dicts kvs' ! i = Some e \<and>
    resize_cursor kvs' = resize_cursor kvs"
proof (cases "dicts kvs ! i")
  case (Some e)
  then show ?thesis using kvs_kept_refl [OF ok] getDict_eq [OF ok i] by (simp add: createDictIfNeeded_def)
next
  case None
  note D = kvs_okD [OF ok]
  have len: "i < length (dicts kvs)" using i D(1) by simp
  define e :: "('s, 'k, 'v) kvdict" where "e = \<lparr>kd = dictCreate (kvs_dtype kvs), rehashing_node = False\<rparr>"
  define kvs' where "kvs' = kvs\<lparr>dicts := (dicts kvs)[i := Some e], allocated_dicts := allocated_dicts kvs + 1\<rparr>"
  have ds: "dicts kvs' = (dicts kvs)[i := Some e]" by (simp add: kvs'_def)
  have e0: "kv_size (Some e) = 0" "kv_buckets (Some e) = 0" "kv_log (Some e) = None" "slot_map (Some e) = Map.empty" "slot_ok (kvs_dtype kvs) e"
    using dictCreate_ok(1) [of "kvs_dtype kvs"] dictCreate_map [of "kvs_dtype kvs"]
    by (simp_all add: e_def slot_ok_def dictSize_def dictBuckets_def log_state_def dictIsRehashing_def DICTHT_SIZE_def dictCreate_def dictReset_def)
  have "key_counts kvs' (dicts kvs')"
    using key_counts_update [OF D(2) len D(1), of "Some e"] e0(1) None unfolding kvs'_def key_counts_def by simp
  moreover have "log_counts kvs'" using D(3) len None e0 unfolding log_counts_def kvs'_def
    by (auto simp: sum_list_update_group nth_list_update)
  moreover have "dict_count kvs'" using D(4) len None by (simp add: dict_count_def kvs'_def sum_list_update_group)
  moreover have "kvs_frame kvs'" using D(5) e0(5) set_update_subset_insert [of "dicts kvs" i "Some e"]
    by (auto simp: kvs_frame_def kvs'_def)
  ultimately have "kvs_ok kvs'" by (simp add: kvs_ok_def)
  moreover have "kvs_map kvs' = kvs_map kvs"
    unfolding kvs_map_update [OF len ds] using len None e0(4) by (auto simp: kvs_map_def fun_eq_iff)
  moreover have "kvs_total kvs' = kvs_total kvs" using kvs_total_update [OF len ds] None e0(1) by simp
  ultimately have "kvs_kept kvs kvs'" by (simp add: kvs_kept_def kvs_same_def kvs'_def)
  moreover have "createDictIfNeeded kvs i = Some (kvs', kd e)"
    using getDict_eq [OF ok i] None len by (simp add: createDictIfNeeded_def wr_def kvs'_def e_def Let_def)
  ultimately show ?thesis using len by (intro exI [of _ kvs'] exI [of _ e]) (simp add: ds kvs'_def)
qed


lemma dictRelease_log:
  "dict_ok d \<Longrightarrow> log_run (log_state d) (dictRelease d) = Some None \<and> bucket_sum (dictRelease d) = - int (dictBuckets d)"
  by (auto simp: dictRelease_def Let_def log_state_def dictIsRehashing_def dictBuckets_def)

lemma freeDictIfNeeded_ok:
  assumes ok: "kvs_ok kvs" and i: "i < num_dicts kvs"
  shows "\<exists>kvs'. freeDictIfNeeded cf kvs i = Some kvs' \<and> kvs_kept kvs kvs' \<and> resize_cursor kvs' = resize_cursor kvs"
proof -
  note D = kvs_okD [OF ok]
  have len: "i < length (dicts kvs)" using i D(1) by simp
  have E: "freeDictIfNeeded cf kvs i = (case dicts kvs ! i of None \<Rightarrow> Some kvs
     | Some e \<Rightarrow>
       if kvs_flags kvs AND KVSTORE_FREE_EMPTY_DICTS = 0 \<or> dictSize (kd e) \<noteq> 0 \<or> pauserehash (kd e) > 0 then Some kvs
       else if (case cf of None \<Rightarrow> False | Some f \<Rightarrow> \<not> f i) then Some kvs
       else do {
         kvs \<leftarrow> run_calls i (dictRelease (kd e)) kvs;
         ds \<leftarrow> wr (dicts kvs) i None;
         Some (kvs\<lparr>dicts := ds, allocated_dicts := allocated_dicts kvs - 1\<rparr>) })"
    using getDict_eq [OF ok i]
    by (simp add: freeDictIfNeeded_def kvstoreDictSize_def kvstoreDictIsRehashingPaused_def split: option.splits)
  show ?thesis
  proof (cases "dicts kvs ! i")
    case None
    then show ?thesis using E kvs_kept_refl [OF ok] by simp
  next
    case (Some e)
    have e: "slot_ok (kvs_dtype kvs) e" using D(6) [OF i Some] .
    show ?thesis
    proof (cases "kvs_flags kvs AND KVSTORE_FREE_EMPTY_DICTS = 0 \<or> dictSize (kd e) \<noteq> 0 \<or> pauserehash (kd e) > 0 \<or>
        (case cf of None \<Rightarrow> False | Some f \<Rightarrow> \<not> f i)")
      case True
      then have "freeDictIfNeeded cf kvs i = Some kvs" unfolding E Some by (auto split: if_splits)
      then show ?thesis using kvs_kept_refl [OF ok] by simp
    next
      case False
      have pre: "rehashing_node e \<longleftrightarrow> log_state (kd e) \<noteq> None" "distinct (rehashing kvs)" "i \<in> set (rehashing kvs) \<longleftrightarrow> log_state (kd e) \<noteq> None"
        using e D(3) len Some by (simp_all add: slot_ok_def log_state_None log_counts_def)
      have rel: "log_run (log_state (kd e)) (dictRelease (kd e)) = Some None" "bucket_sum (dictRelease (kd e)) = - int (dictBuckets (kd e))"
        using dictRelease_log [of "kd e"] e by (auto simp: slot_ok_def)
      obtain r where r: "run_calls i (dictRelease (kd e)) kvs = Some (kvs\<lparr>dicts := (dicts kvs)[i := Some (e\<lparr>rehashing_node := False\<rparr>)], rehashing := r,
          bucket_count := bucket_count kvs + word_of_int (- int (dictBuckets (kd e))),
          overhead_hashtable_rehashing := overhead_hashtable_rehashing kvs - from_size (log_state (kd e))\<rparr>)"
        "distinct r" "set r = set (rehashing kvs) - {i}"
        using run_calls_ok [OF len Some pre(1) rel(1) pre(2,3)] rel(2) by auto
      define kvs' where "kvs' = kvs\<lparr>dicts := (dicts kvs)[i := None], rehashing := r,
          bucket_count := bucket_count kvs + word_of_int (- int (dictBuckets (kd e))),
          overhead_hashtable_rehashing := overhead_hashtable_rehashing kvs - from_size (log_state (kd e)),
          allocated_dicts := allocated_dicts kvs - 1\<rparr>"
      have ds: "dicts kvs' = (dicts kvs)[i := None]" by (simp add: kvs'_def)
      have run: "freeDictIfNeeded cf kvs i = Some kvs'"
        unfolding E Some using False len by (simp add: r(1) wr_def kvs'_def)
      have z: "dictSize (kd e) = 0" "dict_map (kd e) = Map.empty"
        using False e dictSize_contents [of "kd e"] dict_map_empty [of "kd e"] by (auto simp: slot_ok_def)
      have "key_counts kvs' (dicts kvs')"
        using key_counts_update [OF D(2) len D(1), of None] z(1) Some unfolding kvs'_def key_counts_def by simp
      moreover have "log_counts kvs'" using D(3) len Some r(2,3) unfolding log_counts_def kvs'_def
        by (auto simp: sum_list_update_group nth_list_update)
      moreover have "dict_count kvs'" using D(4) len Some by (simp add: dict_count_def kvs'_def sum_list_update_group)
      moreover have "kvs_frame kvs'" using D(5) set_update_subset_insert [of "dicts kvs" i None]
        by (auto simp: kvs_frame_def kvs'_def)
      ultimately have "kvs_ok kvs'" by (simp add: kvs_ok_def)
      moreover have "kvs_map kvs' = kvs_map kvs"
        unfolding kvs_map_update [OF len ds] using len Some z(2) by (auto simp: kvs_map_def fun_eq_iff)
      moreover have "kvs_total kvs' = kvs_total kvs" using kvs_total_update [OF len ds] Some z(1) by simp
      ultimately have "kvs_kept kvs kvs'" by (simp add: kvs_kept_def kvs_same_def kvs'_def)
      then show ?thesis using run by (auto simp: kvs'_def)
    qed
  qed
qed

text \<open>Putting back a dict with one key more or less and counting it.\<close>

lemma put_count_ok:
  assumes ok: "kvs_ok kvs" and i: "i < num_dicts kvs" "dicts kvs ! i = Some e"
    and d': "dict_frame (kd e) d'" "int (dictSize d') = int (dictSize (kd e)) + delta" "delta = 1 \<or> delta = - 1"
    and tot: "kvs_total kvs < 2 ^ 64"
  shows "\<exists>kvs1 kvs'. put_dict kvs i d' = Some kvs1 \<and> cumulativeKeyCountAdd kvs1 i delta = Some kvs' \<and> kvs_ok kvs' \<and> kvs_same kvs kvs' \<and>
    dicts kvs' = (dicts kvs)[i := Some \<lparr>kd = d', rehashing_node = dictIsRehashing d'\<rparr>] \<and>
    int (kvs_total kvs') = int (kvs_total kvs) + delta \<and> resize_cursor kvs' = resize_cursor kvs \<and>
    kvs_map kvs' = (\<lambda>(j, k). if j = i then dict_map d' k else kvs_map kvs (j, k))"
proof -
  note D = kvs_okD [OF ok]
  have e: "slot_ok (kvs_dtype kvs) e" using D(6) [OF i] .
  have len: "i < length (dicts kvs)" using i D(1) by simp
  have f: "dict_ok d'" "dtype d' = kvs_dtype kvs" "pauseAutoResize d' = 0" "take (length (calls (kd e))) (calls d') = calls (kd e)"
    using d'(1) e by (auto simp: slot_ok_def dict_frame_def)
  define x where "x = \<lparr>kd = d', rehashing_node = dictIsRehashing d'\<rparr>"
  obtain kvs1 where kvs1: "put_dict kvs i d' = Some kvs1" "kvs_frame kvs1" "log_counts kvs1" "same_keys kvs kvs1"
    "dicts kvs1 = (dicts kvs)[i := Some x]" "allocated_dicts kvs1 = allocated_dicts kvs"
    using put_dict_ok [OF D(5,3) i f] unfolding x_def by blast
  have "\<exists>k n t. cumulativeKeyCountAdd kvs1 i delta = Some (kvs1\<lparr>key_count := k, non_empty_dicts := n, dict_sizes := t\<rparr>) \<and>
    key_counts (kvs1\<lparr>key_count := k, non_empty_dicts := n, dict_sizes := t\<rparr>) (dicts kvs1)"
    by (rule cumulativeKeyCountAdd_ok [OF kvs1(2) _ _ _ kvs1(5)])
      (use D(1,2) kvs1(4) key_counts_same [OF kvs1(4)] i d'(2,3) tot in \<open>simp_all add: x_def same_keys_def kvs_total_def\<close>)
  then obtain k n t where c: "cumulativeKeyCountAdd kvs1 i delta = Some (kvs1\<lparr>key_count := k, non_empty_dicts := n, dict_sizes := t\<rparr>)"
    "key_counts (kvs1\<lparr>key_count := k, non_empty_dicts := n, dict_sizes := t\<rparr>) (dicts kvs1)" by blast
  define kvs' where "kvs' = kvs1\<lparr>key_count := k, non_empty_dicts := n, dict_sizes := t\<rparr>"
  have ds: "dicts kvs' = (dicts kvs)[i := Some x]" using kvs1(5) by (simp add: kvs'_def)
  have "kvs_ok kvs'"
    using kvs1(2,3) c(2) D(4) kvs1(5,6) len i(2)
    by (simp add: kvs_ok_def kvs'_def kvs_frame_def log_counts_def dict_count_def sum_list_update_group)
  moreover have "kvs_same kvs kvs'" "resize_cursor kvs' = resize_cursor kvs" using kvs1(4) by (simp_all add: kvs'_def kvs_same_def same_keys_def)
  moreover have "int (kvs_total kvs') = int (kvs_total kvs) + delta"
    using kvs_total_update [OF len ds] i(2) d'(2) by (simp add: x_def)
  moreover have "kvs_map kvs' = (\<lambda>(j, k). if j = i then dict_map d' k else kvs_map kvs (j, k))"
    unfolding kvs_map_update [OF len ds] by (auto simp: x_def fun_eq_iff)
  ultimately show ?thesis using kvs1(1) c(1) ds unfolding kvs'_def [symmetric] x_def by blast
qed

end
