(* ===== verification/Kvstore_Ops.thy ===== *)
theory Kvstore_Ops
  imports Kvstore_Inv
begin

unbundle bit_operations_syntax

text \<open>
  The operations of a key-value store keep its invariant and act on the map from slots and keys to entries as the
  operations of the dicts do.
\<close>

subsection \<open>Sizes and maps of dicts\<close>

lemma finite_dict_map: "finite (dom (dict_map d))"
  by (simp add: dict_map_def finite_dom_map_of)

lemma dictSize_add:
  "dict_ok d \<Longrightarrow> dict_ok d' \<Longrightarrow> dict_map d' = (dict_map d)(k \<mapsto> x) \<Longrightarrow> dict_map d k = None \<Longrightarrow> dictSize d' = dictSize d + 1"
  using finite_dict_map [of d] by (simp add: dictSize_card card_insert_if domIff)

lemma dictSize_del:
  assumes "dict_ok d" "dict_ok d'" "dict_map d' = (dict_map d)(k := None)" "dict_map d k \<noteq> None"
  shows "int (dictSize d') = int (dictSize d) - 1"
proof -
  have "k \<in> dom (dict_map d)" using assms(4) by auto
  moreover have "dom (dict_map d') = dom (dict_map d) - {k}" using assms(3) by auto
  ultimately have "card (dom (dict_map d)) = Suc (card (dom (dict_map d')))"
    using card_Suc_Diff1 [OF finite_dict_map [of d], of k] by simp
  then show ?thesis using assms(1,2) by (simp add: dictSize_card)
qed

lemma dictSize_same: "dict_ok d \<Longrightarrow> dict_ok d' \<Longrightarrow> dict_map d' = dict_map d \<Longrightarrow> dictSize d' = dictSize d"
  by (simp add: dictSize_card)

lemma slot_dict_ok:
  "kvs_ok kvs \<Longrightarrow> i < num_dicts kvs \<Longrightarrow> dicts kvs ! i = Some e \<Longrightarrow>
   dict_ok (kd e) \<and> dtype (kd e) = kvs_dtype kvs \<and> pauseAutoResize (kd e) = 0"
  using kvs_okD(6) [of kvs i e] by (simp add: slot_ok_def)

lemma kvs_map_slot: "kvs_ok kvs \<Longrightarrow> i < num_dicts kvs \<Longrightarrow> kvs_map kvs (i, k) = slot_map (dicts kvs ! i) k"
  using kvs_okD(1) [of kvs] by (simp add: kvs_map_def)


subsection \<open>Lookup\<close>

lemma kvstoreDictFind_ok:
  assumes ok: "kvs_ok kvs" and i: "i < num_dicts kvs"
  shows "\<exists>kvs' p. kvstoreDictFind can kvs i key = Some (kvs', p) \<and> kvs_kept kvs kvs' \<and> (p = None \<longleftrightarrow> kvs_map kvs (i, key) = None)"
proof (cases "dicts kvs ! i")
  case None
  then show ?thesis using kvs_kept_refl [OF ok] getDict_eq [OF ok i] kvs_map_slot [OF ok i, of key] by (simp add: kvstoreDictFind_def)
next
  case (Some e)
  have e: "dict_ok (kd e)" using slot_dict_ok [OF ok i Some] by simp
  obtain d' p where d': "dictFind can (kd e) key = Some (d', p)" "kept (kd e) d'" "found d' key p" using dictFind_ok [OF e] by blast
  have "p = None \<longleftrightarrow> dict_map (kd e) key = None" using found_map [OF kept_ok [OF d'(2)] d'(3)] kept_map [OF e d'(2)] by simp
  moreover obtain kvs' where "put_dict kvs i d' = Some kvs'" "kvs_kept kvs kvs'" using put_kept [OF ok i Some d'(2)] by blast
  ultimately show ?thesis using getDict_eq [OF ok i] Some d'(1) kvs_map_slot [OF ok i, of key] by (simp add: kvstoreDictFind_def)
qed


subsection \<open>Insertion\<close>

lemma kvstoreDictAddRaw_ok:
  assumes ok: "kvs_ok kvs" and i: "i < num_dicts kvs" and tot: "kvs_total kvs < 2 ^ 64" and k: "k = keyFromStoredKey (kvs_dtype kvs) s"
  shows "\<exists>kvs' ret ex. kvstoreDictAddRaw can kvs i s = Some (kvs', ret, ex) \<and> kvs_ok kvs' \<and> kvs_same kvs kvs' \<and>
    (if kvs_map kvs (i, k) = None
     then kvs_map kvs' = (kvs_map kvs)((i, k) \<mapsto> (s, None)) \<and> kvs_total kvs' = kvs_total kvs + 1 \<and>
       (\<exists>p x e. ret = Some p \<and> dicts kvs' ! i = Some e \<and> valid_pos (kd e) p x \<and> hd (entries x) = (s, None))
     else ret = None \<and> kvs_kept kvs kvs')"
proof -
  obtain kvs1 e where 1: "createDictIfNeeded kvs i = Some (kvs1, kd e)" "kvs_kept kvs kvs1" "dicts kvs1 ! i = Some e"
    using createDictIfNeeded_ok [OF ok i] by blast
  have ok1: "kvs_ok kvs1" and i1: "i < num_dicts kvs1" and s1: "kvs_same kvs kvs1" and m1: "kvs_map kvs1 = kvs_map kvs" and t1: "kvs_total kvs1 = kvs_total kvs"
    using 1(2) i by (auto simp: kvs_kept_def kvs_same_def)
  have e: "dict_ok (kd e)" "dtype (kd e) = kvs_dtype kvs" "pauseAutoResize (kd e) = 0"
    using slot_dict_ok [OF ok1 i1 1(3)] s1 by (auto simp: kvs_same_def)
  have k': "k = keyFromStoredKey (dtype (kd e)) s" using k e(2) by simp
  have mp: "kvs_map kvs (i, k) = dict_map (kd e) k" using kvs_map_slot [OF ok1 i1, of k] 1(3) m1 by simp
  obtain d' en ex where d': "dictAddRaw can (kd e) s = Some (d', en, ex)" "dict_ok d'" "same_frame (kd e) d'"
    and r: "if dict_map (kd e) k = None
     then \<exists>p x. en = Some p \<and> ex = None \<and> contents d' = add_mset (s, None) (contents (kd e)) \<and> valid_pos d' p x \<and>
       (if no_value (dtype (kd e)) then hd (entries x) = (s, None) else \<exists>n. x = Entry n s None)
     else \<exists>p x. en = None \<and> ex = Some p \<and> kept (kd e) d' \<and> valid_pos d' p x \<and> key_of (kd e) (hd (entries x)) = k"
    using dictAddRaw_ok [OF e(1) _ k', of can] e(3) by auto
  have ty: "dtype d' = dtype (kd e)" using d'(3) by (simp add: same_frame_def)
  have E: "kvstoreDictAddRaw can kvs i s = do { kvs \<leftarrow> put_dict kvs1 i d';
     kvs \<leftarrow> (if en \<noteq> None then cumulativeKeyCountAdd kvs i 1 else Some kvs); Some (kvs, en, ex) }"
    unfolding kvstoreDictAddRaw_def 1(1) bind.bind_lunit prod.case d'(1) ..
  show ?thesis
  proof (cases "dict_map (kd e) k")
    case None
    then obtain p x where p: "en = Some p" "contents d' = add_mset (s, None) (contents (kd e))" "valid_pos d' p x" "hd (entries x) = (s, None)"
      using r by (auto split: if_splits)
    have mp': "dict_map d' = (dict_map (kd e))(k \<mapsto> (s, None))" using dict_map_add [OF e(1) d'(2) ty p(2)] k' by simp
    have sz: "int (dictSize d') = int (dictSize (kd e)) + 1" using dictSize_add [OF e(1) d'(2) mp' None] by simp
    obtain kvs2 kvs3 where 3: "put_dict kvs1 i d' = Some kvs2" "cumulativeKeyCountAdd kvs2 i 1 = Some kvs3" "kvs_ok kvs3" "kvs_same kvs1 kvs3"
      "dicts kvs3 = (dicts kvs1)[i := Some \<lparr>kd = d', rehashing_node = dictIsRehashing d'\<rparr>]" "int (kvs_total kvs3) = int (kvs_total kvs1) + 1"
      "kvs_map kvs3 = (\<lambda>(j, k). if j = i then dict_map d' k else kvs_map kvs1 (j, k))"
      using put_count_ok [OF ok1 i1 1(3) dict_frameI [OF d'(2,3)] sz] tot t1 by auto
    have "kvs_map kvs3 = (kvs_map kvs)((i, k) \<mapsto> (s, None))"
      unfolding 3(7) m1 mp' using mp kvs_map_slot [OF ok1 i1] 1(3) m1 by (auto simp: fun_eq_iff)
    moreover have "dicts kvs3 ! i = Some \<lparr>kd = d', rehashing_node = dictIsRehashing d'\<rparr>" using 3(5) i1 kvs_okD(1) [OF ok1] by simp
    moreover have "kvstoreDictAddRaw can kvs i s = Some (kvs3, Some p, ex)" using E 3(1,2) p(1) by simp
    ultimately show ?thesis using 3(3,6) kvs_same_trans [OF s1 3(4)] t1 None mp p(3,4) by (cases p) auto
  next
    case (Some x)
    then have r': "en = None" "kept (kd e) d'" using r by auto
    then obtain kvs2 where 2: "put_dict kvs1 i d' = Some kvs2" "kvs_kept kvs1 kvs2" using put_kept [OF ok1 i1 1(3)] by blast
    have "kvs_kept kvs kvs2" by (rule kvs_kept_trans [OF 1(2) 2(2)])
    then show ?thesis using E 2(1) r'(1) Some mp by (auto simp: kvs_kept_def)
  qed
qed

lemma kvstoreDictSetVal_ok:
  assumes ok: "kvs_ok kvs" and i: "i < num_dicts kvs" "dicts kvs ! i = Some e"
    and p: "valid_pos (kd e) p x" "hd (entries x) = (s, v0)" and nv: "\<not> no_value (kvs_dtype kvs)"
  shows "\<exists>kvs'. kvstoreDictSetVal kvs i p v = Some kvs' \<and> kvs_ok kvs' \<and> kvs_same kvs kvs' \<and> kvs_total kvs' = kvs_total kvs \<and>
    kvs_map kvs' = (kvs_map kvs)((i, keyFromStoredKey (kvs_dtype kvs) s) \<mapsto> (s, Some v))"
proof -
  have e: "dict_ok (kd e)" "dtype (kd e) = kvs_dtype kvs" using slot_dict_ok [OF ok i] by auto
  obtain n where x: "x = Entry n s v0" using valid_pos_Entry [OF e(1) p(1)] nv e(2) p(2) by metis
  obtain d' where d': "set_val_at (kd e) p v = Some d'" "dict_ok d'" "same_frame (kd e) d'"
    "add_mset (s, v0) (contents d') = add_mset (s, Some v) (contents (kd e))"
    using set_val_at_ok [OF e(1), of p n s v0 v] p(1) x by blast
  have ty: "dtype d' = dtype (kd e)" using d'(3) by (simp add: same_frame_def)
  have mp: "dict_map d' = (dict_map (kd e))(keyFromStoredKey (kvs_dtype kvs) s \<mapsto> (s, Some v))"
    using dict_map_set_val [OF e(1) d'(2) ty _ d'(4)] valid_pos_mem [OF p(1)] p(2) e(2) by simp
  have "size (contents d') = size (contents (kd e))" using arg_cong [OF d'(4), of size] by simp
  then have sz: "dictSize d' = dictSize (kd e)" using dictSize_contents [OF e(1)] dictSize_contents [OF d'(2)] by simp
  obtain kvs' where kvs': "put_dict kvs i d' = Some kvs'" "kvs_ok kvs'" "kvs_same kvs kvs'" "kvs_total kvs' = kvs_total kvs"
    "kvs_map kvs' = (\<lambda>(j, k). if j = i then dict_map d' k else kvs_map kvs (j, k))"
    using put_same [OF ok i dict_frameI [OF d'(2,3)] sz] by blast
  have "kvs_map kvs' = (kvs_map kvs)((i, keyFromStoredKey (kvs_dtype kvs) s) \<mapsto> (s, Some v))"
    unfolding kvs'(5) mp using kvs_map_slot [OF ok i(1)] i(2) by (auto simp: fun_eq_iff)
  moreover have "kvstoreDictSetVal kvs i p v = Some kvs'"
    using getDict_eq [OF ok i(1)] i(2) nv e(2) d'(1) kvs'(1) by (simp add: kvstoreDictSetVal_def)
  ultimately show ?thesis using kvs'(2-4) by blast
qed


subsection \<open>Deletion\<close>

lemma kvstoreDictDelete_ok:
  assumes ok: "kvs_ok kvs" and i: "i < num_dicts kvs" and tot: "kvs_total kvs < 2 ^ 64"
  shows "\<exists>kvs'. kvstoreDictDelete can cf kvs i key = Some (kvs', kvs_map kvs (i, key) \<noteq> None) \<and> kvs_ok kvs' \<and> kvs_same kvs kvs' \<and>
    kvs_map kvs' = (kvs_map kvs)((i, key) := None) \<and> kvs_total kvs' \<le> kvs_total kvs"
proof (cases "dicts kvs ! i")
  case None
  then show ?thesis using ok getDict_eq [OF ok i] kvs_map_slot [OF ok i, of key] by (simp add: kvstoreDictDelete_def fun_upd_idem)
next
  case (Some e)
  have e: "dict_ok (kd e)" using slot_dict_ok [OF ok i Some] by simp
  have mp: "kvs_map kvs (i, key) = dict_map (kd e) key" using kvs_map_slot [OF ok i] Some by simp
  obtain d' where d': "dictDelete can (kd e) key = Some (d', dict_map (kd e) key \<noteq> None)" "dict_ok d'" "same_frame (kd e) d'"
    "dict_map d' = (dict_map (kd e))(key := None)"
    using dictDelete_ok [OF e, of can key] by blast
  have upd: "(\<lambda>(j, k). if j = i then dict_map d' k else kvs_map kvs (j, k)) = (kvs_map kvs)((i, key) := None)"
    unfolding d'(4) using kvs_map_slot [OF ok i] Some by (auto simp: fun_eq_iff)
  show ?thesis
  proof (cases "dict_map (kd e) key = None")
    case True
    then have sz: "dictSize d' = dictSize (kd e)" using dictSize_same [OF e d'(2)] d'(4) by (simp add: fun_upd_idem)
    obtain kvs' where "put_dict kvs i d' = Some kvs'" "kvs_ok kvs'" "kvs_same kvs kvs'" "kvs_total kvs' = kvs_total kvs"
      "kvs_map kvs' = (\<lambda>(j, k). if j = i then dict_map d' k else kvs_map kvs (j, k))"
      using put_same [OF ok i Some dict_frameI [OF d'(2,3)] sz] by blast
    then show ?thesis using getDict_eq [OF ok i] Some d'(1) True mp upd by (simp add: kvstoreDictDelete_def)
  next
    case False
    have sz: "int (dictSize d') = int (dictSize (kd e)) + - 1" using dictSize_del [OF e d'(2,4) False] by simp
    obtain kvs1 kvs2 where 2: "put_dict kvs i d' = Some kvs1" "cumulativeKeyCountAdd kvs1 i (- 1) = Some kvs2" "kvs_ok kvs2" "kvs_same kvs kvs2"
      "int (kvs_total kvs2) = int (kvs_total kvs) + - 1" "kvs_map kvs2 = (\<lambda>(j, k). if j = i then dict_map d' k else kvs_map kvs (j, k))"
      using put_count_ok [OF ok i Some dict_frameI [OF d'(2,3)] sz _ tot] by auto
    have "i < num_dicts kvs2" using 2(4) i by (simp add: kvs_same_def)
    then obtain kvs3 where 3: "freeDictIfNeeded cf kvs2 i = Some kvs3" "kvs_kept kvs2 kvs3" using freeDictIfNeeded_ok [OF 2(3)] by blast
    have "kvstoreDictDelete can cf kvs i key = Some (kvs3, True)"
      using getDict_eq [OF ok i] Some d'(1) False 2(1,2) 3(1) by (simp add: kvstoreDictDelete_def)
    then show ?thesis using 3(2) 2(4,5,6) upd mp False kvs_same_trans [OF 2(4)] by (auto simp: kvs_kept_def)
  qed
qed


lemma kvstoreTwoPhase_ok:
  assumes ok: "kvs_ok kvs" and i: "i < num_dicts kvs" and tot: "kvs_total kvs < 2 ^ 64"
  shows "\<exists>kvs1 r. kvstoreDictTwoPhaseUnlinkFind can kvs i key = Some (kvs1, r) \<and> (r \<noteq> None \<longleftrightarrow> kvs_map kvs (i, key) \<noteq> None) \<and>
    (if r = None then kvs_kept kvs kvs1
     else \<exists>kvs'. kvstoreDictTwoPhaseUnlinkFree can cf kvs1 i r = Some kvs' \<and> kvs_ok kvs' \<and> kvs_same kvs kvs' \<and>
       kvs_map kvs' = (kvs_map kvs)((i, key) := None) \<and> kvs_total kvs' \<le> kvs_total kvs)"
proof (cases "dicts kvs ! i")
  case None
  then show ?thesis using kvs_kept_refl [OF ok] getDict_eq [OF ok i] kvs_map_slot [OF ok i, of key] by (simp add: kvstoreDictTwoPhaseUnlinkFind_def)
next
  case (Some e)
  have e: "dict_ok (kd e)" using slot_dict_ok [OF ok i Some] by simp
  have mp: "kvs_map kvs (i, key) = dict_map (kd e) key" using kvs_map_slot [OF ok i] Some by simp
  obtain d1 r where d1: "dictTwoPhaseUnlinkFind can (kd e) key = Some (if r \<noteq> None then dictPauseRehashing d1 else d1, r)" "kept (kd e) d1" "found d1 key r"
    using dictTwoPhaseUnlinkFind_ok [OF e] by blast
  have ok1: "dict_ok d1" and mp1: "dict_map d1 = dict_map (kd e)" using d1(2) kept_map [OF e d1(2)] by (auto simp: kept_def)
  have rN: "r = None \<longleftrightarrow> dict_map (kd e) key = None" using found_map [OF ok1 d1(3)] mp1 by simp
  show ?thesis
  proof (cases r)
    case None
    obtain kvs1 where "put_dict kvs i d1 = Some kvs1" "kvs_kept kvs kvs1" using put_kept [OF ok i Some d1(2)] by blast
    then show ?thesis using getDict_eq [OF ok i] Some d1(1) None rN mp by (auto simp: kvstoreDictTwoPhaseUnlinkFind_def)
  next
    case (Some p)
    then obtain x where x: "valid_pos d1 p x" "key_of d1 (hd (entries x)) = key" using d1(3) by (auto simp: found_def)
    define d2 where "d2 = dictPauseRehashing d1"
    have ok2: "dict_ok d2" "valid_pos d2 p x" "contents d2 = contents d1" "dict_frame (kd e) d2" "dict_map d2 = dict_map d1" "dtype d2 = dtype d1"
      using ok1 x(1) d1(2) by (auto simp: d2_def dictPauseRehashing_def dict_ok_def contents_def dictBuckets_def valid_pos_def get_ht_def
          dict_frame_def kept_def same_frame_def dict_map_def all_entries_def log_state_def)
    have sz2: "dictSize d2 = dictSize (kd e)" using dictSize_same [OF e ok2(1)] ok2(5) mp1 by simp
    obtain kvs1 where 1: "put_dict kvs i d2 = Some kvs1" "kvs_ok kvs1" "kvs_same kvs kvs1" "kvs_total kvs1 = kvs_total kvs"
      "dicts kvs1 = (dicts kvs)[i := Some \<lparr>kd = d2, rehashing_node = dictIsRehashing d2\<rparr>]"
      "kvs_map kvs1 = (\<lambda>(j, k). if j = i then dict_map d2 k else kvs_map kvs (j, k))"
      using put_same [OF ok i \<open>dicts kvs ! i = Some e\<close> ok2(4) sz2] by blast
    have i1: "i < num_dicts kvs1" "dicts kvs1 ! i = Some \<lparr>kd = d2, rehashing_node = dictIsRehashing d2\<rparr>"
      using i 1(3,5) kvs_okD(1) [OF ok] by (auto simp: kvs_same_def)
    have m1: "kvs_map kvs1 = kvs_map kvs"
      unfolding 1(6) using slot_map_id [of i kvs e d2] i kvs_okD(1) [OF ok] \<open>dicts kvs ! i = Some e\<close> ok2(5) mp1 by simp
    obtain d3 where d3: "dictTwoPhaseUnlinkFree can d2 (Some p) = Some (dictResumeRehashing d3)" "dict_ok d3" "same_frame d2 d3"
      "contents d2 = add_mset (hd (entries x)) (contents d3)"
      using dictTwoPhaseUnlinkFree_ok [OF ok2(1,2)] by blast
    define d4 where "d4 = dictResumeRehashing d3"
    have d4: "dict_ok d4" "contents d4 = contents d3" "dict_frame d2 d4" "dtype d4 = dtype d2"
      using d3(2,3) by (auto simp: d4_def dictResumeRehashing_def dict_ok_def contents_def dictBuckets_def same_frame_def
          dict_frame_def log_state_def)
    have mp4: "dict_map d4 = (dict_map d2)(key := None)"
      using dict_map_remove [OF ok2(1) d4(1,4), of "hd (entries x)"] d4(2) d3(4) x(2) ok2(6) by simp
    have "dict_map d2 key \<noteq> None" using valid_pos_map [OF ok1 x] ok2(5) by simp
    then have sz4: "int (dictSize d4) = int (dictSize d2) + - 1" using dictSize_del [OF ok2(1) d4(1) mp4] by simp
    have "\<exists>kvsa kvs'. put_dict kvs1 i d4 = Some kvsa \<and> cumulativeKeyCountAdd kvsa i (- 1) = Some kvs' \<and> kvs_ok kvs' \<and> kvs_same kvs1 kvs' \<and>
      dicts kvs' = (dicts kvs1)[i := Some \<lparr>kd = d4, rehashing_node = dictIsRehashing d4\<rparr>] \<and>
      int (kvs_total kvs') = int (kvs_total kvs1) + - 1 \<and> resize_cursor kvs' = resize_cursor kvs1 \<and>
      kvs_map kvs' = (\<lambda>(j, k). if j = i then dict_map d4 k else kvs_map kvs1 (j, k))"
      by (rule put_count_ok [OF 1(2) i1]) (use d4(3) sz4 tot 1(4) in simp_all)
    then obtain kvsa kvs2 where 2: "put_dict kvs1 i d4 = Some kvsa" "cumulativeKeyCountAdd kvsa i (- 1) = Some kvs2" "kvs_ok kvs2" "kvs_same kvs1 kvs2"
      "int (kvs_total kvs2) = int (kvs_total kvs1) + - 1" "kvs_map kvs2 = (\<lambda>(j, k). if j = i then dict_map d4 k else kvs_map kvs1 (j, k))"
      by blast
    have "i < num_dicts kvs2" using 2(4) i1 by (simp add: kvs_same_def)
    then obtain kvs3 where 3: "freeDictIfNeeded cf kvs2 i = Some kvs3" "kvs_kept kvs2 kvs3" using freeDictIfNeeded_ok [OF 2(3)] by blast
    have m2: "kvs_map kvs2 = (kvs_map kvs)((i, key) := None)"
      unfolding 2(6) mp4 using kvs_map_slot [OF 1(2) i1(1)] i1(2) m1 by (auto simp: fun_eq_iff)
    have free: "kvstoreDictTwoPhaseUnlinkFree can cf kvs1 i r = Some kvs3"
      using getDict_eq [OF 1(2) i1(1)] i1(2) Some d3(1) 2(1,2) 3(1) by (simp add: kvstoreDictTwoPhaseUnlinkFree_def d4_def)
    have "kvstoreDictTwoPhaseUnlinkFind can kvs i key = Some (kvs1, r)"
      using getDict_eq [OF ok i] \<open>dicts kvs ! i = Some e\<close> d1(1) Some 1(1) by (simp add: kvstoreDictTwoPhaseUnlinkFind_def d2_def)
    moreover have "kvs_ok kvs3" "kvs_same kvs kvs3" "kvs_map kvs3 = (kvs_map kvs)((i, key) := None)" "kvs_total kvs3 \<le> kvs_total kvs"
      using 3(2) 2(4,5) m2 1(3,4) kvs_same_trans [OF 1(3)] kvs_same_trans [OF 2(4)] by (auto simp: kvs_kept_def)
    ultimately show ?thesis using free Some rN mp by (cases p) auto
  qed
qed


subsection \<open>Expansion and resizing\<close>

lemma kvstoreDictExpand_ok:
  assumes ok: "kvs_ok kvs" and i: "i < num_dicts kvs"
  shows "\<exists>kvs' r. kvstoreDictExpand can kvs i sz = Some (kvs', r) \<and> kvs_kept kvs kvs'"
proof -
  obtain kvs1 e where 1: "createDictIfNeeded kvs i = Some (kvs1, kd e)" "kvs_kept kvs kvs1" "dicts kvs1 ! i = Some e"
    using createDictIfNeeded_ok [OF ok i] by blast
  have ok1: "kvs_ok kvs1" and i1: "i < num_dicts kvs1" using 1(2) i by (auto simp: kvs_kept_def kvs_same_def)
  obtain d' r where d': "dictExpand can (kd e) sz = Some (d', r)" "kept (kd e) d'"
    using dictExpand_ok [of "kd e" can sz] slot_dict_ok [OF ok1 i1 1(3)] by auto
  obtain kvs2 where "put_dict kvs1 i d' = Some kvs2" "kvs_kept kvs1 kvs2" using put_kept [OF ok1 i1 1(3) d'(2)] by blast
  then show ?thesis using 1 d'(1) kvs_kept_trans [OF 1(2)] by (auto simp: kvstoreDictExpand_def)
qed

lemma expand_loop_ok:
  assumes "kvs_ok kvs" "\<forall>i \<in> set is. i < num_dicts kvs"
  shows "\<exists>kvs' r. expand_loop can sz try_expand mem skip is kvs = Some (kvs', r) \<and> kvs_kept kvs kvs'"
  using assms
proof (induction "is" arbitrary: kvs)
  case Nil
  then show ?case using kvs_kept_refl by simp
next
  case (Cons i "is")
  have i: "i < num_dicts kvs" using Cons.prems(2) by simp
  obtain kvs1 e where 1: "createDictIfNeeded kvs i = Some (kvs1, kd e)" "kvs_kept kvs kvs1" "dicts kvs1 ! i = Some e"
    using createDictIfNeeded_ok [OF Cons.prems(1) i] by blast
  have ok1: "kvs_ok kvs1" and i1: "i < num_dicts kvs1" using 1(2) i by (auto simp: kvs_kept_def kvs_same_def)
  obtain d' r where d': "(if try_expand then dictTryExpand can (kd e) sz (mem i) else dictExpand can (kd e) sz) = Some (d', r)" "kept (kd e) d'"
    using dictExpand_ok [of "kd e" can sz] dictTryExpand_ok [of "kd e" can sz "mem i"] slot_dict_ok [OF ok1 i1 1(3)] by (cases try_expand) auto
  obtain kvs2 where 2: "put_dict kvs1 i d' = Some kvs2" "kvs_kept kvs1 kvs2" using put_kept [OF ok1 i1 1(3) d'(2)] by blast
  have k2: "kvs_kept kvs kvs2" by (rule kvs_kept_trans [OF 1(2) 2(2)])
  obtain kvs3 r3 where 3: "expand_loop can sz try_expand mem skip is kvs2 = Some (kvs3, r3)" "kvs_kept kvs2 kvs3"
    using Cons.IH [of kvs2] k2 Cons.prems(2) by (auto simp: kvs_kept_def kvs_same_def)
  have E: "expand_loop can sz try_expand mem skip (i # is) kvs =
     (if (case skip of None \<Rightarrow> False | Some f \<Rightarrow> f i) then expand_loop can sz try_expand mem skip is kvs
      else if try_expand \<and> \<not> r then Some (kvs2, False) else expand_loop can sz try_expand mem skip is kvs2)"
    unfolding expand_loop.simps 1(1) bind.bind_lunit prod.case d'(1) 2(1) ..
  show ?case using E Cons.IH [of kvs] Cons.prems k2 3 kvs_kept_trans [OF k2 3(2)] by auto
qed

lemma kvstoreExpand_ok:
  assumes "kvs_ok kvs"
  shows "\<exists>kvs' r. kvstoreExpand can kvs sz try_expand mem skip = Some (kvs', r) \<and> kvs_kept kvs kvs'"
  unfolding kvstoreExpand_def by (rule expand_loop_ok [OF assms]) simp

lemma resize_loop_ok:
  assumes "kvs_ok kvs"
  shows "\<exists>kvs'. resize_loop can n kvs = Some kvs' \<and> kvs_kept kvs kvs'"
  using assms
proof (induction n arbitrary: kvs)
  case 0
  then show ?case using kvs_kept_refl by simp
next
  case (Suc n)
  define i where "i = resize_cursor kvs"
  have i: "i < num_dicts kvs" using kvs_okD(5) [OF Suc.prems] by (simp add: kvs_frame_def i_def)
  obtain kvs1 where 1: "(case dicts kvs ! i of None \<Rightarrow> Some kvs
        | Some e \<Rightarrow> do {
            (d, shrunk) \<leftarrow> dictShrinkIfNeeded can (kd e);
            (d, _) \<leftarrow> (if shrunk then Some (d, True) else dictExpandIfNeeded can d);
            put_dict kvs i d }) = Some kvs1" "kvs_kept kvs kvs1"
  proof (cases "dicts kvs ! i")
    case None
    then show ?thesis using that kvs_kept_refl [OF Suc.prems] by simp
  next
    case (Some e)
    have e: "dict_ok (kd e)" using slot_dict_ok [OF Suc.prems i Some] by simp
    obtain d1 b1 where 1: "dictShrinkIfNeeded can (kd e) = Some (d1, b1)" "kept (kd e) d1" using dictShrinkIfNeeded_ok [OF e] by blast
    obtain d2 b2 where 2: "(if b1 then Some (d1, True) else dictExpandIfNeeded can d1) = Some (d2, b2)" "kept (kd e) d2"
      using dictExpandIfNeeded_ok [OF kept_ok [OF 1(2)], of can] 1(2) kept_trans [OF 1(2)] by (cases b1) auto
    obtain kvs2 where "put_dict kvs i d2 = Some kvs2" "kvs_kept kvs kvs2" using put_kept [OF Suc.prems i Some 2(2)] by blast
    then show ?thesis using that [of kvs2] Some 1(1) 2(1) by simp
  qed
  define kvs2 where "kvs2 = kvs1\<lparr>resize_cursor := (i + 1) mod num_dicts kvs1\<rparr>"
  have n1: "num_dicts kvs1 = num_dicts kvs" using 1(2) by (simp add: kvs_kept_def kvs_same_def)
  have "kvs_kept kvs1 kvs2"
    using 1(2) i n1 by (auto simp: kvs_kept_def kvs2_def kvs_ok_def kvs_frame_def key_counts_def log_counts_def dict_count_def kvs_same_def
        kvs_map_def kvs_total_def)
  then have k2: "kvs_kept kvs kvs2" by (rule kvs_kept_trans [OF 1(2)])
  then obtain kvs3 where 3: "resize_loop can n kvs2 = Some kvs3" "kvs_kept kvs2 kvs3" using Suc.IH [of kvs2] by (auto simp: kvs_kept_def)
  have "resize_loop can (Suc n) kvs = resize_loop can n kvs2"
    using 1(1) getDict_eq [OF Suc.prems i] unfolding resize_loop.simps i_def [symmetric] Let_def
    by (cases "dicts kvs ! i") (simp_all add: kvs2_def)
  then show ?case using 3 kvs_kept_trans [OF k2] by auto
qed

lemma kvstoreTryResizeDicts_ok:
  assumes "kvs_ok kvs"
  shows "\<exists>kvs'. kvstoreTryResizeDicts can kvs limit = Some kvs' \<and> kvs_kept kvs kvs'"
  unfolding kvstoreTryResizeDicts_def by (rule resize_loop_ok [OF assms])


subsection \<open>Creation and clearing\<close>

definition empty_slot :: "('s, 'k, 'v) kvdict ptr \<Rightarrow> bool" where
  "empty_slot e \<longleftrightarrow> kv_size e = 0 \<and> kv_buckets e = 0 \<and> kv_log e = None \<and> slot_map e = Map.empty"

lemma empty_slots_ok:
  assumes fr: "kvs_frame kvs" and "dict_count kvs" and e: "\<forall>e \<in> set (dicts kvs). empty_slot e"
    and "key_count kvs = 0" "non_empty_dicts kvs = 0" "bucket_count kvs = 0" "overhead_hashtable_rehashing kvs = 0" "rehashing kvs = []"
    and t: "if num_dicts kvs = 1 then dict_sizes kvs = None
      else \<exists>ft. dict_sizes kvs = Some ft \<and> ft_size ft = int (num_dicts kvs) \<and> fw_rep ft (\<lambda>_. 0)"
  shows "kvs_ok kvs \<and> kvs_map kvs = Map.empty \<and> kvs_total kvs = 0"
proof -
  have z: "map f (dicts kvs) = map (\<lambda>_. c) (dicts kvs)" if "\<And>e. empty_slot e \<Longrightarrow> f e = c" for f :: "('a, 'b, 'c) kvdict ptr \<Rightarrow> 'z" and c
    using e that by (intro map_cong) auto
  have s0: "sum_list (map (\<lambda>_. 0 :: 'z :: monoid_add) (dicts kvs)) = 0" by (induction "dicts kvs") simp_all
  have m: "map (\<lambda>e. of_nat (kv_size e)) (dicts kvs) = map (\<lambda>_. 0 :: u64) (dicts kvs)"
    "map (\<lambda>e. if kv_size e \<noteq> 0 then 1 else 0) (dicts kvs) = map (\<lambda>_. 0 :: int) (dicts kvs)"
    "map (\<lambda>e. of_nat (kv_buckets e)) (dicts kvs) = map (\<lambda>_. 0 :: u64) (dicts kvs)"
    "map (\<lambda>e. from_size (kv_log e)) (dicts kvs) = map (\<lambda>_. 0 :: u64) (dicts kvs)"
    "map kv_size (dicts kvs) = map (\<lambda>_. 0 :: nat) (dicts kvs)"
    by (rule z, simp add: empty_slot_def)+
  have n: "kv_size (dicts kvs ! i) = 0" "kv_log (dicts kvs ! i) = None" "slot_map (dicts kvs ! i) = Map.empty" if "i < num_dicts kvs" for i
    using e nth_mem [of i "dicts kvs"] that fr by (auto simp: empty_slot_def kvs_frame_def)
  have "fw_rep ft (\<lambda>i. of_nat (kv_size (dicts kvs ! nat i)))" if "fw_rep ft (\<lambda>_. 0)" "ft_size ft = int (num_dicts kvs)" for ft
    using that fw_rep_cong [of ft "\<lambda>_. 0" "\<lambda>i. of_nat (kv_size (dicts kvs ! nat i))"] n(1) by auto
  then have "key_counts kvs (dicts kvs)" unfolding key_counts_def m using assms(4,5) t by (auto simp: s0)
  moreover have "log_counts kvs" unfolding log_counts_def m using assms(6-8) n(2) fr by (auto simp: s0 kvs_frame_def)
  ultimately show ?thesis using assms(1,2) n(3) fr by (auto simp: kvs_ok_def kvs_map_def kvs_total_def m s0 kvs_frame_def fun_eq_iff)
qed

lemma dict_count_update:
  "dict_count kvs \<Longrightarrow> i < length (dicts kvs) \<Longrightarrow> dicts kvs' = (dicts kvs)[i := x] \<Longrightarrow>
   allocated_dicts kvs' = allocated_dicts kvs - (if dicts kvs ! i \<noteq> None then 1 else 0) + (if x \<noteq> None then 1 else 0) \<Longrightarrow> dict_count kvs'"
  by (simp add: dict_count_def sum_list_update_group)

lemma created_slot: "slot_ok ty \<lparr>kd = dictCreate ty, rehashing_node = False\<rparr>" "empty_slot (Some \<lparr>kd = dictCreate ty, rehashing_node = False\<rparr>)"
  using dictCreate_ok(1) [of ty] dictCreate_map [of ty]
  by (auto simp: slot_ok_def empty_slot_def dictCreate_def dictIsRehashing_def dictSize_def dictBuckets_def log_state_def
      DICTHT_SIZE_def dictReset_def)

lemma create_dicts_ok:
  fixes kvs :: "('s, 'k, 'v) kvstore"
  assumes "kvs_frame kvs" "dict_count kvs" "\<forall>e \<in> set (dicts kvs). empty_slot e" "\<forall>i \<in> set is. i < num_dicts kvs"
  shows "\<exists>ds a. create_dicts is kvs = Some (kvs\<lparr>dicts := ds, allocated_dicts := a\<rparr>) \<and> kvs_frame (kvs\<lparr>dicts := ds, allocated_dicts := a\<rparr>) \<and>
    dict_count (kvs\<lparr>dicts := ds, allocated_dicts := a\<rparr>) \<and> (\<forall>e \<in> set ds. empty_slot e)"
  using assms
proof (induction "is" arbitrary: kvs)
  case Nil
  then show ?case by (intro exI [of _ "dicts kvs"] exI [of _ "allocated_dicts kvs"]) simp
next
  case (Cons i "is")
  have i: "i < length (dicts kvs)" using Cons.prems by (simp add: kvs_frame_def)
  show ?case
  proof (cases "dicts kvs ! i")
    case (Some e)
    then show ?thesis using Cons i by (simp add: createDictIfNeeded_def kvstoreGetDict_def rd_def)
  next
    case None
    define x :: "('s, 'k, 'v) kvdict" where "x = \<lparr>kd = dictCreate (kvs_dtype kvs), rehashing_node = False\<rparr>"
    define kvs1 where "kvs1 = kvs\<lparr>dicts := (dicts kvs)[i := Some x], allocated_dicts := allocated_dicts kvs + 1\<rparr>"
    have x: "slot_ok (kvs_dtype kvs) x" "empty_slot (Some x)" unfolding x_def by (rule created_slot)+
    have st: "set ((dicts kvs)[i := Some x]) \<subseteq> insert (Some x) (set (dicts kvs))" by (rule set_update_subset_insert)
    have "kvs_frame kvs1" using Cons.prems(1) x(1) st by (auto simp: kvs_frame_def kvs1_def)
    moreover have "dict_count kvs1" by (rule dict_count_update [OF Cons.prems(2) i, of kvs1 "Some x"]) (simp_all add: kvs1_def None)
    moreover have "\<forall>e \<in> set (dicts kvs1). empty_slot e" using Cons.prems(3) x(2) st by (auto simp: kvs1_def)
    moreover have "\<forall>i \<in> set is. i < num_dicts kvs1" using Cons.prems(4) by (simp add: kvs1_def)
    ultimately have "\<exists>ds a. create_dicts is kvs1 = Some (kvs1\<lparr>dicts := ds, allocated_dicts := a\<rparr>) \<and> kvs_frame (kvs1\<lparr>dicts := ds, allocated_dicts := a\<rparr>) \<and>
      dict_count (kvs1\<lparr>dicts := ds, allocated_dicts := a\<rparr>) \<and> (\<forall>e \<in> set ds. empty_slot e)"
      by (rule Cons.IH)
    moreover have "kvs1\<lparr>dicts := ds, allocated_dicts := a\<rparr> = kvs\<lparr>dicts := ds, allocated_dicts := a\<rparr>" for ds a by (simp add: kvs1_def)
    moreover have "create_dicts (i # is) kvs = create_dicts is kvs1"
      using None i by (simp add: createDictIfNeeded_def kvstoreGetDict_def rd_def wr_def kvs1_def x_def Let_def)
    ultimately show ?thesis by simp
  qed
qed

lemma kvstoreCreate_ok:
  assumes "bits \<le> 16"
  shows "\<exists>kvs :: ('s, 'k, 'v) kvstore. kvstoreCreate ty bits flags = Some kvs \<and> kvs_ok kvs \<and> kvs_map kvs = Map.empty \<and> kvs_total kvs = 0 \<and>
    num_dicts kvs = 2 ^ bits \<and> num_dicts_bits kvs = bits \<and> kvs_dtype kvs = ty \<and> kvs_flags kvs = flags"
proof -
  define kvs0 :: "('s, 'k, 'v) kvstore" where "kvs0 = \<lparr>kvs_flags = flags, kvs_dtype = ty, dicts = replicate (2 ^ bits) None, num_dicts = 2 ^ bits,
       num_dicts_bits = bits, rehashing = [], resize_cursor = 0, allocated_dicts = 0, non_empty_dicts = 0, key_count = 0,
       bucket_count = 0, dict_sizes = None, overhead_hashtable_rehashing = 0\<rparr>"
  have 0: "kvs_frame kvs0" "dict_count kvs0" "\<forall>e \<in> set (dicts kvs0). empty_slot e"
    using assms by (auto simp: kvs_frame_def kvs0_def dict_count_def empty_slot_def sum_list_replicate)
  obtain ds a where ds: "(if flags AND KVSTORE_ALLOCATE_DICTS_ON_DEMAND = 0 then create_dicts [0..<num_dicts kvs0] kvs0 else Some kvs0) =
      Some (kvs0\<lparr>dicts := ds, allocated_dicts := a\<rparr>)" "kvs_frame (kvs0\<lparr>dicts := ds, allocated_dicts := a\<rparr>)"
      "dict_count (kvs0\<lparr>dicts := ds, allocated_dicts := a\<rparr>)" "\<forall>e \<in> set ds. empty_slot e"
  proof (cases "flags AND KVSTORE_ALLOCATE_DICTS_ON_DEMAND = 0")
    case True
    then show ?thesis using that create_dicts_ok [OF 0, of "[0..<num_dicts kvs0]"] by auto
  next
    case False
    then show ?thesis using that [of "allocated_dicts kvs0" "dicts kvs0"] 0 by simp
  qed
  define kvs where "kvs = kvs0\<lparr>dicts := ds, allocated_dicts := a, dict_sizes := if num_dicts kvs0 > 1 then Some (fwTreeCreate bits) else None\<rparr>"
  have run: "kvstoreCreate ty bits flags = Some kvs"
    using ds(1) assms unfolding kvstoreCreate_def Let_def kvs0_def [symmetric]
    by (simp add: chk_def kvs_def) (simp add: kvs0_def)
  have "2 ^ bits > Suc 0 \<or> bits = 0" using one_less_power [of "2 :: nat" bits] by (cases "bits = 0") simp_all
  then have "kvs_ok kvs \<and> kvs_map kvs = Map.empty \<and> kvs_total kvs = 0"
    by (intro empty_slots_ok) (use ds(2-4) fwTreeCreate_rep [of bits] in \<open>auto simp: kvs_def kvs0_def kvs_frame_def dict_count_def fwTreeCreate_def Let_def\<close>)
  then show ?thesis using run by (simp add: kvs_def kvs0_def)
qed


lemma run_calls_no_node:
  assumes "i < length (dicts kvs)" "dicts kvs ! i = Some e" "\<not> rehashing_node e" "\<forall>n. RehashingStarted n \<notin> set cs"
  shows "\<exists>b h. run_calls i cs kvs = Some (kvs\<lparr>bucket_count := b, overhead_hashtable_rehashing := h\<rparr>)"
  using assms
proof (induction i cs kvs rule: run_calls.induct)
  case (1 i kvs)
  then show ?case by (intro exI [of _ "bucket_count kvs"] exI [of _ "overhead_hashtable_rehashing kvs"]) simp
next
  case (3 i n cs kvs)
  then show ?case by (fastforce simp: kvstoreDictRehashingCompleted_def rd_def)
qed (fastforce simp: kvstoreDictBucketChanged_def)+

lemma dictEmpty_calls: "\<exists>cs. calls (dictEmpty d) = calls d @ cs \<and> (\<forall>n. RehashingStarted n \<notin> set cs)"
  by (auto simp: dictEmpty_def Let_def dictClear_def set_ht_def call_simps)

lemma dictRelease_calls: "RehashingStarted n \<notin> set (dictRelease d)"
  by (auto simp: dictRelease_def Let_def)

lemma dictEmpty_slot: "dict_ok d \<Longrightarrow> empty_slot (Some \<lparr>kd = dictEmpty d, rehashing_node = False\<rparr>)"
  using dictEmpty_ok [of d] dict_map_empty [of "dictEmpty d"] dictSize_contents [of "dictEmpty d"]
  by (auto simp: empty_slot_def log_state_def dictEmpty_def dictBuckets_def Let_def dictClear_def set_ht_def dictReset_def DICTHT_SIZE_def
      dictIsRehashing_def)


text \<open>What clearing one dict keeps: all but the counters, which \<open>kvstoreEmpty\<close> resets at its end.\<close>

definition clearing :: "('s, 'k, 'v) kvstore \<Rightarrow> ('s, 'k, 'v) kvstore \<Rightarrow> bool" where
  "clearing kvs kvs' \<longleftrightarrow> kvs_frame kvs' \<and> dict_count kvs' \<and> kvs_same kvs kvs' \<and> dict_sizes kvs' = dict_sizes kvs"

lemma clear_step:
  assumes fr: "kvs_frame kvs" and dc: "dict_count kvs" and i: "i < num_dicts kvs" and e: "dicts kvs ! i = Some e"
  shows "\<exists>kvs' x. do { kvs \<leftarrow> set_node kvs i False; kvs \<leftarrow> put_dict kvs i (dictEmpty (kd e)); freeDictIfNeeded cf kvs i } = Some kvs' \<and>
    clearing kvs kvs' \<and> dicts kvs' = (dicts kvs)[i := x] \<and> empty_slot x"
proof -
  have len: "i < length (dicts kvs)" using fr i by (simp add: kvs_frame_def)
  have se: "slot_ok (kvs_dtype kvs) e" using fr e nth_mem [OF len] by (auto simp: kvs_frame_def)
  define x where "x = \<lparr>kd = dictEmpty (kd e), rehashing_node = False\<rparr>"
  have ok: "dict_ok (kd e)" using se by (simp add: slot_ok_def)
  have x: "empty_slot (Some x)" "slot_ok (kvs_dtype kvs) x" "dictSize (kd x) = 0"
    using dictEmpty_slot [OF ok] dictEmpty_ok [OF ok] se
    by (auto simp: x_def slot_ok_def empty_slot_def log_state_None)
  obtain cs where cs: "calls (dictEmpty (kd e)) = calls (kd e) @ cs" "\<forall>n. RehashingStarted n \<notin> set cs" using dictEmpty_calls by blast
  have xe: "e\<lparr>rehashing_node := False, kd := dictEmpty (kd e)\<rparr> = x" by (simp add: x_def)
  define k1 where "k1 = kvs\<lparr>dicts := (dicts kvs)[i := Some x]\<rparr>"
  obtain b h where "run_calls i cs k1 = Some (k1\<lparr>bucket_count := b, overhead_hashtable_rehashing := h\<rparr>)"
    using run_calls_no_node [of i k1 x cs] cs(2) len by (auto simp: k1_def x_def)
  moreover define k2 where "k2 = k1\<lparr>bucket_count := b, overhead_hashtable_rehashing := h\<rparr>"
  ultimately have put: "do { kvs \<leftarrow> set_node kvs i False; put_dict kvs i (dictEmpty (kd e)) } = Some k2"
    using len e cs(1) xe by (simp add: set_node_eq put_dict_def rd_def wr_def k1_def)
  have d2: "dicts k2 = (dicts kvs)[i := Some x]" "dicts k2 ! i = Some x" "length (dicts k2) = length (dicts kvs)" using len by (simp_all add: k2_def k1_def)
  have c2: "clearing kvs k2"
    using fr x(2) set_update_subset_insert [of "dicts kvs" i "Some x"] dict_count_update [OF dc len d2(1)] e
    by (auto simp: clearing_def kvs_frame_def k2_def k1_def kvs_same_def)
  obtain b' h' where rel: "run_calls i (dictRelease (kd x)) k2 = Some (k2\<lparr>bucket_count := b', overhead_hashtable_rehashing := h'\<rparr>)"
    using run_calls_no_node [of i k2 x "dictRelease (kd x)"] len d2(2,3) dictRelease_calls by (auto simp: x_def)
  define k3 where "k3 = k2\<lparr>bucket_count := b', overhead_hashtable_rehashing := h', dicts := (dicts kvs)[i := None], allocated_dicts := allocated_dicts k2 - 1\<rparr>"
  have c3: "clearing kvs k3"
    using fr set_update_subset_insert [of "dicts kvs" i None] dict_count_update [OF dc len, of k3 None] e
    by (auto simp: clearing_def kvs_frame_def k3_def k2_def k1_def kvs_same_def)
  have "freeDictIfNeeded cf k2 i \<in> {Some k2, Some k3}"
    using d2 len x(3) rel by (simp add: freeDictIfNeeded_def kvstoreGetDict_def kvstoreDictSize_def kvstoreDictIsRehashingPaused_def rd_def wr_def k3_def)
  moreover have "empty_slot None" "dicts k3 = (dicts kvs)[i := None]" by (auto simp: empty_slot_def k3_def)
  moreover have "do { kvs \<leftarrow> set_node kvs i False; kvs \<leftarrow> put_dict kvs i (dictEmpty (kd e)); freeDictIfNeeded cf kvs i } = freeDictIfNeeded cf k2 i"
    using put by (cases "set_node kvs i False") simp_all
  ultimately show ?thesis using c2 c3 d2(1) x(1) by auto
qed

lemma empty_dicts_ok:
  assumes "kvs_frame kvs" "dict_count kvs" "\<forall>i \<in> set is. i < num_dicts kvs"
  shows "\<exists>kvs'. empty_dicts cf is kvs = Some kvs' \<and> clearing kvs kvs' \<and>
    (\<forall>i < num_dicts kvs. i \<in> set is \<or> empty_slot (dicts kvs ! i) \<longrightarrow> empty_slot (dicts kvs' ! i))"
  using assms
proof (induction "is" arbitrary: kvs)
  case Nil
  then show ?case by (simp add: clearing_def)
next
  case (Cons i "is")
  have i: "i < num_dicts kvs" "i < length (dicts kvs)" using Cons.prems by (simp_all add: kvs_frame_def)
  obtain kvs1 x where 1: "(case map_option kd (dicts kvs ! i) of None \<Rightarrow> Some kvs
      | Some d \<Rightarrow> do { kvs \<leftarrow> set_node kvs i False; kvs \<leftarrow> put_dict kvs i (dictEmpty d); freeDictIfNeeded cf kvs i }) = Some kvs1"
    "clearing kvs kvs1" "dicts kvs1 = (dicts kvs)[i := x]" "empty_slot x"
  proof (cases "dicts kvs ! i")
    case None
    then show ?thesis using that [of kvs None] Cons.prems i list_update_id [of "dicts kvs" i] by (simp add: clearing_def empty_slot_def)
  next
    case (Some e)
    then show ?thesis using that clear_step [OF Cons.prems(1,2) i(1) Some, of cf] by auto
  qed
  have "\<exists>kvs'. empty_dicts cf is kvs1 = Some kvs' \<and> clearing kvs1 kvs' \<and>
    (\<forall>j < num_dicts kvs1. j \<in> set is \<or> empty_slot (dicts kvs1 ! j) \<longrightarrow> empty_slot (dicts kvs' ! j))"
    by (rule Cons.IH) (use 1(2) Cons.prems(3) in \<open>auto simp: clearing_def kvs_same_def\<close>)
  then obtain kvs2 where 2: "empty_dicts cf is kvs1 = Some kvs2" "clearing kvs1 kvs2"
    "\<forall>j < num_dicts kvs1. j \<in> set is \<or> empty_slot (dicts kvs1 ! j) \<longrightarrow> empty_slot (dicts kvs2 ! j)" by blast
  have n: "num_dicts kvs1 = num_dicts kvs" using 1(2) by (simp add: clearing_def kvs_same_def)
  have "empty_slot (dicts kvs2 ! j)" if "j < num_dicts kvs" "j \<in> set (i # is) \<or> empty_slot (dicts kvs ! j)" for j
    using 2(3) that n 1(3,4) i(2) by (cases "j = i") auto
  moreover have "clearing kvs kvs2" using 1(2) 2(2) kvs_same_trans [of kvs kvs1 kvs2] by (auto simp: clearing_def)
  moreover have "empty_dicts cf (i # is) kvs = Some kvs2" using 1(1) 2(1) i(2) by (simp add: kvstoreGetDict_def rd_def)
  ultimately show ?case by blast
qed

lemma kvstoreEmpty_ok:
  assumes ok: "kvs_ok kvs"
  shows "\<exists>kvs'. kvstoreEmpty cf kvs = Some kvs' \<and> kvs_ok kvs' \<and> kvs_same kvs kvs' \<and> kvs_map kvs' = Map.empty \<and> kvs_total kvs' = 0"
proof -
  note D = kvs_okD [OF ok]
  obtain k1 where k1: "empty_dicts cf [0..<num_dicts kvs] kvs = Some k1" "clearing kvs k1" "\<forall>i < num_dicts kvs. empty_slot (dicts k1 ! i)"
    using empty_dicts_ok [OF D(5) D(4), of "[0..<num_dicts kvs]" cf] by auto
  define k2 where "k2 = k1\<lparr>rehashing := [], key_count := 0, non_empty_dicts := 0, resize_cursor := 0, bucket_count := 0,
       dict_sizes := map_option fwTreeClear (dict_sizes k1), overhead_hashtable_rehashing := 0\<rparr>"
  have t: "fw_rep (fwTreeClear ft) (\<lambda>_. 0) \<and> ft_size (fwTreeClear ft) = ft_size ft" if "fw_rep ft a" for ft a
    using that fw_sums_zero [of "ft_size ft"] by (simp add: fw_rep_def fwTreeClear_def)
  have "kvs_ok k2 \<and> kvs_map k2 = Map.empty \<and> kvs_total k2 = 0"
  proof (rule empty_slots_ok)
    show "kvs_frame k2" "dict_count k2" using k1(2) by (auto simp: clearing_def k2_def kvs_frame_def dict_count_def)
    show "\<forall>e \<in> set (dicts k2). empty_slot e" using k1(2,3) by (auto simp: k2_def clearing_def kvs_same_def kvs_frame_def in_set_conv_nth)
    show "if num_dicts k2 = 1 then dict_sizes k2 = None
      else \<exists>ft. dict_sizes k2 = Some ft \<and> ft_size ft = int (num_dicts k2) \<and> fw_rep ft (\<lambda>_. 0)"
      using k1(2) D(2) t by (auto simp: k2_def key_counts_def clearing_def kvs_same_def split: if_splits)
  qed (simp_all add: k2_def)
  moreover have "kvstoreEmpty cf kvs = Some k2" using k1(1) by (simp add: kvstoreEmpty_def k2_def)
  moreover have "kvs_same kvs k2" using k1(2) by (simp add: clearing_def k2_def kvs_same_def)
  ultimately show ?thesis by blast
qed

end
