(* ===== verification/Kvstore_Props.thy ===== *)
theory Kvstore_Props
  imports Kvstore_Ops
begin

unbundle bit_operations_syntax

text \<open>
  What a key-value store promises: it implements a map from slots and keys to entries, its counters are exact, and the
  searches over the slots find the slot that a linear search would find.
\<close>

subsection \<open>A store implements a map\<close>

datatype ('s, 'k, 'v) kv_op =
    KvAdd nat 's "'v option" | KvDelete nat 'k | KvUnlink nat 'k | KvFind nat 'k | KvFetch nat 'k
  | KvExpand nat bool "nat \<Rightarrow> bool" "(nat \<Rightarrow> bool) ptr" | KvDictExpand nat nat | KvTryResize nat | KvEmpty

text \<open>A call of an operation while \<open>dict_can_resize\<close> and \<open>canFreeDict\<close> have given values. \<open>KvAdd\<close> is \<open>kvstoreDictAddRaw\<close>
  followed by \<open>kvstoreDictSetVal\<close> on a new entry, \<open>KvUnlink\<close> the pair of \<open>kvstoreDictTwoPhaseUnlinkFind\<close> and
  \<open>kvstoreDictTwoPhaseUnlinkFree\<close>, the second called when the first finds the key.\<close>

fun kv_step ::
  "dictResizeEnable \<times> (nat \<Rightarrow> bool) ptr \<times> ('s, 'k, 'v) kv_op \<Rightarrow> ('s, 'k, 'v) kvstore \<Rightarrow>
   (('s, 'k, 'v) kvstore \<times> 'v dict_reply) res" where
  "kv_step (can, cf, KvAdd i s v) kvs = do {
     (kvs, ret, _) \<leftarrow> kvstoreDictAddRaw can kvs i s;
     kvs \<leftarrow> (case (ret, v) of (Some de, Some v) \<Rightarrow> kvstoreDictSetVal kvs i de v | _ \<Rightarrow> Some kvs);
     Some (kvs, Done (ret \<noteq> None)) }"
| "kv_step (can, cf, KvDelete i k) kvs = do { (kvs, b) \<leftarrow> kvstoreDictDelete can cf kvs i k; Some (kvs, Done b) }"
| "kv_step (can, cf, KvUnlink i k) kvs = do {
     (kvs, link) \<leftarrow> kvstoreDictTwoPhaseUnlinkFind can kvs i k;
     kvs \<leftarrow> (if link \<noteq> None then kvstoreDictTwoPhaseUnlinkFree can cf kvs i link else Some kvs);
     Some (kvs, Done (link \<noteq> None)) }"
| "kv_step (can, cf, KvFind i k) kvs = do { (kvs, p) \<leftarrow> kvstoreDictFind can kvs i k; Some (kvs, Done (p \<noteq> None)) }"
| "kv_step (can, cf, KvFetch i k) kvs = do { (kvs, v) \<leftarrow> kvstoreDictFetchValue can kvs i k; Some (kvs, Value v) }"
| "kv_step (can, cf, KvExpand n try mem skip) kvs = do { (kvs, _) \<leftarrow> kvstoreExpand can kvs n try mem skip; Some (kvs, Quiet) }"
| "kv_step (can, cf, KvDictExpand i n) kvs = do { (kvs, _) \<leftarrow> kvstoreDictExpand can kvs i n; Some (kvs, Quiet) }"
| "kv_step (can, cf, KvTryResize n) kvs = do { kvs \<leftarrow> kvstoreTryResizeDicts can kvs n; Some (kvs, Quiet) }"
| "kv_step (can, cf, KvEmpty) kvs = do { kvs \<leftarrow> kvstoreEmpty cf kvs; Some (kvs, Quiet) }"

fun kv_spec ::
  "('s, 'k) dictType \<Rightarrow> dictResizeEnable \<times> (nat \<Rightarrow> bool) ptr \<times> ('s, 'k, 'v) kv_op \<Rightarrow> (nat \<times> 'k \<rightharpoonup> 's \<times> 'v option) \<Rightarrow>
   (nat \<times> 'k \<rightharpoonup> 's \<times> 'v option) \<times> 'v dict_reply" where
  "kv_spec ty (_, _, KvAdd i s v) m =
     (let k = (i, keyFromStoredKey ty s) in (if m k = None then m(k \<mapsto> (s, v)) else m, Done (m k = None)))"
| "kv_spec ty (_, _, KvDelete i k) m = (m((i, k) := None), Done (m (i, k) \<noteq> None))"
| "kv_spec ty (_, _, KvUnlink i k) m = (m((i, k) := None), Done (m (i, k) \<noteq> None))"
| "kv_spec ty (_, _, KvFind i k) m = (m, Done (m (i, k) \<noteq> None))"
| "kv_spec ty (_, _, KvFetch i k) m = (m, Value (Option.bind (m (i, k)) snd))"
| "kv_spec ty (_, _, KvEmpty) m = (Map.empty, Quiet)"
| "kv_spec ty (_, _, _) m = (m, Quiet)"

text \<open>What the callers respect: a slot of the store; a value exactly for a type that has values.\<close>

fun kv_allowed :: "('s, 'k) dictType \<Rightarrow> nat \<Rightarrow> dictResizeEnable \<times> (nat \<Rightarrow> bool) ptr \<times> ('s, 'k, 'v) kv_op \<Rightarrow> bool" where
  "kv_allowed ty bits (_, _, KvAdd i s v) \<longleftrightarrow> i < 2 ^ bits \<and> (v = None \<longleftrightarrow> no_value ty)"
| "kv_allowed ty bits (_, _, KvDelete i k) \<longleftrightarrow> i < 2 ^ bits"
| "kv_allowed ty bits (_, _, KvUnlink i k) \<longleftrightarrow> i < 2 ^ bits"
| "kv_allowed ty bits (_, _, KvFind i k) \<longleftrightarrow> i < 2 ^ bits"
| "kv_allowed ty bits (_, _, KvFetch i k) \<longleftrightarrow> i < 2 ^ bits \<and> \<not> no_value ty"
| "kv_allowed ty bits (_, _, KvDictExpand i n) \<longleftrightarrow> i < 2 ^ bits"
| "kv_allowed ty bits (_, _, _) \<longleftrightarrow> True"

definition kv_state :: "('s, 'k) dictType \<Rightarrow> nat \<Rightarrow> nat \<Rightarrow> ('s, 'k, 'v) kvstore \<Rightarrow> bool" where
  "kv_state ty bits n kvs \<longleftrightarrow> kvs_ok kvs \<and> kvs_total kvs \<le> n \<and> num_dicts_bits kvs = bits \<and> kvs_dtype kvs = ty \<and>
     (\<not> no_value ty \<longrightarrow> (\<forall>k s v. kvs_map kvs k = Some (s, v) \<longrightarrow> v \<noteq> None))"

lemma kv_state_kept: "kv_state ty bits n kvs \<Longrightarrow> kvs_kept kvs kvs' \<Longrightarrow> kv_state ty bits (Suc n) kvs' \<and> kvs_map kvs' = kvs_map kvs"
  by (auto simp: kv_state_def kvs_kept_def kvs_same_def)

lemma kv_state_next:
  "kv_state ty bits n kvs \<Longrightarrow> kvs_ok kvs' \<Longrightarrow> kvs_same kvs kvs' \<Longrightarrow> kvs_total kvs' \<le> Suc n \<Longrightarrow>
   (\<And>k s v. \<not> no_value ty \<Longrightarrow> kvs_map kvs' k = Some (s, v) \<Longrightarrow> v \<noteq> None) \<Longrightarrow> kv_state ty bits (Suc n) kvs'"
  unfolding kv_state_def kvs_same_def by metis

lemma kvstoreDictFetchValue_ok:
  assumes st: "kv_state ty bits n kvs" and i: "i < num_dicts kvs" and nv: "\<not> no_value ty"
  shows "\<exists>kvs'. kvstoreDictFetchValue can kvs i key = Some (kvs', Option.bind (kvs_map kvs (i, key)) snd) \<and> kvs_kept kvs kvs'"
proof (cases "dicts kvs ! i")
  case None
  have ok: "kvs_ok kvs" using st by (simp add: kv_state_def)
  show ?thesis using None kvs_kept_refl [OF ok] getDict_eq [OF ok i] kvs_map_slot [OF ok i, of key] by (simp add: kvstoreDictFetchValue_def)
next
  case (Some e)
  have ok: "kvs_ok kvs" and ty: "kvs_dtype kvs = ty" using st by (simp_all add: kv_state_def)
  have e: "dict_ok (kd e)" "dtype (kd e) = ty" using slot_dict_ok [OF ok i Some] ty by auto
  have mp: "kvs_map kvs (i, k) = dict_map (kd e) k" for k using kvs_map_slot [OF ok i, of k] Some by simp
  have "values_set (kd e)" using st nv e(2) mp unfolding values_set_def kv_state_def by metis
  then obtain d' where d': "dictFetchValue can (kd e) key = Some (d', Option.bind (dict_map (kd e) key) snd)" "kept (kd e) d'"
    using dictFetchValue_ok [OF e(1), of can key] by auto
  obtain kvs' where "put_dict kvs i d' = Some kvs'" "kvs_kept kvs kvs'" using put_kept [OF ok i Some d'(2)] by blast
  then show ?thesis using getDict_eq [OF ok i] Some d'(1) mp e(2) nv by (simp add: kvstoreDictFetchValue_def chk_def)
qed

lemma kv_add_ok:
  assumes st: "kv_state ty bits n kvs" and i: "i < num_dicts kvs" and n: "n < 2 ^ 64 - 1" and v: "v = None \<longleftrightarrow> no_value ty"
  shows "\<exists>kvs' r. kv_step (can, cf, KvAdd i s v) kvs = Some (kvs', r) \<and> kv_state ty bits (Suc n) kvs' \<and>
    kv_spec ty (can, cf, KvAdd i s v) (kvs_map kvs) = (kvs_map kvs', r)"
proof -
  define k where "k = keyFromStoredKey (kvs_dtype kvs) s"
  have ok: "kvs_ok kvs" and tot: "kvs_total kvs < 2 ^ 64" "kvs_total kvs \<le> n" and ty: "kvs_dtype kvs = ty"
    using st n by (simp_all add: kv_state_def)
  obtain kvs1 ret ex where 1: "kvstoreDictAddRaw can kvs i s = Some (kvs1, ret, ex)" "kvs_ok kvs1" "kvs_same kvs kvs1"
    "if kvs_map kvs (i, k) = None
     then kvs_map kvs1 = (kvs_map kvs)((i, k) \<mapsto> (s, None)) \<and> kvs_total kvs1 = kvs_total kvs + 1 \<and>
       (\<exists>p x e. ret = Some p \<and> dicts kvs1 ! i = Some e \<and> valid_pos (kd e) p x \<and> hd (entries x) = (s, None))
     else ret = None \<and> kvs_kept kvs kvs1"
    using kvstoreDictAddRaw_ok [OF ok i tot(1) k_def, of can] by blast
  show ?thesis
  proof (cases "kvs_map kvs (i, k) = None")
    case False
    then show ?thesis using 1(1,4) kv_state_kept [OF st, of kvs1] ty by (auto simp: k_def Let_def)
  next
    case True
    then obtain p x e where p: "ret = Some p" "dicts kvs1 ! i = Some e" "valid_pos (kd e) p x" "hd (entries x) = (s, None)"
      and m1: "kvs_map kvs1 = (kvs_map kvs)((i, k) \<mapsto> (s, None))" "kvs_total kvs1 = kvs_total kvs + 1"
      using 1(4) by auto
    have vm: "\<not> no_value ty \<Longrightarrow> kvs_map kvs q = Some (t, w) \<Longrightarrow> w \<noteq> None" for q t w using st unfolding kv_state_def by blast
    show ?thesis
    proof (cases v)
      case None
      have "kv_state ty bits (Suc n) kvs1"
        by (rule kv_state_next [OF st 1(2,3)]) (use m1 tot None v in \<open>auto split: if_splits\<close>)
      then show ?thesis using 1(1) True None p(1) m1 ty by (cases p) (simp add: k_def Let_def)
    next
      case (Some w)
      obtain kvs2 where 2: "kvstoreDictSetVal kvs1 i p w = Some kvs2" "kvs_ok kvs2" "kvs_same kvs1 kvs2" "kvs_total kvs2 = kvs_total kvs1"
        "kvs_map kvs2 = (kvs_map kvs1)((i, keyFromStoredKey (kvs_dtype kvs1) s) \<mapsto> (s, Some w))"
        using kvstoreDictSetVal_ok [OF 1(2) _ p(2,3,4), of w] 1(3) i v Some ty by (auto simp: kvs_same_def)
      have kk: "keyFromStoredKey (kvs_dtype kvs1) s = k" using 1(3) by (simp add: kvs_same_def k_def)
      have m2: "kvs_map kvs2 = (kvs_map kvs)((i, k) \<mapsto> (s, Some w))" unfolding 2(5) kk m1(1) by simp
      have "kv_state ty bits (Suc n) kvs2"
        by (rule kv_state_next [OF st 2(2) kvs_same_trans [OF 1(3) 2(3)]]) (use m1(2) m2 2(4) tot vm in \<open>auto split: if_splits\<close>)
      then show ?thesis using 1(1) 2(1) True Some p(1) m2 ty by (cases p) (simp add: k_def Let_def)
    qed
  qed
qed

lemma kv_step_ok:
  assumes st: "kv_state ty bits n kvs" and n: "n < 2 ^ 64 - 1" and al: "kv_allowed ty bits c"
  shows "\<exists>kvs' r. kv_step c kvs = Some (kvs', r) \<and> kv_state ty bits (Suc n) kvs' \<and> kv_spec ty c (kvs_map kvs) = (kvs_map kvs', r)"
proof -
  obtain can cf opr where c: "c = (can, cf, opr)" by (cases c)
  have ok: "kvs_ok kvs" and tot: "kvs_total kvs < 2 ^ 64" "kvs_total kvs \<le> n" and nd: "num_dicts kvs = 2 ^ bits"
    and vm: "\<not> no_value ty \<Longrightarrow> kvs_map kvs k = Some (s, v) \<Longrightarrow> v \<noteq> None" for k s v
    using st n unfolding kv_state_def by (simp, simp, simp, simp add: kvs_ok_def kvs_frame_def, blast)
  note K = kv_state_kept [OF st]
  show ?thesis
  proof (cases opr)
    case (KvAdd i s v)
    then show ?thesis using c al nd kv_add_ok [OF st _ n] by simp
  next
    case (KvDelete i k)
    obtain kvs' where d: "kvstoreDictDelete can cf kvs i k = Some (kvs', kvs_map kvs (i, k) \<noteq> None)" "kvs_ok kvs'" "kvs_same kvs kvs'"
      "kvs_map kvs' = (kvs_map kvs)((i, k) := None)" "kvs_total kvs' \<le> kvs_total kvs"
      using kvstoreDictDelete_ok [OF ok _ tot(1), of i can cf k] al c KvDelete nd by auto
    have "kv_state ty bits (Suc n) kvs'" by (rule kv_state_next [OF st d(2,3)]) (use d(4,5) tot vm in \<open>auto split: if_splits\<close>)
    then show ?thesis using c KvDelete d(1,4) by simp
  next
    case (KvUnlink i k)
    obtain kvs1 r where 1: "kvstoreDictTwoPhaseUnlinkFind can kvs i k = Some (kvs1, r)" "r \<noteq> None \<longleftrightarrow> kvs_map kvs (i, k) \<noteq> None"
      "if r = None then kvs_kept kvs kvs1
       else \<exists>kvs'. kvstoreDictTwoPhaseUnlinkFree can cf kvs1 i r = Some kvs' \<and> kvs_ok kvs' \<and> kvs_same kvs kvs' \<and>
         kvs_map kvs' = (kvs_map kvs)((i, k) := None) \<and> kvs_total kvs' \<le> kvs_total kvs"
      using kvstoreTwoPhase_ok [OF ok _ tot(1), of i can k cf] al c KvUnlink nd by auto
    show ?thesis
    proof (cases r)
      case None
      then have "(kvs_map kvs)((i, k) := None) = kvs_map kvs" using 1(2) None by (intro fun_upd_idem) (simp del: not_None_eq)
      then show ?thesis using c KvUnlink None 1 K [of kvs1] by simp
    next
      case (Some p)
      then obtain kvs' where d: "kvstoreDictTwoPhaseUnlinkFree can cf kvs1 i r = Some kvs'" "kvs_ok kvs'" "kvs_same kvs kvs'"
         "kvs_map kvs' = (kvs_map kvs)((i, k) := None)" "kvs_total kvs' \<le> kvs_total kvs" using 1(3) by auto
      have "kv_state ty bits (Suc n) kvs'" by (rule kv_state_next [OF st d(2,3)]) (use d(4,5) tot vm in \<open>auto split: if_splits\<close>)
      then show ?thesis using c KvUnlink Some 1(1,2) d(1,4) by (cases p) simp
    qed
  next
    case (KvFind i k)
    then show ?thesis using c al nd kvstoreDictFind_ok [OF ok, of i can k] K by auto
  next
    case (KvFetch i k)
    then show ?thesis using c al nd kvstoreDictFetchValue_ok [OF st, of i can k] K by auto
  next
    case (KvExpand m b mem skip)
    then show ?thesis using c kvstoreExpand_ok [OF ok, of can m b mem skip] K by auto
  next
    case (KvDictExpand i m)
    then show ?thesis using c al nd kvstoreDictExpand_ok [OF ok, of i can m] K by auto
  next
    case (KvTryResize m)
    then show ?thesis using c kvstoreTryResizeDicts_ok [OF ok, of can m] K by auto
  next
    case KvEmpty
    obtain kvs' where d: "kvstoreEmpty cf kvs = Some kvs'" "kvs_ok kvs'" "kvs_same kvs kvs'" "kvs_map kvs' = Map.empty" "kvs_total kvs' = 0"
      using kvstoreEmpty_ok [OF ok] by blast
    have "kv_state ty bits (Suc n) kvs'" by (rule kv_state_next [OF st d(2,3)]) (use d(4,5) in auto)
    then show ?thesis using c KvEmpty d(1,4) by simp
  qed
qed

interpretation kvm: bounded_impl "2 ^ 64 - 1" "kv_allowed ty bits" "kv_state ty bits" kvs_map kv_step "kv_spec ty"
  for ty :: "('s, 'k) dictType" and bits
  by unfold_locales (rule kv_step_ok)


lemma kv_run_ok:
  fixes oprs :: "(dictResizeEnable \<times> (nat \<Rightarrow> bool) ptr \<times> ('s, 'k, 'v) kv_op) list"
  assumes "bits \<le> 16" "length oprs < 2 ^ 64" "list_all (kv_allowed ty bits) oprs"
  shows "\<exists>kvs0 kvs rs. kvstoreCreate ty bits flags = Some kvs0 \<and> run_steps kv_step oprs kvs0 = Some (kvs, rs) \<and>
    kv_state ty bits (length oprs) kvs \<and> run_spec (kv_spec ty) oprs Map.empty = (kvs_map kvs, rs)"
proof -
  obtain kvs0 :: "('s, 'k, 'v) kvstore" where 0: "kvstoreCreate ty bits flags = Some kvs0" "kvs_map kvs0 = Map.empty" "kv_state ty bits 0 kvs0"
    using kvstoreCreate_ok [OF assms(1), of ty flags] by (auto simp: kv_state_def)
  show ?thesis using kvm.bounded_run [OF 0(3) _ assms(3)] assms(2) 0(1,2) by auto
qed


subsection \<open>The counters\<close>

lemma unat_key_count:
  assumes "kvs_ok kvs" "kvs_total kvs < 2 ^ 64"
  shows "unat (kvstoreSize kvs) = kvs_total kvs"
proof -
  have "sum_list (map (\<lambda>e. of_nat (kv_size e)) xs) = (of_nat (sum_list (map kv_size xs)) :: u64)" for xs :: "('a, 'b, 'c) kvdict ptr list"
    by (induction xs) simp_all
  then have "kvstoreSize kvs = of_nat (kvs_total kvs)"
    using kvs_okD(2) [OF assms(1)] by (simp add: kvstoreSize_def key_counts_def kvs_total_def)
  then show ?thesis using assms(2) by (simp add: unat_of_nat)
qed

lemma slot_size_card:
  "kvs_ok kvs \<Longrightarrow> i < num_dicts kvs \<Longrightarrow> kv_size (dicts kvs ! i) = card (dom (slot_map (dicts kvs ! i)))"
  using slot_dict_ok [of kvs i] dictSize_card by (cases "dicts kvs ! i") auto

lemma finite_slot_map: "finite (dom (slot_map e))"
  using finite_dict_map by (cases e) auto

lemma dom_kvs_map:
  assumes "kvs_ok kvs"
  shows "dom (kvs_map kvs) = (SIGMA i:{..<num_dicts kvs}. dom (slot_map (dicts kvs ! i)))"
  using kvs_okD(1) [OF assms] by (auto simp: kvs_map_def split: if_splits)

lemma kvs_total_card:
  assumes "kvs_ok kvs"
  shows "kvs_total kvs = card (dom (kvs_map kvs))"
proof -
  have "kvs_total kvs = (\<Sum>i < num_dicts kvs. kv_size (dicts kvs ! i))"
    unfolding kvs_total_def sum_list_sum_nth using kvs_okD(1) [OF assms] by (simp add: atLeast0LessThan)
  also have "\<dots> = (\<Sum>i < num_dicts kvs. card (dom (slot_map (dicts kvs ! i))))"
    using slot_size_card [OF assms] by (intro sum.cong) auto
  also have "\<dots> = card (SIGMA i:{..<num_dicts kvs}. dom (slot_map (dicts kvs ! i)))"
    by (rule card_SigmaI [symmetric]) (simp_all add: finite_slot_map)
  finally show ?thesis unfolding dom_kvs_map [OF assms] .
qed

lemma slot_non_empty:
  assumes "kvs_ok kvs" "i < num_dicts kvs"
  shows "kv_size (dicts kvs ! i) \<noteq> 0 \<longleftrightarrow> (\<exists>k. kvs_map kvs (i, k) \<noteq> None)"
  unfolding slot_size_card [OF assms] kvs_map_slot [OF assms]
  using finite_slot_map [of "dicts kvs ! i"] by (simp add: card_eq_0_iff fun_eq_iff del: not_None_eq)

lemma sum_list_indicator: "sum_list (map (\<lambda>e. if P e then 1 else 0 :: int) xs) = int (card {i. i < length xs \<and> P (xs ! i)})"
  by (simp add: length_filter_conv_card [symmetric]) (induction xs; simp)

lemma non_empty_card:
  assumes "kvs_ok kvs"
  shows "kvstoreNumNonEmptyDicts kvs = int (card (fst ` dom (kvs_map kvs)))"
proof -
  have "i < length (dicts kvs) \<and> kv_size (dicts kvs ! i) \<noteq> 0 \<longleftrightarrow> i \<in> fst ` dom (kvs_map kvs)" for i
  proof (cases "i < num_dicts kvs")
    case True
    have "i \<in> fst ` dom (kvs_map kvs) \<longleftrightarrow> (\<exists>k. (i, k) \<in> dom (kvs_map kvs))" by force
    then show ?thesis using slot_non_empty [OF assms True] True kvs_okD(1) [OF assms] unfolding domIff by (simp del: not_None_eq)
  next
    case False
    then show ?thesis using kvs_okD(1) [OF assms] unfolding dom_kvs_map [OF assms] by auto
  qed
  then have "{i. i < length (dicts kvs) \<and> kv_size (dicts kvs ! i) \<noteq> 0} = fst ` dom (kvs_map kvs)" by blast
  then show ?thesis using kvs_okD(2) [OF assms] sum_list_indicator [of "\<lambda>e. kv_size e \<noteq> 0" "dicts kvs"]
    by (simp add: kvstoreNumNonEmptyDicts_def key_counts_def)
qed

lemma kvstoreBuckets_ok:
  assumes "kvs_ok kvs"
  shows "\<exists>n. kvstoreBuckets kvs = Some n \<and> (of_nat n :: u64) = of_nat (sum_list (map kv_buckets (dicts kvs)))"
proof (cases "num_dicts kvs = 1")
  case True
  then obtain e where "dicts kvs = [e]" using kvs_okD(1) [OF assms] by (auto simp: length_Suc_conv)
  then show ?thesis using True getDict_eq [OF assms, of 0] by (cases e) (simp_all add: kvstoreBuckets_def)
next
  case False
  have "sum_list (map (\<lambda>e. of_nat (kv_buckets e)) xs) = (of_nat (sum_list (map kv_buckets xs)) :: u64)" for xs :: "('a, 'b, 'c) kvdict ptr list"
    by (induction xs) simp_all
  then show ?thesis using False kvs_okD(3) [OF assms] by (simp add: kvstoreBuckets_def log_counts_def)
qed

lemma rehashing_count:
  assumes "kvs_ok kvs"
  shows "distinct (rehashing kvs) \<and> kvstoreDictRehashingCount kvs = card {i. i < length (dicts kvs) \<and> kv_log (dicts kvs ! i) \<noteq> None}"
proof -
  have "distinct (rehashing kvs)" "set (rehashing kvs) = {i. i < length (dicts kvs) \<and> kv_log (dicts kvs ! i) \<noteq> None}"
    using kvs_okD(3) [OF assms] unfolding log_counts_def by blast+
  then show ?thesis using distinct_card by (metis kvstoreDictRehashingCount_def)
qed


subsection \<open>Searching for a slot\<close>

lemma kvs_tree:
  assumes ok: "kvs_ok kvs" and tot: "kvs_total kvs < 2 ^ 64 - 1" and n: "num_dicts kvs \<noteq> 1"
  shows "\<exists>ft. dict_sizes kvs = Some ft \<and> fw_valid ft \<and> ft_size ft = int (num_dicts kvs) \<and>
    fw_rep ft (\<lambda>i. of_nat (kv_size (dicts kvs ! nat i))) \<and>
    (\<forall>i. 0 \<le> i \<and> i < int (num_dicts kvs) \<longrightarrow> unat (fw_elem ft i) = kv_size (dicts kvs ! nat i))"
proof -
  obtain ft where ft: "dict_sizes kvs = Some ft" "ft_size ft = int (num_dicts kvs)" "fw_rep ft (\<lambda>i. of_nat (kv_size (dicts kvs ! nat i)))"
    using kvs_okD(2) [OF ok] n by (auto simp: key_counts_def)
  have t: "sum_list (map kv_size (dicts kvs)) < 2 ^ 64" using tot by (simp add: kvs_total_def)
  have "prefix (\<lambda>i. of_nat (kv_size (dicts kvs ! nat i))) (ft_size ft) = kvs_total kvs"
    using prefix_sizes [OF t] kvs_okD(1) [OF ok] ft(2) by (simp add: kvs_total_def)
  then have "fw_valid ft" using fw_valid_rep [OF ft(3)] tot by simp
  moreover have "unat (fw_elem ft i) = kv_size (dicts kvs ! nat i)" if "0 \<le> i" "i < int (num_dicts kvs)" for i
    using fw_elem_rep [OF ft(3) that(1)] unat_kv_size [OF t, of "nat i"] that ft(2) kvs_okD(1) [OF ok] by simp
  ultimately show ?thesis using ft by auto
qed

text \<open>The store keeps the contract of the index of slots.\<close>

definition kvs_bounded :: "('s, 'k, 'v) kvstore \<Rightarrow> bool" where
  "kvs_bounded kvs \<longleftrightarrow> kvs_ok kvs \<and> kvs_total kvs < 2 ^ 64 - 1"

interpretation kvi: slot_index kvs_bounded "\<lambda>kvs. int (num_dicts kvs)" "\<lambda>kvs i. kv_size (dicts kvs ! nat i)"
  kvstoreGetFirstNonEmptyDictIndex kvstoreGetNextNonEmptyDictIndex
proof unfold_locales
  fix kvs :: "('s, 'k, 'v) kvstore" and i :: int
  assume b: "kvs_bounded kvs" and i: "0 \<le> i" "i < int (num_dicts kvs)"
  then have ok: "kvs_ok kvs" and tot: "kvs_total kvs < 2 ^ 64 - 1" by (simp_all add: kvs_bounded_def)
  show "(\<exists>j. kvstoreGetNextNonEmptyDictIndex kvs i = Some j \<and> i < j \<and> j < int (num_dicts kvs) \<and> 0 < kv_size (dicts kvs ! nat j) \<and>
      (\<forall>k. i < k \<and> k < j \<longrightarrow> kv_size (dicts kvs ! nat k) = 0)) \<or>
    kvstoreGetNextNonEmptyDictIndex kvs i = Some (- 1) \<and> (\<forall>k. i < k \<and> k < int (num_dicts kvs) \<longrightarrow> kv_size (dicts kvs ! nat k) = 0)"
  proof (cases "num_dicts kvs = 1")
    case True
    then show ?thesis using i by (simp add: kvstoreGetNextNonEmptyDictIndex_def chk_def)
  next
    case False
    obtain ft where ft: "dict_sizes kvs = Some ft" "fw_valid ft" "ft_size ft = int (num_dicts kvs)"
      "\<forall>i. 0 \<le> i \<and> i < int (num_dicts kvs) \<longrightarrow> unat (fw_elem ft i) = kv_size (dicts kvs ! nat i)"
      using kvs_tree [OF ok tot False] by blast
    show ?thesis using fwi.next_ok [OF ft(2) i(1)] i ft(1,3,4) False by (auto simp: kvstoreGetNextNonEmptyDictIndex_def)
  qed
  assume ne: "0 < kv_size (dicts kvs ! nat i)"
  have len: "nat i < length (dicts kvs)" using i kvs_okD(1) [OF ok] by simp
  have "kvs_total kvs \<noteq> 0" using ne member_le_sum_list [of "kv_size (dicts kvs ! nat i)" "map kv_size (dicts kvs)"] len by (auto simp: kvs_total_def)
  then have s0: "kvstoreSize kvs \<noteq> 0" using unat_key_count [OF ok] tot by auto
  show "\<exists>j. kvstoreGetFirstNonEmptyDictIndex kvs = Some j \<and> 0 \<le> j \<and> j < int (num_dicts kvs) \<and> 0 < kv_size (dicts kvs ! nat j) \<and>
      (\<forall>k. 0 \<le> k \<and> k < j \<longrightarrow> kv_size (dicts kvs ! nat k) = 0)"
  proof (cases "num_dicts kvs = 1")
    case True
    then show ?thesis using i ne s0 by (simp add: kvstoreGetFirstNonEmptyDictIndex_def)
  next
    case False
    obtain ft where ft: "dict_sizes kvs = Some ft" "fw_valid ft" "ft_size ft = int (num_dicts kvs)"
      "\<forall>i. 0 \<le> i \<and> i < int (num_dicts kvs) \<longrightarrow> unat (fw_elem ft i) = kv_size (dicts kvs ! nat i)"
      using kvs_tree [OF ok tot False] by blast
    show ?thesis using fwi.first_ok [OF ft(2) i(1)] i ne ft(1,3,4) False s0 by (auto simp: kvstoreGetFirstNonEmptyDictIndex_def)
  qed
qed

lemma prefix_take:
  assumes t: "sum_list (map kv_size xs) < 2 ^ 64" and i: "i \<le> length xs"
  shows "prefix (\<lambda>i. of_nat (kv_size (xs ! nat i))) (int i) = sum_list (map kv_size (take i xs))"
proof -
  have "sum_list (map kv_size (take i xs)) \<le> sum_list (map kv_size xs)"
    by (subst (2) append_take_drop_id [of i xs, symmetric]) (simp only: map_append sum_list_append)
  then have "prefix (\<lambda>j. of_nat (kv_size (take i xs ! nat j))) (int (length (take i xs))) = sum_list (map kv_size (take i xs))"
    using t by (intro prefix_sizes) simp
  moreover have "prefix (\<lambda>j. of_nat (kv_size (take i xs ! nat j))) (int i) = prefix (\<lambda>j. of_nat (kv_size (xs ! nat j))) (int i)"
    by (rule prefix_cong) simp
  ultimately show ?thesis using i by simp
qed

lemma findIndex_ok:
  assumes b: "kvs_bounded kvs" and t: "0 < target" "unat target \<le> kvs_total kvs"
  shows "\<exists>i < num_dicts kvs. kvstoreFindDictIndexByKeyIndex kvs target = Some (int i) \<and>
    sum_list (map kv_size (take i (dicts kvs))) < unat target \<and> unat target \<le> sum_list (map kv_size (take (Suc i) (dicts kvs)))"
proof -
  have ok: "kvs_ok kvs" and tot: "kvs_total kvs < 2 ^ 64 - 1" using b by (simp_all add: kvs_bounded_def)
  have sz: "unat (kvstoreSize kvs) = kvs_total kvs" using unat_key_count [OF ok] tot by simp
  have tp: "0 < unat target" using t(1) by (simp add: unat_gt_0)
  have le: "target \<le> kvstoreSize kvs" "kvstoreSize kvs \<noteq> 0" using t sz tp by (auto simp: word_le_nat_alt)
  show ?thesis
  proof (cases "num_dicts kvs = 1")
    case True
    then show ?thesis using tp t(2) kvs_okD(1) [OF ok] by (simp add: kvstoreFindDictIndexByKeyIndex_def kvs_total_def)
  next
    case False
    let ?a = "\<lambda>i. of_nat (kv_size (dicts kvs ! nat i)) :: u64"
    obtain ft where ft: "dict_sizes kvs = Some ft" "ft_size ft = int (num_dicts kvs)" "fw_rep ft ?a"
      using kvs_tree [OF ok tot False] by blast
    have lt: "sum_list (map kv_size (dicts kvs)) < 2 ^ 64" using tot by (simp add: kvs_total_def)
    note pt = prefix_take [OF lt]
    have pn: "prefix ?a (ft_size ft) = kvs_total kvs" using pt [of "num_dicts kvs"] ft(2) kvs_okD(1) [OF ok] by (simp add: kvs_total_def)
    have "unat (ft_total ft) = kvs_total kvs"
      using ft(3) unat_prefix_sum [of ?a "ft_size ft" "ft_size ft"] pn tot by (simp add: fw_rep_def)
    then have "target \<le> ft_total ft" using t(2) by (simp add: word_le_nat_alt)
    then obtain r where r: "fwTreeFindIndex ft target = Some r" "0 \<le> r" "r < ft_size ft" "prefix ?a r < unat target" "unat target \<le> prefix ?a (r + 1)"
      using find_index_rep [OF ft(3) _ t(1)] pn tot by auto
    then obtain i where i: "r = int i" "i < num_dicts kvs" using ft(2) by (metis nonneg_int_cases of_nat_less_iff)
    have "prefix ?a (int i + 1) = prefix ?a (int (Suc i))" by (simp add: add.commute)
    then show ?thesis using r i pt [of i] pt [of "Suc i"] le False ft(1) kvs_okD(1) [OF ok]
      by (intro exI [of _ i]) (simp add: kvstoreFindDictIndexByKeyIndex_def chk_def)
  qed
qed

lemma first_slot_ok:
  assumes b: "kvs_bounded kvs" and t: "0 < target" "unat (target :: u64) \<le> kvs_total kvs"
  shows "\<exists>i < num_dicts kvs. kvstoreGetFirstNonEmptyDictIndex kvs = Some (int i) \<and> kv_size (dicts kvs ! i) \<noteq> 0 \<and>
    (\<forall>j < i. kv_size (dicts kvs ! j) = 0)"
proof -
  have len: "length (dicts kvs) = num_dicts kvs" using b kvs_okD(1) by (auto simp: kvs_bounded_def)
  have "kvs_total kvs \<noteq> 0" using t by (auto simp: word_less_nat_alt)
  then obtain i where i: "i < num_dicts kvs" "kv_size (dicts kvs ! i) \<noteq> 0"
    using len by (auto simp: kvs_total_def sum_list_eq_0_iff in_set_conv_nth)
  obtain j where j: "kvstoreGetFirstNonEmptyDictIndex kvs = Some j" "0 \<le> j" "j < int (num_dicts kvs)" "0 < kv_size (dicts kvs ! nat j)"
    "\<forall>k. 0 \<le> k \<and> k < j \<longrightarrow> kv_size (dicts kvs ! nat k) = 0"
    using kvi.first_ok [OF b, of "int i"] i by auto
  have "kv_size (dicts kvs ! k) = 0" if "k < nat j" for k using j(5) [rule_format, of "int k"] that by simp
  then show ?thesis using j by (intro exI [of _ "nat j"]) auto
qed

lemma next_slot_ok:
  assumes b: "kvs_bounded kvs" and d: "didx < num_dicts kvs"
  shows "(\<exists>i < num_dicts kvs. kvstoreGetNextNonEmptyDictIndex kvs (int didx) = Some (int i) \<and> didx < i \<and> kv_size (dicts kvs ! i) \<noteq> 0 \<and>
        (\<forall>j. didx < j \<and> j < i \<longrightarrow> kv_size (dicts kvs ! j) = 0)) \<or>
      kvstoreGetNextNonEmptyDictIndex kvs (int didx) = Some (- 1) \<and> (\<forall>j < num_dicts kvs. didx < j \<longrightarrow> kv_size (dicts kvs ! j) = 0)"
proof -
  have d': "int didx < int (num_dicts kvs)" using d by simp
  show ?thesis
    using kvi.next_ok [OF b of_nat_0_le_iff d']
  proof (elim disjE)
    assume "\<exists>j. kvstoreGetNextNonEmptyDictIndex kvs (int didx) = Some j \<and> int didx < j \<and> j < int (num_dicts kvs) \<and>
        0 < kv_size (dicts kvs ! nat j) \<and> (\<forall>k. int didx < k \<and> k < j \<longrightarrow> kv_size (dicts kvs ! nat k) = 0)"
    then obtain j where j: "kvstoreGetNextNonEmptyDictIndex kvs (int didx) = Some j" "int didx < j" "j < int (num_dicts kvs)"
      "0 < kv_size (dicts kvs ! nat j)" "\<forall>k. int didx < k \<and> k < j \<longrightarrow> kv_size (dicts kvs ! nat k) = 0" by blast
    have "kv_size (dicts kvs ! k) = 0" if "didx < k" "k < nat j" for k using j(5) [rule_format, of "int k"] that by simp
    then show ?thesis using j by (intro disjI1 exI [of _ "nat j"]) auto
  next
    assume *: "kvstoreGetNextNonEmptyDictIndex kvs (int didx) = Some (- 1) \<and> (\<forall>k. int didx < k \<and> k < int (num_dicts kvs) \<longrightarrow> kv_size (dicts kvs ! nat k) = 0)"
    have "kv_size (dicts kvs ! k) = 0" if "didx < k" "k < num_dicts kvs" for k using conjunct2 [OF *, rule_format, of "int k"] that by simp
    then show ?thesis using * by blast
  qed
qed


subsection \<open>Cursors\<close>

lemma kvs_frame_bits: "kvs_frame kvs \<Longrightarrow> num_dicts kvs = 2 ^ num_dicts_bits kvs" "kvs_frame kvs \<Longrightarrow> num_dicts_bits kvs \<le> 16"
  by (simp_all add: kvs_frame_def)

lemma num_dicts_mask: "(of_nat (2 ^ b - 1) :: u64) = mask b"
  by (simp add: mask_eq_exp_minus_1 of_nat_diff)

lemma cursor_pair:
  assumes "b \<le> 16" "didx < 2 ^ b" "unat (c :: u64) < 2 ^ (64 - b)"
  shows "unat ((push_bit b c OR word_of_int (int didx)) AND mask b) = didx \<and> drop_bit b (push_bit b c OR word_of_int (int didx)) = c"
proof -
  let ?x = "of_nat didx :: u64"
  have lt: "didx < 2 ^ 64" using assms(2) power_increasing [of b 64 "2 :: nat"] assms(1) by simp
  have ux: "unat ?x = didx" using lt by (simp add: unat_of_nat)
  have xb: "\<not> bit ?x n" if "b \<le> n" for n
  proof -
    have "take_bit b ?x = ?x" by (rule word_unat_eq_iff [THEN iffD2]) (use ux assms(2) in \<open>simp add: unsigned_take_bit_eq take_bit_nat_eq_self\<close>)
    then show ?thesis using that by (metis bit_take_bit_iff not_less)
  qed
  have cb: "\<not> bit c n" if "64 - b \<le> n" for n
  proof -
    have "take_bit (64 - b) c = c" by (rule word_unat_eq_iff [THEN iffD2]) (use assms(3) in \<open>simp add: unsigned_take_bit_eq take_bit_nat_eq_self\<close>)
    then show ?thesis using that by (metis bit_take_bit_iff not_less)
  qed
  have 1: "(push_bit b c OR ?x) AND mask b = ?x"
    unfolding take_bit_eq_mask [symmetric] take_bit_or take_bit_push_bit
    by (rule bit_word_eqI) (metis bit_or_iff bit_push_bit_iff bit_take_bit_iff diff_self_eq_0 not_less or.left_neutral push_bit_of_0 take_bit_0 xb)
  have 2: "drop_bit b (push_bit b c OR ?x) = c"
  proof (rule bit_word_eqI)
    fix n assume "n < LENGTH(64)"
    have "b + n < 64" if "bit c n" using cb [of n] that by linarith
    then show "bit (drop_bit b (push_bit b c OR ?x)) n = bit c n" using xb [of "b + n"] by (auto simp: bit_simps)
  qed
  show ?thesis using 1 2 ux by simp
qed

lemma cursor_unpack:
  assumes "num_dicts kvs = 2 ^ num_dicts_bits kvs" "num_dicts_bits kvs \<le> 16" "didx < num_dicts kvs" "unat c < 2 ^ (64 - num_dicts_bits kvs)"
  shows "getAndClearDictIndexFromCursor kvs (addDictIndexToCursor kvs (int didx) c) = (didx, c)"
  using cursor_pair [of "num_dicts_bits kvs" didx c] assms
  by (cases "num_dicts_bits kvs = 0") (simp_all add: getAndClearDictIndexFromCursor_def addDictIndexToCursor_def num_dicts_mask [simplified])

lemma cursor_repack:
  assumes "num_dicts kvs = 2 ^ num_dicts_bits kvs" "num_dicts_bits kvs \<le> 16"
  shows "case getAndClearDictIndexFromCursor kvs v of (i, c) \<Rightarrow> addDictIndexToCursor kvs (int i) c = v"
proof -
  have "push_bit b (drop_bit b v) OR (v AND mask b) = v" for b by (rule bit_word_eqI) (auto simp: bit_simps)
  then show ?thesis using assms
    by (simp add: getAndClearDictIndexFromCursor_def addDictIndexToCursor_def num_dicts_mask [simplified])
qed

lemmas cursor_roundtrip = cursor_unpack [OF kvs_frame_bits(1) kvs_frame_bits(2)]

lemma cursor_index: "kvs_frame kvs \<Longrightarrow> fst (getAndClearDictIndexFromCursor kvs v) < num_dicts kvs"
  using and_mask_less [of "num_dicts_bits kvs" v]
  by (simp add: kvs_frame_def getAndClearDictIndexFromCursor_def num_dicts_mask [simplified])


subsection \<open>Scans\<close>

text \<open>Calls of \<open>kvstoreScan\<close> one after the other, each with the cursor that the one before returned, on the states the store
  has when they are made. The callback collects the keys.\<close>

fun kvs_scan_seq :: "(nat \<Rightarrow> bool) ptr \<Rightarrow> ('s, 'k, 'v) kvstore list \<Rightarrow> u64 \<Rightarrow> 's list \<Rightarrow> (u64 \<times> 's list) res" where
  "kvs_scan_seq cf [] v ks = Some (v, ks)"
| "kvs_scan_seq cf (kvs # kvss) v ks = do {
     (_, v, ks) \<leftarrow> kvstoreScan cf kvs v (- 1) (\<lambda>ks s _. ks @ [s]) None ks;
     kvs_scan_seq cf kvss v ks }"

text \<open>The tables are such that the cursors of the dicts fit into the 48 bits left for them.\<close>

definition scannable :: "('s, 'k, 'v) kvstore \<Rightarrow> bool" where
  "scannable kvs \<longleftrightarrow> kvs_bounded kvs \<and> (\<forall>e. Some e \<in> set (dicts kvs) \<longrightarrow> scan_exp (kd e) \<le> 48)"

text \<open>The cursor has not passed the place \<open>h\<close> of slot \<open>i\<close>.\<close>

definition before :: "('s, 'k, 'v) kvstore \<Rightarrow> nat \<Rightarrow> nat \<Rightarrow> u64 \<Rightarrow> bool" where
  "before kvs i h v \<longleftrightarrow> (let (didx, c) = getAndClearDictIndexFromCursor kvs v in didx < i \<or> didx = i \<and> rc c \<le> h)"

text \<open>One call on the dict of a slot: the keys it passes on and the cursor it leaves.\<close>

lemma scan_slot_ok:
  assumes ok: "kvs_ok kvs" and i: "i < num_dicts kvs" and e: "dicts kvs ! i = Some e" and a: "scan_exp (kd e) \<le> 48"
  shows "\<exists>c' ys. (\<forall>ks. dictScan (kd e) c (\<lambda>ks s _. ks @ [s]) ks = Some (kd e, c', ks @ ys)) \<and> unat c' < 2 ^ 48 \<and>
    (\<forall>k. kvs_map kvs (i, k) \<noteq> None \<longrightarrow> rc c \<le> rc (hashFunction (kvs_dtype kvs) k) \<longrightarrow>
       (\<exists>s \<in> set ys. keyFromStoredKey (kvs_dtype kvs) s = k) \<or> c' \<noteq> 0 \<and> rc c' \<le> rc (hashFunction (kvs_dtype kvs) k))"
proof -
  have d: "dict_ok (kd e)" "dtype (kd e) = kvs_dtype kvs" using slot_dict_ok [OF ok i e] by auto
  have mp: "kvs_map kvs (i, k) = dict_map (kd e) k" for k using kvs_map_slot [OF ok i, of k] e by simp
  show ?thesis
  proof (cases "contents (kd e) = {#}")
    case True
    then show ?thesis using dictSize_contents [OF d(1)] dict_map_empty [OF d(1)] mp
      by (intro exI [of _ 0] exI [of _ "[]"]) (simp add: dictScan_def)
  next
    case False
    obtain c' xs where s: "\<forall>ks. dictScan (kd e) c (\<lambda>ks s _. ks @ [s]) ks = Some (kd e, c', ks @ map fst xs)" "emits (kd e) c c' xs"
      using dictScan_collect [OF d(1) False] by blast
    let ?a = "scan_exp (kd e)" and ?n = "next_block (scan_exp (kd e)) (rc c)"
    have a64: "?a \<le> 64" using a by simp
    have nb: "rc c < ?n" "?n \<le> 2 ^ 64" using next_block_bounds [OF a64, of "rc c"] rc_less [of c] by auto
    have rc': "rc c' = ?n mod 2 ^ 64" using s(2) by (simp add: emits_def)
    have "2 ^ (64 - ?a) dvd rc c'" unfolding rc' using next_block_dvd [of ?a "rc c"] le_imp_power_dvd [of "64 - ?a" 64 "2 :: nat"] by (intro dvd_mod) simp_all
    then have "\<forall>n. ?a \<le> n \<longrightarrow> \<not> bit c' n" using dvd_rc [OF a64] by simp
    then have "take_bit 48 c' = c'" using a by (intro bit_word_eqI) (auto simp: bit_simps intro: ccontr)
    then have fit: "unat c' < 2 ^ 48" by (metis take_bit_nat_less_exp unsigned_take_bit_eq)
    have "(\<exists>s \<in> set (map fst xs). keyFromStoredKey (kvs_dtype kvs) s = k) \<or> c' \<noteq> 0 \<and> rc c' \<le> rc (hashFunction (kvs_dtype kvs) k)"
      if k: "kvs_map kvs (i, k) \<noteq> None" "rc c \<le> rc (hashFunction (kvs_dtype kvs) k)" for k
    proof (cases "rc (hashFunction (kvs_dtype kvs) k) < ?n")
      case True
      obtain x where x: "x \<in># contents (kd e)" "key_of (kd e) x = k" using k(1) mp dict_map_None [OF d(1), of k] by auto
      have "x \<in> set xs" using s(2) x True k(2) d(2) unfolding emits_def by (cases x) (auto simp: dictGetHash_def)
      then show ?thesis using x(2) d(2) by auto
    next
      case False
      then have "?n < 2 ^ 64" using rc_less [of "hashFunction (kvs_dtype kvs) k"] by simp
      then have "rc c' = ?n" using rc' by simp
      then show ?thesis using False nb(1) rc_zero [of c'] by auto
    qed
    then show ?thesis using s(1) fit by (intro exI [of _ c'] exI [of _ "map fst xs"]) blast
  qed
qed


lemma before_cong: "num_dicts kvs' = num_dicts kvs \<Longrightarrow> num_dicts_bits kvs' = num_dicts_bits kvs \<Longrightarrow> before kvs' i h v = before kvs i h v"
  by (simp add: before_def getAndClearDictIndexFromCursor_def)

lemma before_same: "kvs_same kvs kvs' \<Longrightarrow> before kvs' i h v = before kvs i h v"
  by (rule before_cong) (simp_all add: kvs_same_def)

lemma rc_0 [simp]: "rc 0 = 0"
  by (simp add: rc_zero)

text \<open>A dict is finished: the next slot is not after a slot that has keys.\<close>

lemma next_cursor_ok:
  assumes b: "kvs_bounded kvs" and d: "didx < num_dicts kvs"
  shows "\<exists>n. kvstoreGetNextNonEmptyDictIndex kvs (int didx) = Some n \<and>
    (i < num_dicts kvs \<longrightarrow> didx < i \<longrightarrow> kvs_map kvs (i, k) \<noteq> None \<longrightarrow>
       n \<noteq> - 1 \<and> addDictIndexToCursor kvs n 0 \<noteq> 0 \<and> before kvs i h (addDictIndexToCursor kvs n 0))"
proof -
  have ok: "kvs_ok kvs" and fr: "kvs_frame kvs" using b by (simp_all add: kvs_bounded_def kvs_ok_def)
  obtain n where n: "kvstoreGetNextNonEmptyDictIndex kvs (int didx) = Some n" using kvi.next_total [OF b, of "int didx"] d by auto
  have "n \<noteq> - 1 \<and> addDictIndexToCursor kvs n 0 \<noteq> 0 \<and> before kvs i h (addDictIndexToCursor kvs n 0)"
    if i: "i < num_dicts kvs" "didx < i" "kvs_map kvs (i, k) \<noteq> None"
  proof -
    have "kv_size (dicts kvs ! i) \<noteq> 0" using slot_non_empty [OF ok i(1)] i(3) by blast
    then have r: "int didx < n" "n \<le> int i" using kvi.next_never_skips [OF b, of "int didx" "int i"] i n by auto
    define j where "j = nat n"
    have j: "n = int j" "didx < j" "j \<le> i" using r by (auto simp: j_def)
    have "getAndClearDictIndexFromCursor kvs (addDictIndexToCursor kvs n 0) = (j, 0)"
      unfolding j(1) by (rule cursor_roundtrip [OF fr fr]) (use j(3) i(1) in simp_all)
    moreover have "getAndClearDictIndexFromCursor kvs 0 = (0, 0)" by (simp add: getAndClearDictIndexFromCursor_def)
    ultimately show ?thesis using j by (auto simp: before_def)
  qed
  then show ?thesis using n by blast
qed

lemma kvstoreScan_ok:
  assumes sc: "scannable kvs" and i: "i < num_dicts kvs" and h: "h = rc (hashFunction (kvs_dtype kvs) k)"
  shows "\<exists>kvs' v' ys. (\<forall>ks. kvstoreScan cf kvs v (- 1) (\<lambda>ks s _. ks @ [s]) None ks = Some (kvs', v', ks @ ys)) \<and>
    (kvs_map kvs (i, k) \<noteq> None \<longrightarrow> before kvs i h v \<longrightarrow>
       (\<exists>s \<in> set ys. keyFromStoredKey (kvs_dtype kvs) s = k) \<or> v' \<noteq> 0 \<and> before kvs i h v')"
proof -
  have b: "kvs_bounded kvs" and ok: "kvs_ok kvs" and fr: "kvs_frame kvs" using sc by (simp_all add: scannable_def kvs_bounded_def kvs_ok_def)
  obtain didx c where dc: "getAndClearDictIndexFromCursor kvs v = (didx, c)" by (cases "getAndClearDictIndexFromCursor kvs v")
  have d: "didx < num_dicts kvs" using cursor_index [OF fr, of v] dc by simp
  have bef: "before kvs i h v \<longleftrightarrow> didx < i \<or> didx = i \<and> rc c \<le> h" by (simp add: before_def dc)
  show ?thesis
  proof (cases "dicts kvs ! didx")
    case None
    have ne: "kvs_map kvs (i, k) \<noteq> None \<Longrightarrow> didx \<noteq> i" using kvs_map_slot [OF ok d, of k] None by auto
    obtain n where n: "kvstoreGetNextNonEmptyDictIndex kvs (int didx) = Some n"
      "i < num_dicts kvs \<longrightarrow> didx < i \<longrightarrow> kvs_map kvs (i, k) \<noteq> None \<longrightarrow>
       n \<noteq> - 1 \<and> addDictIndexToCursor kvs n 0 \<noteq> 0 \<and> before kvs i h (addDictIndexToCursor kvs n 0)"
      using next_cursor_ok [OF b d] by blast
    have "kvstoreScan cf kvs v (- 1) (\<lambda>ks s _. ks @ [s]) None ks = Some (kvs, if n = - 1 then 0 else addDictIndexToCursor kvs n 0, ks)" for ks
      using getDict_eq [OF ok d] None dc n(1) by (simp add: kvstoreScan_def)
    then show ?thesis using n(2) ne bef i by (intro exI [of _ kvs] exI [of _ "if n = - 1 then 0 else addDictIndexToCursor kvs n 0"] exI [of _ "[]"]) auto
  next
    case (Some e)
    have "Some e \<in> set (dicts kvs)" using Some d kvs_okD(1) [OF ok] by (metis nth_mem)
    then have a: "scan_exp (kd e) \<le> 48" using sc by (simp add: scannable_def)
    obtain c' ys where s: "\<forall>ks. dictScan (kd e) c (\<lambda>ks s _. ks @ [s]) ks = Some (kd e, c', ks @ ys)" "unat c' < 2 ^ 48"
      "\<forall>k. kvs_map kvs (didx, k) \<noteq> None \<longrightarrow> rc c \<le> rc (hashFunction (kvs_dtype kvs) k) \<longrightarrow>
       (\<exists>s \<in> set ys. keyFromStoredKey (kvs_dtype kvs) s = k) \<or> c' \<noteq> 0 \<and> rc c' \<le> rc (hashFunction (kvs_dtype kvs) k)"
      using scan_slot_ok [OF ok d Some a] by blast
    have "kept (kd e) (kd e)" using kept_refl slot_dict_ok [OF ok d Some] by auto
    then obtain k1 where k1: "put_dict kvs didx (kd e) = Some k1" "kvs_kept kvs k1" using put_kept [OF ok d Some] by blast
    obtain k2 where k2: "freeDictIfNeeded cf k1 didx = Some k2" "kvs_kept k1 k2"
      using freeDictIfNeeded_ok [of k1 didx cf] k1(2) d by (auto simp: kvs_kept_def kvs_same_def)
    have kk: "kvs_kept kvs k2" by (rule kvs_kept_trans [OF k1(2) k2(2)])
    then have b2: "kvs_bounded k2" "didx < num_dicts k2" "kvs_map k2 = kvs_map kvs" "kvs_same kvs k2" "num_dicts k2 = num_dicts kvs" "kvs_frame k2"
      using b d by (auto simp: kvs_bounded_def kvs_kept_def kvs_same_def kvs_ok_def)
    obtain n where n: "kvstoreGetNextNonEmptyDictIndex k2 (int didx) = Some n"
      "i < num_dicts k2 \<longrightarrow> didx < i \<longrightarrow> kvs_map k2 (i, k) \<noteq> None \<longrightarrow>
       n \<noteq> - 1 \<and> addDictIndexToCursor k2 n 0 \<noteq> 0 \<and> before k2 i h (addDictIndexToCursor k2 n 0)"
      using next_cursor_ok [OF b2(1,2)] by blast
    define v' where "v' = (if c' = 0 then if n = - 1 then 0 else addDictIndexToCursor k2 n 0 else addDictIndexToCursor k2 (int didx) c')"
    have run: "\<forall>ks. kvstoreScan cf kvs v (- 1) (\<lambda>ks s _. ks @ [s]) None ks = Some (k2, v', ks @ ys)"
      using getDict_eq [OF ok d] Some dc n(1) s(1) k1(1) k2(1) by (auto simp: kvstoreScan_def v'_def)
    have fit: "unat c' < 2 ^ (64 - num_dicts_bits k2)"
      using s(2) b2(6) power_increasing [of 48 "64 - num_dicts_bits k2" "2 :: nat"] by (auto simp: kvs_frame_def intro: less_le_trans)
    have rt: "getAndClearDictIndexFromCursor k2 (addDictIndexToCursor k2 (int didx) c') = (didx, c')" by (rule cursor_roundtrip [OF b2(6,6,2) fit])
    have g0: "getAndClearDictIndexFromCursor k2 0 = (0, 0)" by (simp add: getAndClearDictIndexFromCursor_def)
    have "(\<exists>s \<in> set ys. keyFromStoredKey (kvs_dtype kvs) s = k) \<or> v' \<noteq> 0 \<and> before k2 i h v'"
      if k: "kvs_map kvs (i, k) \<noteq> None" and bk: "didx < i \<or> didx = i \<and> rc c \<le> h"
    proof (cases "c' = 0")
      case True
      then show ?thesis using s(3) k bk n(2) i b2(3,5) h by (auto simp: v'_def)
    next
      case False
      then have "v' \<noteq> 0" using rt g0 by (auto simp: v'_def)
      moreover have "before k2 i h v' \<longleftrightarrow> didx < i \<or> didx = i \<and> rc c' \<le> h" using False rt by (simp add: v'_def before_def)
      ultimately show ?thesis using s(3) k bk h by auto
    qed
    then show ?thesis using run bef before_same [OF b2(4)] by blast
  qed
qed

lemma kvs_scan_seq_covers:
  assumes "kvs_scan_seq cf kvss v ks = Some (0, ks')" "kvss \<noteq> []"
    and "\<forall>kvs \<in> set kvss. scannable kvs \<and> num_dicts_bits kvs = bits \<and> kvs_dtype kvs = ty \<and> kvs_map kvs (i, k) \<noteq> None"
    and "before (hd kvss) i (rc (hashFunction ty k)) v"
  shows "\<exists>s \<in> set ks'. keyFromStoredKey ty s = k"
  using assms
proof (induction kvss arbitrary: v ks)
  case (Cons kvs kvss)
  have mono: "set ks \<subseteq> set ks'" if "kvs_scan_seq cf ls v ks = Some (w, ks')" "\<forall>kvs \<in> set ls. scannable kvs" for ls v w and ks ks' :: "'a list"
    using that
  proof (induction ls arbitrary: v ks)
    case (Cons l ls)
    have "0 < num_dicts l" using Cons.prems(2) by (simp add: scannable_def kvs_bounded_def kvs_ok_def kvs_frame_def)
    then obtain l' v' ys where "kvstoreScan cf l v (- 1) (\<lambda>ks s _. ks @ [s]) None ks = Some (l', v', ks @ ys)"
      using kvstoreScan_ok [of l 0 _ _ cf v] Cons.prems(2) by fastforce
    then show ?case using Cons.IH [of v' "ks @ ys"] Cons.prems by auto
  qed simp
  have kvs: "scannable kvs" "kvs_dtype kvs = ty" "kvs_map kvs (i, k) \<noteq> None" using Cons.prems(3) by auto
  have i: "i < num_dicts kvs" using kvs(1,3) by (auto simp: kvs_map_def scannable_def kvs_bounded_def kvs_ok_def kvs_frame_def split: if_splits)
  obtain kvs' v' ys where 1: "\<forall>ks. kvstoreScan cf kvs v (- 1) (\<lambda>ks s _. ks @ [s]) None ks = Some (kvs', v', ks @ ys)"
    "(\<exists>s \<in> set ys. keyFromStoredKey ty s = k) \<or> v' \<noteq> 0 \<and> before kvs i (rc (hashFunction ty k)) v'"
    using kvstoreScan_ok [OF kvs(1) i refl, of cf v k, unfolded kvs(2)] kvs(3) Cons.prems(4) [unfolded list.sel] by blast
  have seq: "kvs_scan_seq cf kvss v' (ks @ ys) = Some (0, ks')" using Cons.prems(1) 1(1) by simp
  show ?case
  proof (cases "\<exists>s \<in> set ys. keyFromStoredKey ty s = k")
    case True
    then show ?thesis using mono [OF seq] Cons.prems(3) by auto
  next
    case False
    then have v': "v' \<noteq> 0" "before kvs i (rc (hashFunction ty k)) v'" using 1(2) by auto
    then have ne: "kvss \<noteq> []" using seq by auto
    then have "scannable (hd kvss)" "num_dicts_bits (hd kvss) = num_dicts_bits kvs" using Cons.prems(3) by (simp_all add: hd_in_set)
    moreover from this have "num_dicts (hd kvss) = num_dicts kvs" using kvs(1) by (simp add: scannable_def kvs_bounded_def kvs_ok_def kvs_frame_def)
    ultimately have "before (hd kvss) i (rc (hashFunction ty k)) v'" using v'(2) before_cong [of "hd kvss" kvs] by simp
    then show ?thesis using Cons.IH [OF seq ne] Cons.prems(3) by simp
  qed
qed simp


subsection \<open>Moving a dict\<close>

lemma cumulative_large:
  assumes "i < length (dicts kvs)" "dicts kvs ! i = Some e" "2 \<le> dictSize (kd e)"
    and t: "num_dicts kvs \<noteq> 1 \<Longrightarrow> \<exists>ft a. dict_sizes kvs = Some ft \<and> int i < ft_size ft \<and> fw_rep ft a \<and> prefix a (ft_size ft) < 2 ^ 64 \<and>
      - int (unat (a (int i))) \<le> delta"
  shows "\<exists>t. cumulativeKeyCountAdd kvs i delta = Some (kvs\<lparr>key_count := key_count kvs + word_of_int delta, dict_sizes := t\<rparr>)"
proof (cases "num_dicts kvs = 1")
  case True
  then show ?thesis using assms(1-3) by (intro exI [of _ "dict_sizes kvs"]) (simp add: cumulativeKeyCountAdd_def kvstoreGetDict_def rd_def Let_def)
next
  case False
  then obtain ft a where "dict_sizes kvs = Some ft" "int i < ft_size ft" "fw_rep ft a" "prefix a (ft_size ft) < 2 ^ 64" "- int (unat (a (int i))) \<le> delta"
    using t by blast
  moreover from this obtain ft' where "fwTreeUpdate (Some ft) (int i) delta = Some (Some ft')"
    using fw_rep_update [of ft a "int i" delta] by auto
  ultimately show ?thesis using assms(1-3) False
    by (intro exI [of _ "Some ft'"]) (simp add: cumulativeKeyCountAdd_def kvstoreGetDict_def rd_def Let_def)
qed

lemma tree_for_delta:
  assumes b: "kvs_bounded kvs" and i: "i < num_dicts kvs" and n: "num_dicts kvs \<noteq> 1" and lo: "- int (kv_size (dicts kvs ! i)) \<le> delta"
  shows "\<exists>ft a. dict_sizes kvs = Some ft \<and> int i < ft_size ft \<and> fw_rep ft a \<and> prefix a (ft_size ft) < 2 ^ 64 \<and> - int (unat (a (int i))) \<le> delta"
proof -
  let ?a = "fw_elem (the (dict_sizes kvs))"
  have ok: "kvs_ok kvs" "kvs_total kvs < 2 ^ 64 - 1" using b by (simp_all add: kvs_bounded_def)
  obtain ft where ft: "dict_sizes kvs = Some ft" "fw_valid ft" "ft_size ft = int (num_dicts kvs)"
    "\<forall>i. 0 \<le> i \<and> i < int (num_dicts kvs) \<longrightarrow> unat (fw_elem ft i) = kv_size (dicts kvs ! nat i)"
    using kvs_tree [OF ok n] by blast
  have "prefix (fw_elem ft) (ft_size ft) < 2 ^ 64" using fw_valid_total [OF ft(2)] by simp
  moreover have "unat (fw_elem ft (int i)) = kv_size (dicts kvs ! i)" using ft(4) i by simp
  ultimately show ?thesis using ft(1,3) fw_valid_elem [OF ft(2)] i lo by (intro exI [of _ ft] exI [of _ "fw_elem ft"]) simp
qed

lemma move_dict_run:
  assumes src: "kvs_bounded kvs" and dst: "kvs_bounded dst" and n: "num_dicts kvs = num_dicts dst" and i: "i < num_dicts kvs"
    and e: "dicts kvs ! i = Some e" "2 \<le> dictSize (kd e)" and free: "dicts dst ! i = None"
  shows "\<exists>kvs' dst' x b. kvstoreMoveDict kvs dst i = Some (kvs', dst') \<and>
    dicts kvs' = (dicts kvs)[i := x] \<and> empty_slot x \<and> non_empty_dicts kvs' = non_empty_dicts kvs \<and>
    dicts dst' = (dicts dst)[i := Some \<lparr>kd = (kd e)\<lparr>dtype := kvs_dtype dst\<rparr>, rehashing_node = b\<rparr>] \<and> non_empty_dicts dst' = non_empty_dicts dst"
proof -
  have len: "i < length (dicts kvs)" "i < length (dicts dst)" using src dst i n kvs_okD(1) [of kvs] kvs_okD(1) [of dst] by (simp_all add: kvs_bounded_def)
  define k1 where "k1 = kvs\<lparr>allocated_dicts := allocated_dicts kvs - 1\<rparr>"
  have "\<exists>t. cumulativeKeyCountAdd k1 i (- int (dictSize (kd e))) =
    Some (k1\<lparr>key_count := key_count k1 + word_of_int (- int (dictSize (kd e))), dict_sizes := t\<rparr>)"
    by (rule cumulative_large [of i k1 e]) (use len(1) e tree_for_delta [OF src i, of "- int (dictSize (kd e))"] in \<open>simp_all add: k1_def\<close>)
  then obtain t where t: "cumulativeKeyCountAdd k1 i (- int (dictSize (kd e))) =
    Some (k1\<lparr>key_count := key_count k1 + word_of_int (- int (dictSize (kd e))), dict_sizes := t\<rparr>)" by blast
  define k2 where "k2 = kvstoreDictBucketChanged (k1\<lparr>key_count := key_count k1 + word_of_int (- int (dictSize (kd e))), dict_sizes := t\<rparr>)
    (- int (dictBuckets (kd e)))"
  have d2: "dicts k2 = dicts kvs" "non_empty_dicts k2 = non_empty_dicts kvs" by (simp_all add: k2_def k1_def kvstoreDictBucketChanged_def)
  obtain k3 nd where k3: "(if dictIsRehashing (kd e) then kvstoreDictRehashingCompleted k2 i (DICTHT_SIZE (ht_size_exp (ht0 (kd e)))) else Some k2) = Some k3"
    "dicts k3 = (dicts kvs)[i := Some (e\<lparr>rehashing_node := nd\<rparr>)]" "non_empty_dicts k3 = non_empty_dicts kvs"
  proof (cases "dictIsRehashing (kd e) \<and> rehashing_node e")
    case True
    have s: "set_node (k2\<lparr>rehashing := remove1 i (rehashing k2)\<rparr>) i False =
      Some (k2\<lparr>rehashing := remove1 i (rehashing k2), dicts := (dicts kvs)[i := Some (e\<lparr>rehashing_node := False\<rparr>)]\<rparr>)"
      using set_node_eq [of i "k2\<lparr>rehashing := remove1 i (rehashing k2)\<rparr>" e False] d2 len e by simp
    show ?thesis using that [of _ False] s True d2 len(1) e(1) by (simp add: kvstoreDictRehashingCompleted_def rd_def)
  next
    case False
    have "e\<lparr>rehashing_node := rehashing_node e\<rparr> = e" by simp
    then have "(dicts kvs)[i := Some (e\<lparr>rehashing_node := rehashing_node e\<rparr>)] = dicts kvs" using e(1) by (metis list_update_id)
    then show ?thesis using that [of _ "rehashing_node e"] False d2 len(1) e(1)
      by (cases "dictIsRehashing (kd e)") (simp_all add: kvstoreDictRehashingCompleted_def rd_def)
  qed
  define k4 where "k4 = k3\<lparr>dicts := (dicts kvs)[i := None]\<rparr>"
  obtain k5 x where k5: "(if kvs_flags k4 AND (KVSTORE_ALLOCATE_DICTS_ON_DEMAND OR KVSTORE_FREE_EMPTY_DICTS) = 0
       then do { (kvs, _) \<leftarrow> createDictIfNeeded k4 i; Some kvs } else Some k4) = Some k5"
     "dicts k5 = (dicts kvs)[i := x]" "empty_slot x" "non_empty_dicts k5 = non_empty_dicts kvs"
  proof (cases "kvs_flags k4 AND (KVSTORE_ALLOCATE_DICTS_ON_DEMAND OR KVSTORE_FREE_EMPTY_DICTS) = 0")
    case True
    then show ?thesis using that [OF _ _ created_slot(2)] len k3(3)
      by (simp add: createDictIfNeeded_def kvstoreGetDict_def rd_def wr_def k4_def Let_def)
  next
    case False
    show ?thesis by (rule that [of k4 None]) (use False k3(3) in \<open>simp_all add: k4_def empty_slot_def\<close>)
  qed
  define e' where "e' = \<lparr>kd = (kd e)\<lparr>dtype := kvs_dtype dst\<rparr>, rehashing_node = nd\<rparr>"
  define m1 where "m1 = dst\<lparr>dicts := (dicts dst)[i := Some e'], allocated_dicts := allocated_dicts dst + 1\<rparr>"
  have "\<exists>t. cumulativeKeyCountAdd m1 i (int (dictSize (kd e))) = Some (m1\<lparr>key_count := key_count m1 + word_of_int (int (dictSize (kd e))), dict_sizes := t\<rparr>)"
    by (rule cumulative_large [of i m1 e'])
      (use len(2) e tree_for_delta [OF dst, of i "int (dictSize (kd e))"] i n in \<open>simp_all add: m1_def e'_def dictSize_def\<close>)
  then obtain t' where t': "cumulativeKeyCountAdd m1 i (int (dictSize (kd e))) =
    Some (m1\<lparr>key_count := key_count m1 + word_of_int (int (dictSize (kd e))), dict_sizes := t'\<rparr>)" by blast
  define m2 where "m2 = kvstoreDictBucketChanged (m1\<lparr>key_count := key_count m1 + word_of_int (int (dictSize (kd e))), dict_sizes := t'\<rparr>) (int (dictBuckets (kd e)))"
  have dm: "dicts m2 = (dicts dst)[i := Some e']" "non_empty_dicts m2 = non_empty_dicts dst" by (simp_all add: m2_def m1_def kvstoreDictBucketChanged_def)
  obtain m3 b where m3: "(if dictIsRehashing (kd e) then kvstoreDictRehashingStarted m2 i (DICTHT_SIZE (ht_size_exp (ht0 (kd e)))) else Some m2) = Some m3"
    "dicts m3 = (dicts dst)[i := Some (e'\<lparr>rehashing_node := b\<rparr>)]" "non_empty_dicts m3 = non_empty_dicts dst"
  proof (cases "dictIsRehashing (kd e)")
    case True
    have s: "set_node (m2\<lparr>rehashing := rehashing m2 @ [i]\<rparr>) i True =
      Some (m2\<lparr>rehashing := rehashing m2 @ [i], dicts := (dicts dst)[i := Some (e'\<lparr>rehashing_node := True\<rparr>)]\<rparr>)"
      using set_node_eq [of i "m2\<lparr>rehashing := rehashing m2 @ [i]\<rparr>" e' True] dm len by simp
    show ?thesis using that [of _ True] s True dm by (simp add: kvstoreDictRehashingStarted_def)
  next
    case False
    then show ?thesis using that [of m2 nd] dm by (simp add: e'_def)
  qed
  have acc: "chk (num_dicts kvs > i) = Some ()" "chk (num_dicts kvs = num_dicts dst) = Some ()" "rd (dicts dst) i = Some None"
    "chk ((None :: ('a, 'b, 'c) kvdict ptr) = None) = Some ()" "rd (dicts kvs) i = Some (Some e)"
    "rd (dicts k3) i = Some (Some (e\<lparr>rehashing_node := nd\<rparr>))" "wr (dicts k3) i None = Some ((dicts kvs)[i := None])"
    "e\<lparr>rehashing_node := nd, kd := (kd e)\<lparr>dtype := kvs_dtype dst\<rparr>\<rparr> = e'" "wr (dicts dst) i (Some e') = Some ((dicts dst)[i := Some e'])"
    using i n len free e(1) by (simp_all add: chk_def rd_def wr_def k3(2) e'_def)
  have "kvstoreMoveDict kvs dst i = Some (k5, m3)"
    unfolding kvstoreMoveDict_def Let_def acc bind.bind_lunit option.case k1_def [symmetric] t k2_def [symmetric] k3(1) k4_def [symmetric] k5(1)
      m1_def [symmetric] t' m2_def [symmetric] m3(1) ..
  then show ?thesis using k5(2-4) m3(2,3) by (intro exI [of _ k5] exI [of _ m3] exI [of _ x] exI [of _ b]) (simp add: e'_def)
qed


lemma slot_map_dtype: "keyFromStoredKey ty = keyFromStoredKey (dtype d) \<Longrightarrow> dict_map (d\<lparr>dtype := ty\<rparr>) = dict_map d"
  by (simp add: dict_map_def all_entries_def)

lemma slots_iff: "j \<in> fst ` dom m \<longleftrightarrow> (\<exists>k. m (j, k) \<noteq> None)"
  by force

lemma kvs_slots:
  assumes "kvs_ok kvs" "i < num_dicts kvs"
  shows "i \<in> fst ` dom (kvs_map kvs) \<longleftrightarrow> kv_size (dicts kvs ! i) \<noteq> 0" "finite (fst ` dom (kvs_map kvs))"
proof -
  have "i \<in> fst ` dom (kvs_map kvs) \<longleftrightarrow> (\<exists>k. kvs_map kvs (i, k) \<noteq> None)" by force
  then show "i \<in> fst ` dom (kvs_map kvs) \<longleftrightarrow> kv_size (dicts kvs ! i) \<noteq> 0" using slot_non_empty [OF assms] by simp
  show "finite (fst ` dom (kvs_map kvs))" unfolding dom_kvs_map [OF assms(1)] by (rule finite_subset [of _ "{..<num_dicts kvs}"]) auto
qed

lemma move_dict_counts:
  assumes src: "kvs_bounded kvs" and dst: "kvs_bounded dst" and n: "num_dicts kvs = num_dicts dst" and ty: "kvs_dtype kvs = kvs_dtype dst"
    and i: "didx < num_dicts kvs" and e: "dicts kvs ! didx = Some e" "2 \<le> dictSize (kd e)" and free: "dicts dst ! didx = None"
  shows "\<exists>kvs' dst'. kvstoreMoveDict kvs dst didx = Some (kvs', dst') \<and>
    kvs_map kvs' = (\<lambda>(i, k). if i = didx then None else kvs_map kvs (i, k)) \<and>
    kvs_map dst' = (\<lambda>(i, k). if i = didx then kvs_map kvs (i, k) else kvs_map dst (i, k)) \<and>
    kvstoreNumNonEmptyDicts kvs' = int (card (fst ` dom (kvs_map kvs'))) + 1 \<and>
    kvstoreNumNonEmptyDicts dst' = int (card (fst ` dom (kvs_map dst'))) - 1"
proof -
  obtain kvs' dst' x b where run: "kvstoreMoveDict kvs dst didx = Some (kvs', dst')"
    "dicts kvs' = (dicts kvs)[didx := x]" "empty_slot x" "non_empty_dicts kvs' = non_empty_dicts kvs"
    "dicts dst' = (dicts dst)[didx := Some \<lparr>kd = (kd e)\<lparr>dtype := kvs_dtype dst\<rparr>, rehashing_node = b\<rparr>]" "non_empty_dicts dst' = non_empty_dicts dst"
    using move_dict_run [OF src dst n i e free] by blast
  have ok: "kvs_ok kvs" "kvs_ok dst" using src dst by (simp_all add: kvs_bounded_def)
  have len: "didx < length (dicts kvs)" "didx < length (dicts dst)" using i n kvs_okD(1) [OF ok(1)] kvs_okD(1) [OF ok(2)] by simp_all
  have "dtype (kd e) = kvs_dtype dst" using slot_dict_ok [OF ok(1) i e(1)] ty by simp
  then have dm: "dict_map ((kd e)\<lparr>dtype := kvs_dtype dst\<rparr>) = dict_map (kd e)" by (simp add: slot_map_dtype)
  have m: "kvs_map kvs' = (\<lambda>(i, k). if i = didx then None else kvs_map kvs (i, k))"
    unfolding kvs_map_update [OF len(1) run(2)] using run(3) by (auto simp: empty_slot_def fun_eq_iff)
  have m': "kvs_map dst' = (\<lambda>(i, k). if i = didx then kvs_map kvs (i, k) else kvs_map dst (i, k))"
    unfolding kvs_map_update [OF len(2) run(5)] using dm kvs_map_slot [OF ok(1) i] e(1) by (auto simp: fun_eq_iff)
  have s: "didx \<in> fst ` dom (kvs_map kvs)" "didx \<notin> fst ` dom (kvs_map dst)"
    using kvs_slots(1) [OF ok(1) i] kvs_slots(1) [OF ok(2), of didx] e free i n by simp_all
  have "fst ` dom (kvs_map kvs') = fst ` dom (kvs_map kvs) - {didx}" by (auto simp: set_eq_iff slots_iff m)
  then have c: "card (fst ` dom (kvs_map kvs)) = Suc (card (fst ` dom (kvs_map kvs')))"
    using card_Suc_Diff1 [OF kvs_slots(2) [OF ok(1) i] s(1)] by simp
  have "fst ` dom (kvs_map dst') = insert didx (fst ` dom (kvs_map dst))" using s(1) by (auto simp: set_eq_iff slots_iff m' simp del: not_None_eq)
  then have c': "card (fst ` dom (kvs_map dst')) = Suc (card (fst ` dom (kvs_map dst)))"
    using s(2) kvs_slots(2) [OF ok(2), of didx] i n by simp
  have "kvstoreNumNonEmptyDicts kvs' = kvstoreNumNonEmptyDicts kvs" "kvstoreNumNonEmptyDicts dst' = kvstoreNumNonEmptyDicts dst"
    using run(4,6) by (simp_all add: kvstoreNumNonEmptyDicts_def)
  then show ?thesis using run(1) m m' c c' non_empty_card [OF ok(1)] non_empty_card [OF ok(2)] by simp
qed


subsection \<open>A store with a dict that is rehashing\<close>

definition sample_store :: "(nat, nat, nat) kvstore" where
  "sample_store = \<lparr>kvs_flags = KVSTORE_ALLOCATE_DICTS_ON_DEMAND, kvs_dtype = sample_type,
     dicts = [None, Some \<lparr>kd = sample_dict, rehashing_node = True\<rparr>], num_dicts = 2, num_dicts_bits = 1,
     rehashing = [1], resize_cursor = 0, allocated_dicts = 1, non_empty_dicts = 1, key_count = 3, bucket_count = 12,
     dict_sizes = Some \<lparr>ft_tree = [0, 0, 3], ft_size_bits = 1, ft_size = 2, ft_total = 3\<rparr>, overhead_hashtable_rehashing = 4\<rparr>"

lemma sample_tree: "fw_rep \<lparr>ft_tree = [0, 0, 3], ft_size_bits = 1, ft_size = 2, ft_total = 3\<rparr> (\<lambda>i. if i = 1 then 3 else 0)"
proof -
  have "lowbit 1 = 1" "lowbit 2 = 2" by (simp_all add: lowbit_def)
  moreover have "{0..<2} = {0, 1 :: int}" "{0..<1} = {0 :: int}" by auto
  moreover have "k = 1 \<or> k = 2" if "0 < k" "k \<le> 2" for k :: int using that by auto
  ultimately show ?thesis unfolding fw_rep_def fw_sums_def by fastforce
qed

lemma sample_store_ok: "scannable sample_store"
proof -
  let ?e = "\<lparr>kd = sample_dict, rehashing_node = True\<rparr>"
  have "slot_ok sample_type ?e" by (simp add: slot_ok_def sample_dict_ok sample_dict_simps)
  moreover have log: "log_state sample_dict = Some 4" by (simp add: log_state_def sample_dict_def dictIsRehashing_def DICTHT_SIZE_def)
  moreover have buckets: "dictBuckets sample_dict = 12" by (simp add: dictBuckets_def sample_dict_def DICTHT_SIZE_def)
  moreover have "fw_rep \<lparr>ft_tree = [0, 0, 3], ft_size_bits = 1, ft_size = 2, ft_total = 3\<rparr> (\<lambda>i. of_nat (kv_size ([None, Some ?e] ! nat i)))"
    using sample_tree fw_rep_cong [of "\<lparr>ft_tree = [0, 0, 3], ft_size_bits = 1, ft_size = 2, ft_total = 3\<rparr>" "\<lambda>i. if i = 1 then 3 else 0"
        "\<lambda>i. of_nat (kv_size ([None, Some ?e] ! nat i))"]
    by (auto simp: nth_Cons' sample_dict_simps)
  ultimately have "kvs_ok sample_store"
    by (simp add: sample_store_def kvs_ok_def kvs_frame_def key_counts_def log_counts_def dict_count_def sample_dict_simps less_Suc_eq numeral_2_eq_2 nth_Cons')
  then show ?thesis
    by (simp add: scannable_def kvs_bounded_def kvs_total_def sample_store_def sample_dict_simps scan_exp_def)
qed


lemma sample_scan: "kvs_scan_seq None (replicate 5 sample_store) 0 [] = Some (0, [8, 1, 5])"
  by code_simp

definition sample_dest :: "(nat, nat, nat) kvstore" where
  "sample_dest = sample_store\<lparr>dicts := [None, None], rehashing := [], allocated_dicts := 0, non_empty_dicts := 0, key_count := 0,
     bucket_count := 0, dict_sizes := Some (fwTreeCreate 1), overhead_hashtable_rehashing := 0\<rparr>"

lemma sample_dest_ok: "kvs_bounded sample_dest"
proof -
  have "kvs_ok sample_dest \<and> kvs_map sample_dest = Map.empty \<and> kvs_total sample_dest = 0"
    by (rule empty_slots_ok) (use fwTreeCreate_rep [of 1] in
      \<open>simp_all add: sample_dest_def sample_store_def kvs_frame_def dict_count_def empty_slot_def fwTreeCreate_def\<close>)
  then show ?thesis by (simp add: kvs_bounded_def)
qed


section \<open>Properties\<close>

text \<open>C2: a key-value store of up to \<open>2^16\<close> dicts behaves like one map from slots and keys to entries. From \<open>kvstoreCreate\<close>
  with any flags, every sequence of fewer than \<open>2^64\<close> additions, deletions, two-phase deletions, lookups, expansions, resizes and
  clears, under any resize policy and any answers of \<open>canFreeDict\<close>, runs without an invalid access or a failed assertion (dicts
  are created and freed on the way) and gives the replies that the map gives.\<close>

theorem kvstore_refines_map:
  assumes "bits \<le> 16" "length oprs < 2 ^ 64" "list_all (kv_allowed ty bits) oprs"
  shows "\<exists>kvs0 kvs rs. kvstoreCreate ty bits flags = Some kvs0 \<and> run_steps kv_step oprs kvs0 = Some (kvs, rs) \<and>
    run_spec (kv_spec ty) oprs Map.empty = (kvs_map kvs, rs)"
  using kv_run_ok [OF assms, of flags] by blast

theorem kvstore_refines_map_witness:
  "\<exists>kvs0 kvs. kvstoreCreate sample_type 4 (KVSTORE_ALLOCATE_DICTS_ON_DEMAND OR KVSTORE_FREE_EMPTY_DICTS) = Some kvs0 \<and>
     run_steps kv_step [(DICT_RESIZE_ENABLE, None, KvAdd 3 1 (Some 10)), (DICT_RESIZE_AVOID, None, KvAdd 9 1 (Some 11)),
       (DICT_RESIZE_ENABLE, None, KvFetch 9 1), (DICT_RESIZE_ENABLE, None, KvUnlink 3 1), (DICT_RESIZE_ENABLE, None, KvFind 3 1)] kvs0 =
     Some (kvs, [Done True, Done True, Value (Some (11 :: nat)), Done True, Done False])"
  using kvstore_refines_map [of 4 "[(DICT_RESIZE_ENABLE, None, KvAdd 3 1 (Some (10 :: nat))), (DICT_RESIZE_AVOID, None, KvAdd 9 1 (Some 11)),
       (DICT_RESIZE_ENABLE, None, KvFetch 9 1), (DICT_RESIZE_ENABLE, None, KvUnlink 3 1), (DICT_RESIZE_ENABLE, None, KvFind 3 1)]" sample_type
       "KVSTORE_ALLOCATE_DICTS_ON_DEMAND OR KVSTORE_FREE_EMPTY_DICTS"]
  by (auto simp add: sample_type_def Let_def simp del: run_steps.simps)

text \<open>C14: the counters of a store are exact after every such sequence of operations. \<open>kvstoreSize\<close> is the number of keys,
  \<open>kvstoreNumNonEmptyDicts\<close> the number of slots that have keys, \<open>kvstoreNumAllocatedDicts\<close> the number of dicts,
  \<open>kvstoreBuckets\<close> the sum of their buckets (modulo the width of the counter), and the list \<open>rehashing\<close> holds each dict that is
  rehashing once.\<close>

theorem kvstore_counters_exact:
  assumes "bits \<le> 16" "length oprs < 2 ^ 64" "list_all (kv_allowed ty bits) oprs"
  shows "\<exists>kvs0 kvs rs n. kvstoreCreate ty bits flags = Some kvs0 \<and> run_steps kv_step oprs kvs0 = Some (kvs, rs) \<and>
    unat (kvstoreSize kvs) = card (dom (kvs_map kvs)) \<and>
    kvstoreNumNonEmptyDicts kvs = int (card (fst ` dom (kvs_map kvs))) \<and>
    kvstoreNumAllocatedDicts kvs = int (card {i. i < length (dicts kvs) \<and> dicts kvs ! i \<noteq> None}) \<and>
    kvstoreBuckets kvs = Some n \<and> (of_nat n :: u64) = of_nat (sum_list (map kv_buckets (dicts kvs))) \<and>
    distinct (rehashing kvs) \<and> kvstoreDictRehashingCount kvs = card {i. i < length (dicts kvs) \<and> kv_log (dicts kvs ! i) \<noteq> None}"
proof -
  obtain kvs0 kvs rs where run: "kvstoreCreate ty bits flags = Some kvs0" "run_steps kv_step oprs kvs0 = Some (kvs, rs)"
    "kv_state ty bits (length oprs) kvs"
    using kv_run_ok [OF assms, of flags] by blast
  have ok: "kvs_ok kvs" and tot: "kvs_total kvs < 2 ^ 64" using run(3) assms(2) by (auto simp: kv_state_def)
  obtain n where n: "kvstoreBuckets kvs = Some n" "(of_nat n :: u64) = of_nat (sum_list (map kv_buckets (dicts kvs)))"
    using kvstoreBuckets_ok [OF ok] by blast
  have "kvstoreNumAllocatedDicts kvs = int (card {i. i < length (dicts kvs) \<and> dicts kvs ! i \<noteq> None})"
    using kvs_okD(4) [OF ok] sum_list_indicator [of "\<lambda>e. e \<noteq> None" "dicts kvs"] by (simp add: kvstoreNumAllocatedDicts_def dict_count_def)
  moreover have "distinct (rehashing kvs)" "kvstoreDictRehashingCount kvs = card {i. i < length (dicts kvs) \<and> kv_log (dicts kvs ! i) \<noteq> None}"
    using rehashing_count [OF ok] by auto
  ultimately show ?thesis
    using run(1,2) n unat_key_count [OF ok tot] kvs_total_card [OF ok] non_empty_card [OF ok]
    by (intro exI [of _ kvs0] exI [of _ kvs] exI [of _ rs] exI [of _ n]) simp
qed

theorem kvstore_counters_exact_witness:
  "\<exists>kvs0 kvs rs. kvstoreCreate sample_type 4 KVSTORE_FREE_EMPTY_DICTS = Some kvs0 \<and>
     run_steps kv_step [(DICT_RESIZE_ENABLE, None, KvAdd 3 1 (Some (10 :: nat))), (DICT_RESIZE_AVOID, None, KvAdd 9 1 (Some 11)),
       (DICT_RESIZE_ENABLE, None, KvDelete 3 1)] kvs0 = Some (kvs, rs) \<and>
     unat (kvstoreSize kvs) = card (dom (kvs_map kvs)) \<and> kvstoreNumNonEmptyDicts kvs = int (card (fst ` dom (kvs_map kvs)))"
  using kvstore_counters_exact [of 4 "[(DICT_RESIZE_ENABLE, None, KvAdd 3 1 (Some (10 :: nat))), (DICT_RESIZE_AVOID, None, KvAdd 9 1 (Some 11)),
       (DICT_RESIZE_ENABLE, None, KvDelete 3 1)]" sample_type KVSTORE_FREE_EMPTY_DICTS]
  by (simp add: sample_type_def del: run_steps.simps) blast

text \<open>C39: the searches over the slots of a store. \<open>kvstoreFindDictIndexByKeyIndex\<close> finds the slot of the \<open>target\<close>-th key in the order of
  the slots, \<open>kvstoreGetFirstNonEmptyDictIndex\<close> the least slot that has keys, \<open>kvstoreGetNextNonEmptyDictIndex\<close> the least such slot
  after a given one, or \<open>-1\<close> when there is none.\<close>

theorem kvstore_slot_search:
  assumes "kvs_bounded kvs" "0 < target" "unat target \<le> kvs_total kvs" "didx < num_dicts kvs"
  shows "(\<exists>i < num_dicts kvs. kvstoreFindDictIndexByKeyIndex kvs target = Some (int i) \<and>
      sum_list (map kv_size (take i (dicts kvs))) < unat target \<and> unat target \<le> sum_list (map kv_size (take (Suc i) (dicts kvs)))) \<and>
    (\<exists>i < num_dicts kvs. kvstoreGetFirstNonEmptyDictIndex kvs = Some (int i) \<and> kv_size (dicts kvs ! i) \<noteq> 0 \<and>
      (\<forall>j < i. kv_size (dicts kvs ! j) = 0)) \<and>
    ((\<exists>i < num_dicts kvs. kvstoreGetNextNonEmptyDictIndex kvs (int didx) = Some (int i) \<and> didx < i \<and> kv_size (dicts kvs ! i) \<noteq> 0 \<and>
        (\<forall>j. didx < j \<and> j < i \<longrightarrow> kv_size (dicts kvs ! j) = 0)) \<or>
      kvstoreGetNextNonEmptyDictIndex kvs (int didx) = Some (- 1) \<and> (\<forall>j < num_dicts kvs. didx < j \<longrightarrow> kv_size (dicts kvs ! j) = 0))"
  using findIndex_ok [OF assms(1-3)] first_slot_ok [OF assms(1-3)] next_slot_ok [OF assms(1,4)] by blast

theorem kvstore_slot_search_witness:
  "kvstoreFindDictIndexByKeyIndex sample_store 2 = Some 1 \<and> kvstoreGetFirstNonEmptyDictIndex sample_store = Some 1 \<and>
   kvstoreGetNextNonEmptyDictIndex sample_store 1 = Some (- 1)"
  using kvstore_slot_search [of sample_store 2 1] sample_store_ok
  by (auto simp: scannable_def sample_store_def kvs_total_def sample_dict_simps less_2_cases_iff)

text \<open>C6: the guarantee of \<open>kvstoreScan\<close>. In an iteration over the whole store from cursor 0 back to cursor 0, where between the calls
  keys may have been added and deleted and dicts created, freed, resized or rehashed, every key that is in the store at each call is
  passed to the callback, provided that the tables have no more than \<open>2^48\<close> buckets.\<close>

theorem kvstoreScan_misses_no_key:
  assumes "kvs_scan_seq cf kvss 0 [] = Some (0, ks)" "kvss \<noteq> []"
    and "\<forall>kvs \<in> set kvss. scannable kvs \<and> num_dicts_bits kvs = bits \<and> kvs_dtype kvs = ty \<and> kvs_map kvs (didx, k) \<noteq> None"
  shows "\<exists>s \<in> set ks. keyFromStoredKey ty s = k"
  by (rule kvs_scan_seq_covers [OF assms]) (auto simp: before_def getAndClearDictIndexFromCursor_def)

theorem kvstoreScan_misses_no_key_witness:
  "\<exists>ks. kvs_scan_seq None (replicate 5 sample_store) 0 [] = Some (0, ks) \<and> (\<exists>s \<in> set ks. keyFromStoredKey sample_type s = 5)"
  using kvstoreScan_misses_no_key [OF sample_scan, of 1 sample_type 1 5] sample_store_ok sample_dict_map [of 5] sample_scan
  by (simp add: sample_store_def kvs_map_def)

text \<open>C40: \<open>kvstoreMoveDict\<close> moves the keys of a slot to the other store but not their count. For a dict of two keys or more the counter
  of non-empty dicts stays as it was in both stores, so that afterwards it is one too high in the store that lost the slot and
  one too low in the store that got it.\<close>

theorem kvstoreMoveDict_miscounts:
  assumes "kvs_bounded kvs" "kvs_bounded dst" "num_dicts kvs = num_dicts dst" "kvs_dtype kvs = kvs_dtype dst"
    and "didx < num_dicts kvs" "dicts kvs ! didx = Some e" "2 \<le> dictSize (kd e)" "dicts dst ! didx = None"
  shows "\<exists>kvs' dst'. kvstoreMoveDict kvs dst didx = Some (kvs', dst') \<and>
    kvs_map kvs' = (\<lambda>(i, k). if i = didx then None else kvs_map kvs (i, k)) \<and>
    kvs_map dst' = (\<lambda>(i, k). if i = didx then kvs_map kvs (i, k) else kvs_map dst (i, k)) \<and>
    kvstoreNumNonEmptyDicts kvs' = int (card (fst ` dom (kvs_map kvs'))) + 1 \<and>
    kvstoreNumNonEmptyDicts dst' = int (card (fst ` dom (kvs_map dst'))) - 1"
  using move_dict_counts [OF assms] .

theorem kvstoreMoveDict_miscounts_witness:
  "\<exists>kvs' dst'. kvstoreMoveDict sample_store sample_dest 1 = Some (kvs', dst') \<and>
    kvstoreNumNonEmptyDicts kvs' = int (card (fst ` dom (kvs_map kvs'))) + 1 \<and>
    kvstoreNumNonEmptyDicts dst' = int (card (fst ` dom (kvs_map dst'))) - 1"
proof -
  have "kvs_bounded sample_store" using sample_store_ok by (simp add: scannable_def)
  then show ?thesis using kvstoreMoveDict_miscounts [OF _ sample_dest_ok, of sample_store 1 "\<lparr>kd = sample_dict, rehashing_node = True\<rparr>"]
    by (auto simp: sample_dest_def sample_store_def sample_dict_simps)
qed

end
