(* ===== verification/Lzf.thy ===== *)
theory Lzf
  imports Prelude
begin

unbundle bit_operations_syntax

text \<open>
  The LZF compression of \<^verbatim>\<open>lzf_c.c\<close> and \<^verbatim>\<open>lzf_d.c\<close> in the configuration of \<^verbatim>\<open>lzfP.h\<close>:
  \<open>HLOG\<close> is 16, \<open>VERY_FAST\<close>, a hash table of pointers that is not initialised, and \<open>CHECK_INPUT\<close>. The input and the output are
  buffers; \<open>ip\<close> and \<open>op\<close> are offsets into them. The hash table holds 64-bit addresses: its content at the start is arbitrary,
  so it is a parameter, as is the address \<open>base\<close> of the input. A reference of the decompressor is an integer, since it is
  compared with the start of the buffer before it is used.
\<close>

subsection \<open>Decompression\<close>

datatype lzf_errno = NoErr | E2BIG | EINVAL

text \<open>The copies \<open>*op++ = *ip++\<close> of a literal run and \<open>*op++ = *ref++\<close> of a back reference.\<close>

fun copy_lit :: "u8 list \<Rightarrow> nat \<Rightarrow> u8 list \<Rightarrow> nat \<Rightarrow> nat \<Rightarrow> u8 list res" where
  "copy_lit inp ip out op 0 = Some out"
| "copy_lit inp ip out op (Suc n) = do { b \<leftarrow> rd inp ip; out \<leftarrow> wr out op b; copy_lit inp (ip + 1) out (op + 1) n }"

fun copy_back :: "u8 list \<Rightarrow> nat \<Rightarrow> nat \<Rightarrow> nat \<Rightarrow> u8 list res" where
  "copy_back out ref op 0 = Some out"
| "copy_back out ref op (Suc n) = do { b \<leftarrow> rd out ref; out \<leftarrow> wr out op b; copy_back out (ref + 1) (op + 1) n }"

definition copy_ref :: "u8 list \<Rightarrow> nat \<Rightarrow> nat \<Rightarrow> nat \<Rightarrow> u8 list res" where
  "copy_ref out ref op len =
     (if len \<le> 9 then copy_back out ref op (len + 2)
      else if op \<ge> ref + (len + 2) then mem_move out op ref (len + 2)
      else copy_back out ref op (len + 2))"

function lzf_decompress_loop :: "u8 list \<Rightarrow> nat \<Rightarrow> u8 list \<Rightarrow> nat \<Rightarrow> (nat \<times> u8 list \<times> lzf_errno) res" where
  "lzf_decompress_loop inp ip out op =
     (if ip < length inp then do {
        c \<leftarrow> rd inp ip;
        let ctrl = unat c;
        if ctrl < 32 then
          if op + (ctrl + 1) > length out then Some (0, out, E2BIG)
          else if ip + 1 + (ctrl + 1) > length inp then Some (0, out, EINVAL)
          else do {
            out \<leftarrow> copy_lit inp (ip + 1) out op (ctrl + 1);
            lzf_decompress_loop inp (ip + 1 + (ctrl + 1)) out (op + (ctrl + 1)) }
        else do {
          let len = drop_bit 5 ctrl;
          let ref = int op - int (push_bit 8 (ctrl AND 31)) - 1;
          if ip + 1 \<ge> length inp then Some (0, out, EINVAL)
          else do {
            (len, skip) \<leftarrow> (if len = 7 then do { b \<leftarrow> rd inp (ip + 1); Some (len + unat b, 1) } else Some (len, 0));
            if skip = 1 \<and> ip + 1 + skip \<ge> length inp then Some (0, out, EINVAL)
            else do {
              b \<leftarrow> rd inp (ip + 1 + skip);
              let ref = ref - int (unat b);
              if op + len + 2 > length out then Some (0, out, E2BIG)
              else if ref < 0 then Some (0, out, EINVAL)
              else do {
                out \<leftarrow> copy_ref out (nat ref) op len;
                lzf_decompress_loop inp (ip + 1 + skip + 1) out (op + len + 2) } } } } }
      else Some (op, out, NoErr))"
  by pat_completeness auto

termination
  by (relation "measure (\<lambda>(inp, ip, _). length inp - ip)") auto

definition lzf_decompress :: "u8 list \<Rightarrow> u8 list \<Rightarrow> (nat \<times> u8 list \<times> lzf_errno) res" where
  "lzf_decompress inp out = lzf_decompress_loop inp 0 out 0"


subsection \<open>Compression\<close>

definition MAX_LIT :: nat where [simp]: "MAX_LIT = 32"
definition MAX_OFF :: u64 where [simp]: "MAX_OFF = 8192"
definition MAX_REF :: nat where [simp]: "MAX_REF = 264"

definition FRST :: "u8 list \<Rightarrow> nat \<Rightarrow> u32 res" where
  "FRST inp p = do { a \<leftarrow> rd inp p; b \<leftarrow> rd inp (p + 1); Some (push_bit 8 (ucast a) OR ucast b) }"

definition NEXT :: "u32 \<Rightarrow> u8 list \<Rightarrow> nat \<Rightarrow> u32 res" where
  "NEXT v inp p = do { c \<leftarrow> rd inp (p + 2); Some (push_bit 8 v OR ucast c) }"

definition IDX :: "u32 \<Rightarrow> nat" where
  "IDX h = unat ((drop_bit 8 h - h * 5) AND 65535)"

text \<open>The conditions on the slot of the hash table, in the order in which they are tested.\<close>

definition is_match :: "u64 \<Rightarrow> u8 list \<Rightarrow> nat \<Rightarrow> u64 \<Rightarrow> u64 \<Rightarrow> bool res" where
  "is_match base inp ip ref off =
     (if off < MAX_OFF \<and> ref > base then do {
        let r = unat (ref - base);
        a \<leftarrow> rd inp (r + 2);
        b \<leftarrow> rd inp (ip + 2);
        if a \<noteq> b then Some False
        else do {
          x \<leftarrow> rd_n inp r 2;
          y \<leftarrow> rd_n inp ip 2;
          Some (x = y) } }
      else Some False)"

text \<open>The comparison of \<open>ref[len]\<close> and \<open>ip[len]\<close>: the run of sixteen unrolled tests, which says whether it broke off, and
  the loop after it.\<close>

fun match_run :: "u8 list \<Rightarrow> nat \<Rightarrow> nat \<Rightarrow> nat \<Rightarrow> nat \<Rightarrow> (bool \<times> nat) res" where
  "match_run inp r ip 0 len = Some (False, len)"
| "match_run inp r ip (Suc n) len = do {
     a \<leftarrow> rd inp (r + (len + 1));
     b \<leftarrow> rd inp (ip + (len + 1));
     if a \<noteq> b then Some (True, len + 1) else match_run inp r ip n (len + 1) }"

function match_do :: "u8 list \<Rightarrow> nat \<Rightarrow> nat \<Rightarrow> nat \<Rightarrow> nat \<Rightarrow> nat res" where
  "match_do inp r ip maxlen len =
     (if len + 1 < maxlen then do {
        a \<leftarrow> rd inp (r + (len + 1));
        b \<leftarrow> rd inp (ip + (len + 1));
        if a = b then match_do inp r ip maxlen (len + 1) else Some (len + 1) }
      else Some (len + 1))"
  by pat_completeness auto

termination
  by (relation "measure (\<lambda>(_, _, _, maxlen, len). maxlen - len)") auto

definition match_len :: "u8 list \<Rightarrow> nat \<Rightarrow> nat \<Rightarrow> nat \<Rightarrow> nat res" where
  "match_len inp r ip maxlen = do {
     (broke, len) \<leftarrow> (if maxlen > 16 then match_run inp r ip 16 2 else Some (False, 2));
     if broke then Some len else match_do inp r ip maxlen len }"

definition emit_ref :: "u8 list \<Rightarrow> nat \<Rightarrow> u64 \<Rightarrow> nat \<Rightarrow> (u8 list \<times> nat) res" where
  "emit_ref out op off len =
     (if len < 7 then do {
        out \<leftarrow> wr out op (ucast (drop_bit 8 off + push_bit 5 (of_nat len)));
        out \<leftarrow> wr out (op + 1) (ucast off);
        Some (out, op + 2) }
      else do {
        out \<leftarrow> wr out op (ucast (drop_bit 8 off + push_bit 5 7));
        out \<leftarrow> wr out (op + 1) (of_nat (len - 7));
        out \<leftarrow> wr out (op + 2) (ucast off);
        Some (out, op + 3) })"

text \<open>The two positions that are entered into the hash table after a match that ends at \<open>ip\<close>.\<close>

definition enter_two :: "u64 \<Rightarrow> u8 list \<Rightarrow> nat \<Rightarrow> (nat \<Rightarrow> u64) \<Rightarrow> (u32 \<times> (nat \<Rightarrow> u64)) res" where
  "enter_two base inp ip htab = do {
     h \<leftarrow> FRST inp (ip - 2);
     h \<leftarrow> NEXT h inp (ip - 2);
     let htab = htab(IDX h := base + of_nat (ip - 2));
     h \<leftarrow> NEXT h inp (ip - 1);
     Some (h, htab(IDX h := base + of_nat (ip - 1))) }"

definition stop_full_run :: "u8 list \<Rightarrow> nat \<Rightarrow> nat \<Rightarrow> (u8 list \<times> nat \<times> nat) res" where
  "stop_full_run out op lit =
     (if lit = MAX_LIT then do { out \<leftarrow> wr out (op - lit - 1) (of_nat (lit - 1)); Some (out, op + 1, 0) }
      else Some (out, op, lit))"

text \<open>The loop ends with \<open>Inl\<close> when the function returns 0 from inside it and with \<open>Inr\<close> the variables otherwise.\<close>

function lzf_compress_loop ::
  "u64 \<Rightarrow> u8 list \<Rightarrow> nat \<Rightarrow> nat \<Rightarrow> nat \<Rightarrow> u32 \<Rightarrow> (nat \<Rightarrow> u64) \<Rightarrow> u8 list \<Rightarrow> (u8 list + nat \<times> nat \<times> nat \<times> u8 list) res" where
  "lzf_compress_loop base inp ip op lit hval htab out =
     (if ip + 2 < length inp then do {
        hval \<leftarrow> NEXT hval inp ip;
        let ref = htab (IDX hval);
        let htab = htab(IDX hval := base + of_nat ip);
        let off = base + of_nat ip - ref - 1;
        found \<leftarrow> is_match base inp ip ref off;
        if found then
          if op + 3 + 1 \<ge> length out \<and> op - (if lit = 0 then 1 else 0) + 3 + 1 \<ge> length out then Some (Inl out)
          else do {
            let maxlen = (if length inp - ip - 2 > MAX_REF then MAX_REF else length inp - ip - 2);
            out \<leftarrow> wr out (op - lit - 1) (word_of_int (int lit - 1));
            let op = op - (if lit = 0 then 1 else 0);
            len \<leftarrow> match_len inp (unat (ref - base)) ip maxlen;
            let len = len - 2;
            (out, op) \<leftarrow> emit_ref out op off len;
            if ip + 1 + (len + 1) + 2 \<ge> length inp then Some (Inr (ip + 1 + (len + 1), op + 1, 0, out))
            else do {
              (hval, htab) \<leftarrow> enter_two base inp (ip + 1 + (len + 1)) htab;
              lzf_compress_loop base inp (ip + 1 + (len + 1)) (op + 1) 0 hval htab out } }
        else if op \<ge> length out then Some (Inl out)
        else do {
          b \<leftarrow> rd inp ip;
          out \<leftarrow> wr out op b;
          (out, op, lit) \<leftarrow> stop_full_run out (op + 1) (lit + 1);
          lzf_compress_loop base inp (ip + 1) op lit hval htab out } }
      else Some (Inr (ip, op, lit, out)))"
  by pat_completeness auto

termination
  by (relation "measure (\<lambda>(_, inp, ip, _). length inp - ip)") auto

function compress_tail :: "u8 list \<Rightarrow> nat \<Rightarrow> nat \<Rightarrow> nat \<Rightarrow> u8 list \<Rightarrow> (nat \<times> nat \<times> u8 list) res" where
  "compress_tail inp ip op lit out =
     (if ip < length inp then do {
        b \<leftarrow> rd inp ip;
        out \<leftarrow> wr out op b;
        (out, op, lit) \<leftarrow> stop_full_run out (op + 1) (lit + 1);
        compress_tail inp (ip + 1) op lit out }
      else Some (op, lit, out))"
  by pat_completeness auto

termination
  by (relation "measure (\<lambda>(inp, ip, _). length inp - ip)") auto

definition lzf_compress :: "u64 \<Rightarrow> (nat \<Rightarrow> u64) \<Rightarrow> u8 list \<Rightarrow> u8 list \<Rightarrow> (nat \<times> u8 list) res" where
  "lzf_compress base htab inp out =
     (if length inp = 0 \<or> length out = 0 then Some (0, out)
      else do {
        hval \<leftarrow> FRST inp 0;
        r \<leftarrow> lzf_compress_loop base inp 0 1 0 hval htab out;
        case r of Inl out \<Rightarrow> Some (0, out)
        | Inr (ip, op, lit, out) \<Rightarrow>
          if op + 3 > length out then Some (0, out)
          else do {
            (op, lit, out) \<leftarrow> compress_tail inp ip op lit out;
            out \<leftarrow> wr out (op - lit - 1) (word_of_int (int lit - 1));
            Some (op - (if lit = 0 then 1 else 0), out) } })"

declare lzf_decompress_loop.simps [simp del] match_do.simps [simp del] lzf_compress_loop.simps [simp del] compress_tail.simps [simp del]

end
