(* ===== verification/Lzf_Format.thy ===== *)
theory Lzf_Format
  imports Lzf
begin

unbundle bit_operations_syntax

text \<open>
  The compressed format as a list of tokens, what a token stands for, and that the decompressor reads it back. The
  decompressor stays inside both buffers on every input.
\<close>

subsection \<open>Copies\<close>

lemma wr_eq: "i < length xs \<Longrightarrow> wr xs i v = Some (xs[i := v])"
  by (simp add: wr_def)

lemma rd_eq: "i < length xs \<Longrightarrow> rd xs i = Some (xs ! i)"
  by (simp add: rd_def)

lemma copy_lit_ok:
  assumes "ip + n \<le> length inp" "op + n \<le> length out"
  shows "copy_lit inp ip out op n = Some (take op out @ take n (drop ip inp) @ drop (op + n) out)"
  using assms
proof (induction n arbitrary: ip op out)
  case (Suc n)
  have "take (Suc op) (out[op := inp ! ip]) = take op out @ [inp ! ip]" using Suc.prems(2) by (simp add: take_Suc_conv_app_nth)
  moreover have "drop (Suc (op + n)) (out[op := inp ! ip]) = drop (Suc (op + n)) out" by simp
  moreover have "inp ! ip # take n (drop (Suc ip) inp) = take (Suc n) (drop ip inp)" using Suc.prems(1)
    by (simp add: Cons_nth_drop_Suc [symmetric])
  ultimately show ?case using Suc.IH [of "ip + 1" "op + 1" "out[op := inp ! ip]"] Suc.prems by (simp add: rd_eq wr_eq)
qed simp

text \<open>The \<open>n\<close> cells from \<open>op\<close> repeat the cells \<open>d\<close> places before them.\<close>

definition repeats :: "nat \<Rightarrow> nat \<Rightarrow> nat \<Rightarrow> 'a list \<Rightarrow> bool" where
  "repeats d op n xs \<longleftrightarrow> (\<forall>i. op \<le> i \<and> i < op + n \<longrightarrow> xs ! i = xs ! (i - d))"

lemma copy_back_ok:
  assumes "ref < op" "op + n \<le> length out"
  shows "\<exists>out'. copy_back out ref op n = Some out' \<and> length out' = length out \<and> take op out' = take op out \<and> repeats (op - ref) op n out'"
  using assms
proof (induction n arbitrary: out ref op)
  case (Suc n)
  let ?o = "out[op := out ! ref]"
  have "\<exists>out'. copy_back ?o (ref + 1) (op + 1) n = Some out' \<and> length out' = length ?o \<and> take (op + 1) out' = take (op + 1) ?o \<and>
    repeats (op + 1 - (ref + 1)) (op + 1) n out'"
    by (rule Suc.IH) (use Suc.prems in simp_all)
  then obtain out' where o: "copy_back ?o (ref + 1) (op + 1) n = Some out'" "length out' = length out" "take (op + 1) out' = take (op + 1) ?o"
    "repeats (op - ref) (op + 1) n out'" by auto
  have nth: "out' ! i = ?o ! i" if "i < op + 1" for i using arg_cong [OF o(3), of "\<lambda>xs. xs ! i"] that by simp
  have "out' ! op = out' ! ref" using nth [of op] nth [of ref] Suc.prems by simp
  moreover have "op - (op - ref) = ref" using Suc.prems(1) by simp
  ultimately have "out' ! i = out' ! (i - (op - ref))" if "op \<le> i" "i < op + Suc n" for i
    using o(4) that unfolding repeats_def by (cases "i = op") auto
  then have "repeats (op - ref) op (Suc n) out'" by (simp add: repeats_def)
  moreover have "take op out' = take op out" using o(2) nth Suc.prems by (intro nth_equalityI) auto
  ultimately show ?case using o(1,2) Suc.prems by (intro exI [of _ out']) (simp add: rd_eq wr_eq)
qed (simp add: repeats_def)

lemma copy_ref_ok:
  assumes "ref < op" "op + len + 2 \<le> length out"
  shows "\<exists>out'. copy_ref out ref op len = Some out' \<and> length out' = length out \<and> take op out' = take op out \<and>
    repeats (op - ref) op (len + 2) out'"
proof (cases "len > 9 \<and> op \<ge> ref + (len + 2)")
  case True
  obtain zs where z: "mem_move out op ref (len + 2) = Some zs" "length zs = length out"
    "\<And>i. i < length out \<Longrightarrow> zs ! i = (if op \<le> i \<and> i < op + (len + 2) then out ! (ref + (i - op)) else out ! i)"
    using mem_move_eq_Some [of ref "len + 2" out op] assms by auto
  have "zs ! i = zs ! (i - (op - ref))" if i: "op \<le> i" "i < op + (len + 2)" for i
  proof -
    have "i - (op - ref) = ref + (i - op)" "ref + (i - op) < op" using assms(1) True i by linarith+
    then show ?thesis using z(3) [of i] z(3) [of "ref + (i - op)"] i assms(2) by simp
  qed
  then have "repeats (op - ref) op (len + 2) zs" by (simp add: repeats_def)
  moreover have "take op zs = take op out" using z(2,3) assms by (intro nth_equalityI) auto
  ultimately show ?thesis using True z(1,2) by (simp add: copy_ref_def)
next
  case False
  then show ?thesis using copy_back_ok [of ref op "len + 2" out] assms by (auto simp: copy_ref_def)
qed


subsection \<open>The decompressor stays inside its buffers\<close>

text \<open>One turn of the loop on a literal run and on a back reference.\<close>

lemma decompress_lit:
  assumes "ip < length inp" "unat (inp ! ip) = c" "c < 32"
  shows "lzf_decompress_loop inp ip out op =
    (if op + (c + 1) > length out then Some (0, out, E2BIG)
     else if ip + 1 + (c + 1) > length inp then Some (0, out, EINVAL)
     else lzf_decompress_loop inp (ip + 1 + (c + 1)) (take op out @ take (c + 1) (drop (ip + 1) inp) @ drop (op + (c + 1)) out) (op + (c + 1)))"
  using assms copy_lit_ok [of "ip + 1" "c + 1" inp op out] by (subst lzf_decompress_loop.simps) (simp add: rd_eq Let_def)

definition ref_of :: "nat \<Rightarrow> nat \<Rightarrow> u8 \<Rightarrow> int" where
  "ref_of op c b = int op - int (push_bit 8 (c AND 31)) - 1 - int (unat b)"

lemma decompress_ref:
  assumes "ip < length inp" "unat (inp ! ip) = c" "\<not> c < 32"
    and k: "k = (if drop_bit 5 c = 7 then 1 else 0)" and len: "len = drop_bit 5 c + (if k = 1 then unat (inp ! (ip + 1)) else 0)"
    and ref: "ref = ref_of op c (inp ! (ip + 1 + k))"
  shows "lzf_decompress_loop inp ip out op =
    (if ip + 1 + k \<ge> length inp then Some (0, out, EINVAL)
     else if op + len + 2 > length out then Some (0, out, E2BIG)
     else if ref < 0 then Some (0, out, EINVAL)
     else do { out \<leftarrow> copy_ref out (nat ref) op len; lzf_decompress_loop inp (ip + 1 + k + 1) out (op + len + 2) })"
  using assms by (subst lzf_decompress_loop.simps) (auto simp: rd_eq Let_def ref_of_def)

lemma decompress_end: "\<not> ip < length inp \<Longrightarrow> lzf_decompress_loop inp ip out op = Some (op, out, NoErr)"
  by (subst lzf_decompress_loop.simps) simp

lemma lzf_decompress_loop_safe:
  assumes "op \<le> length out"
  shows "\<exists>n out' e. lzf_decompress_loop inp ip out op = Some (n, out', e) \<and> length out' = length out \<and> n \<le> length out \<and> (e \<noteq> NoErr \<longrightarrow> n = 0)"
  using assms
proof (induction "length inp - ip" arbitrary: ip out op rule: less_induct)
  case less
  consider "\<not> ip < length inp" | "ip < length inp" "unat (inp ! ip) < 32" | "ip < length inp" "\<not> unat (inp ! ip) < 32" by blast
  then show ?case
  proof cases
    case 1
    then show ?thesis using less.prems by (simp add: decompress_end)
  next
    case 2
    define c where "c = unat (inp ! ip)"
    define out1 where "out1 = take op out @ take (c + 1) (drop (ip + 1) inp) @ drop (op + (c + 1)) out"
    show ?thesis
    proof (cases "op + (c + 1) > length out \<or> ip + 1 + (c + 1) > length inp")
      case True
      then show ?thesis using decompress_lit [OF 2(1) c_def [symmetric], of out op] 2(2) by (auto simp: c_def)
    next
      case False
      then have "length out1 = length out" by (auto simp: out1_def)
      moreover have "lzf_decompress_loop inp ip out op = lzf_decompress_loop inp (ip + 1 + (c + 1)) out1 (op + (c + 1))"
        using decompress_lit [OF 2(1) c_def [symmetric], of out op] 2(2) False by (simp add: c_def out1_def)
      moreover have "length inp - (ip + 1 + (c + 1)) < length inp - ip" using 2(1) by linarith
      ultimately show ?thesis using less.hyps [of "ip + 1 + (c + 1)" "op + (c + 1)" out1] False by simp
    qed
  next
    case 3
    define c where "c = unat (inp ! ip)"
    define k :: nat where "k = (if drop_bit 5 c = 7 then 1 else 0)"
    define len where "len = drop_bit 5 c + (if k = 1 then unat (inp ! (ip + 1)) else 0)"
    define ref where "ref = ref_of op c (inp ! (ip + 1 + k))"
    note D = decompress_ref [OF 3(1) c_def [symmetric] 3(2) [folded c_def] k_def len_def ref_def, of out]
    show ?thesis
    proof (cases "ip + 1 + k \<ge> length inp \<or> op + len + 2 > length out \<or> ref < 0")
      case True
      then show ?thesis unfolding D by auto
    next
      case False
      moreover have "ref < int op" unfolding ref_def ref_of_def by linarith
      ultimately have "nat ref < op" by linarith
      then obtain out1 where o: "copy_ref out (nat ref) op len = Some out1" "length out1 = length out"
        using copy_ref_ok [of "nat ref" op len out] False by auto
      have "length inp - (ip + 1 + k + 1) < length inp - ip" using 3(1) by linarith
      then show ?thesis using less.hyps [of "ip + 1 + k + 1" "op + len + 2" out1] False D o by simp
    qed
  qed
qed


subsection \<open>Tokens\<close>

text \<open>A literal run, and a back reference that copies \<open>n\<close> bytes from \<open>off + 1\<close> bytes before the end.\<close>

datatype lzf_tok = Lit "u8 list" | Ref nat nat

fun tok_bytes :: "lzf_tok \<Rightarrow> u8 list" where
  "tok_bytes (Lit bs) = of_nat (length bs - 1) # bs"
| "tok_bytes (Ref off n) =
     (if n < 9 then [of_nat (off div 256 + 32 * (n - 2)), of_nat off] else [of_nat (off div 256 + 224), of_nat (n - 9), of_nat off])"

fun tok_len :: "lzf_tok \<Rightarrow> nat" where
  "tok_len (Lit bs) = length bs"
| "tok_len (Ref off n) = n"

fun tok_ok :: "nat \<Rightarrow> lzf_tok \<Rightarrow> bool" where
  "tok_ok p (Lit bs) \<longleftrightarrow> bs \<noteq> [] \<and> length bs \<le> 32"
| "tok_ok p (Ref off n) \<longleftrightarrow> off < 8192 \<and> off < p \<and> 3 \<le> n \<and> n \<le> 264"

text \<open>\<open>tok_at xs t p\<close>: the bytes of \<open>xs\<close> from \<open>p\<close> on are what the token stands for.\<close>

fun tok_at :: "u8 list \<Rightarrow> lzf_tok \<Rightarrow> nat \<Rightarrow> bool" where
  "tok_at xs (Lit bs) p \<longleftrightarrow> take (length bs) (drop p xs) = bs"
| "tok_at xs (Ref off n) p \<longleftrightarrow> repeats (off + 1) p n xs"

fun toks_at :: "u8 list \<Rightarrow> lzf_tok list \<Rightarrow> nat \<Rightarrow> bool" where
  "toks_at xs [] p \<longleftrightarrow> True"
| "toks_at xs (t # ts) p \<longleftrightarrow> tok_ok p t \<and> p + tok_len t \<le> length xs \<and> tok_at xs t p \<and> toks_at xs ts (p + tok_len t)"

definition toks_len :: "lzf_tok list \<Rightarrow> nat" where
  "toks_len ts = sum_list (map tok_len ts)"

definition toks_bytes :: "lzf_tok list \<Rightarrow> u8 list" where
  "toks_bytes ts = concat (map tok_bytes ts)"

lemma toks_len_simps [simp]: "toks_len [] = 0" "toks_len (t # ts) = tok_len t + toks_len ts" "toks_len (ts @ us) = toks_len ts + toks_len us"
  by (simp_all add: toks_len_def)

lemma toks_bytes_simps [simp]: "toks_bytes [] = []" "toks_bytes (t # ts) = tok_bytes t @ toks_bytes ts"
  "toks_bytes (ts @ us) = toks_bytes ts @ toks_bytes us"
  by (simp_all add: toks_bytes_def)

lemma toks_at_append: "toks_at xs (ts @ us) p \<longleftrightarrow> toks_at xs ts p \<and> toks_at xs us (p + toks_len ts)"
  by (induction ts arbitrary: p) (auto simp: add.assoc)

text \<open>Equal prefixes and the same repetition give equal longer prefixes.\<close>

lemma repeats_prefix:
  assumes "take p xs = take p ys" "repeats d p n xs" "repeats d p n ys" "0 < d" "d \<le> p" "p + n \<le> length xs" "p + n \<le> length ys"
  shows "take (p + n) xs = take (p + n) ys"
proof -
  have "xs ! i = ys ! i" if "i < p + n" for i
    using that
  proof (induction i rule: less_induct)
    case (less i)
    show ?case
    proof (cases "i < p")
      case True
      then show ?thesis using arg_cong [OF assms(1), of "\<lambda>zs. zs ! i"] by simp
    next
      case False
      then have "xs ! i = xs ! (i - d)" "ys ! i = ys ! (i - d)" using assms(2,3) less.prems by (auto simp: repeats_def)
      then show ?thesis using less.IH [of "i - d"] less.prems assms(4,5) False by simp
    qed
  qed
  then show ?thesis using assms(6,7) by (intro nth_equalityI) auto
qed


subsection \<open>Reading tokens\<close>

lemma bytes_at: "take (length bs) (drop ip inp) = bs \<Longrightarrow> i < length bs \<Longrightarrow> ip + i < length inp \<and> inp ! (ip + i) = bs ! i"
proof -
  assume *: "take (length bs) (drop ip inp) = bs" "i < length bs"
  have "length bs \<le> length inp - ip" using arg_cong [OF *(1), of length] by simp
  then have "ip + i < length inp" using *(2) by linarith
  then show ?thesis using arg_cong [OF *(1), of "\<lambda>zs. zs ! i"] *(2) by simp
qed

lemma unat_of_nat_8: "n < 256 \<Longrightarrow> unat (of_nat n :: u8) = n"
  by (simp add: unat_of_nat)

lemma decompress_tok:
  assumes t: "tok_ok op t" "tok_at xs t op" "op + tok_len t \<le> length xs" and b: "take (length (tok_bytes t)) (drop ip inp) = tok_bytes t"
    and out: "take op out = take op xs" "length xs \<le> length out"
  shows "\<exists>out'. lzf_decompress_loop inp ip out op = lzf_decompress_loop inp (ip + length (tok_bytes t)) out' (op + tok_len t) \<and>
    length out' = length out \<and> take (op + tok_len t) out' = take (op + tok_len t) xs"
proof (cases t)
  case (Lit bs)
  have bs: "0 < length bs" "length bs \<le> 32" "take (length bs) (drop op xs) = bs" using t(1,2) Lit by auto
  define h where "h = length bs - 1"
  have h: "unat (of_nat h :: u8) = h" by (rule unat_of_nat_8) (use bs(2) in \<open>simp add: h_def\<close>)
  have "tok_bytes t = of_nat h # bs" by (simp add: Lit h_def)
  then have ip: "ip < length inp" "unat (inp ! ip) = length bs - 1"
    using bytes_at [OF b, of 0] h unfolding h_def [symmetric] by simp_all
  have fits: "ip + length bs < length inp" using bytes_at [OF b, of "length bs"] Lit by simp
  have "take (length bs) (drop (ip + 1) inp) = bs"
    using arg_cong [OF b, of tl] Lit by (simp add: tl_take tl_drop drop_Suc)
  then have "lzf_decompress_loop inp ip out op = lzf_decompress_loop inp (ip + 1 + length bs) (take op out @ bs @ drop (op + length bs) out) (op + length bs)"
    using decompress_lit [OF ip, of out op] bs fits out(2) t(3) Lit by simp
  moreover have "length (take op out @ bs @ drop (op + length bs) out) = length out" using out(2) t(3) Lit by simp
  moreover have "take (op + length bs) (take op out @ bs @ drop (op + length bs) out) = take (op + length bs) xs"
    using out t(3) bs(3) Lit by (simp add: take_add)
  ultimately show ?thesis using Lit by (intro exI [of _ "take op out @ bs @ drop (op + length bs) out"]) simp
next
  case (Ref off n)
  have o: "off < 8192" "off < op" "3 \<le> n" "n \<le> 264" "repeats (off + 1) op n xs" using t(1,2) Ref by auto
  define c where "c = off div 256 + (if n < 9 then 32 * (n - 2) else 224)"
  have c256: "c < 256" using o(1,3) by (auto simp: c_def)
  have ip: "ip < length inp" "unat (inp ! ip) = c"
    using bytes_at [OF b, of 0] Ref unat_of_nat_8 [OF c256] by (auto simp: c_def split: if_splits)
  have c32: "\<not> c < 32" "drop_bit 5 c = (if n < 9 then n - 2 else 7)" "c AND 31 = off div 256"
  proof -
    have "off div 256 < 32" using o(1) by simp
    then show "\<not> c < 32" "drop_bit 5 c = (if n < 9 then n - 2 else 7)" using o(3) by (auto simp: c_def drop_bit_eq_div)
    have "c AND 31 = c mod 32" using take_bit_eq_mask [of 5 c] by (simp add: take_bit_eq_mod mask_eq_exp_minus_1)
    then show "c AND 31 = off div 256" using \<open>off div 256 < 32\<close> by (auto simp: c_def mod_add_eq [symmetric])
  qed
  define k :: nat where "k = (if drop_bit 5 c = 7 then 1 else 0)"
  have k: "k = (if n < 9 then 0 else 1)" using c32(2) o(3) by (auto simp: k_def)
  have last: "ip + 1 + k < length inp" "unat (inp ! (ip + 1 + k)) = off mod 256"
    using bytes_at [OF b, of "1 + k"] Ref k by (auto simp: unat_of_nat split: if_splits)
  have len: "drop_bit 5 c + (if k = 1 then unat (inp ! (ip + 1)) else 0) = n - 2"
  proof (cases "n < 9")
    case False
    have "unat (of_nat (n - 9) :: u8) = n - 9" by (rule unat_of_nat_8) (use o(4) in simp)
    moreover have "inp ! (ip + 1) = of_nat (n - 9)" using bytes_at [OF b, of 1] Ref False by (simp del: of_nat_diff)
    ultimately show ?thesis using False k c32(2) by simp
  qed (use k c32(2) in simp)
  have ref: "ref_of op c (inp ! (ip + 1 + k)) = int op - int off - 1"
  proof -
    have "int off = int (off div 256 * 256) + int (off mod 256)" by (metis div_mult_mod_eq of_nat_add)
    then show ?thesis using last(2) c32(3) unfolding ref_of_def by (simp add: push_bit_eq_mult)
  qed
  have D: "lzf_decompress_loop inp ip out op =
     do { out \<leftarrow> copy_ref out (op - off - 1) op (n - 2); lzf_decompress_loop inp (ip + 1 + k + 1) out (op + (n - 2) + 2) }"
  proof -
    have "\<not> ip + 1 + k \<ge> length inp" "\<not> op + (n - 2) + 2 > length out" "\<not> int op - int off - 1 < 0" "nat (int op - int off - 1) = op - off - 1"
      using last(1) o(2,3) out(2) t(3) Ref by auto
    then show ?thesis unfolding decompress_ref [OF ip c32(1) k_def len [symmetric] ref [symmetric], of out] by (simp only: if_False)
  qed
  obtain out' where o': "copy_ref out (op - off - 1) op (n - 2) = Some out'" "length out' = length out" "take op out' = take op out"
    "repeats (op - (op - off - 1)) op (n - 2 + 2) out'"
  proof -
    have "op - off - 1 < op" "op + (n - 2) + 2 \<le> length out" using o(2,3) out(2) t(3) Ref by simp_all
    then show ?thesis using copy_ref_ok [of "op - off - 1" op "n - 2" out] that by blast
  qed
  have "op - (op - off - 1) = off + 1" "n - 2 + 2 = n" using o(2,3) by simp_all
  then have "repeats (off + 1) op n out'" using o'(4) by (simp only:)
  then have "take (op + n) out' = take (op + n) xs"
    using repeats_prefix [of op out' xs "off + 1" n] o' o out t(3) Ref by simp
  moreover have "length (tok_bytes t) = 1 + k + 1" using Ref k by simp
  moreover have "lzf_decompress_loop inp ip out op = lzf_decompress_loop inp (ip + (1 + k + 1)) out' (op + n)"
  proof -
    have "op + (n - 2) + 2 = op + n" "ip + 1 + k + 1 = ip + (1 + k + 1)" using o(3) by simp_all
    then show ?thesis unfolding D o'(1) bind.bind_lunit by (simp only:)
  qed
  ultimately show ?thesis using o'(2) Ref by (intro exI [of _ out']) simp
qed

lemma decompress_toks:
  assumes "toks_at xs ts op" "drop ip inp = toks_bytes ts" "take op out = take op xs" "length xs \<le> length out" "op + toks_len ts = length xs"
  shows "\<exists>out'. lzf_decompress_loop inp ip out op = Some (length xs, out', NoErr) \<and> length out' = length out \<and> take (length xs) out' = xs"
  using assms
proof (induction ts arbitrary: ip op out)
  case Nil
  then show ?case by (simp add: decompress_end)
next
  case (Cons t ts)
  have "take (length (tok_bytes t)) (drop ip inp) = tok_bytes t" using Cons.prems(2) by simp
  then obtain out1 where 1: "lzf_decompress_loop inp ip out op = lzf_decompress_loop inp (ip + length (tok_bytes t)) out1 (op + tok_len t)"
    "length out1 = length out" "take (op + tok_len t) out1 = take (op + tok_len t) xs"
    using decompress_tok [of op t xs ip inp out] Cons.prems by auto
  have "drop (ip + length (tok_bytes t)) inp = toks_bytes ts"
    using arg_cong [OF Cons.prems(2), of "drop (length (tok_bytes t))"] by (simp add: add.commute)
  then show ?case using Cons.IH [of "op + tok_len t" "ip + length (tok_bytes t)" out1] 1 Cons.prems by (simp add: add.assoc)
qed

end
