(* ===== verification/Lzf_Props.thy ===== *)
theory Lzf_Props
  imports Lzf_Format
begin

unbundle bit_operations_syntax

text \<open>
  The compressor writes the tokens of a list of tokens that stands for its input, whatever its hash table holds at the
  start, so that the decompressor gives the input back.
\<close>

subsection \<open>Matches\<close>

definition agree :: "u8 list \<Rightarrow> nat \<Rightarrow> nat \<Rightarrow> nat \<Rightarrow> bool" where
  "agree inp r ip n \<longleftrightarrow> (\<forall>j < n. inp ! (r + j) = inp ! (ip + j))"

lemma agree_Suc: "agree inp r ip (Suc n) \<longleftrightarrow> agree inp r ip n \<and> inp ! (r + n) = inp ! (ip + n)"
  by (auto simp: agree_def less_Suc_eq)

lemma agree_repeats: "agree inp r ip n \<Longrightarrow> r < ip \<Longrightarrow> repeats (ip - r) ip n inp"
proof -
  assume *: "agree inp r ip n" "r < ip"
  have "inp ! i = inp ! (i - (ip - r))" if "ip \<le> i" "i < ip + n" for i
  proof -
    have "i = ip + (i - ip)" "i - (ip - r) = r + (i - ip)" "i - ip < n" using that *(2) by simp_all
    then show ?thesis using *(1) unfolding agree_def by metis
  qed
  then show ?thesis by (simp add: repeats_def)
qed

lemma match_run_ok:
  assumes "r < ip" "ip + len + n < length inp" "agree inp r ip (len + 1)"
  shows "\<exists>broke len'. match_run inp r ip n len = Some (broke, len') \<and> len \<le> len' \<and> len' \<le> len + n \<and>
    (if broke then len < len' \<and> agree inp r ip len' else len' = len + n \<and> agree inp r ip (len' + 1))"
  using assms
proof (induction n arbitrary: len)
  case (Suc n)
  have rds: "rd inp (r + (len + 1)) = Some (inp ! (r + (len + 1)))" "rd inp (ip + (len + 1)) = Some (inp ! (ip + (len + 1)))"
    using Suc.prems by (simp_all add: rd_eq)
  show ?case
  proof (cases "inp ! (r + (len + 1)) = inp ! (ip + (len + 1))")
    case True
    then have "agree inp r ip (len + 1 + 1)" using Suc.prems(3) agree_Suc [of inp r ip "len + 1"] by simp
    then have "\<exists>broke len'. match_run inp r ip n (len + 1) = Some (broke, len') \<and> len + 1 \<le> len' \<and> len' \<le> len + 1 + n \<and>
      (if broke then len + 1 < len' \<and> agree inp r ip len' else len' = len + 1 + n \<and> agree inp r ip (len' + 1))"
      by (intro Suc.IH) (use Suc.prems in simp_all)
    then obtain broke len' where m: "match_run inp r ip n (len + 1) = Some (broke, len')" "len + 1 \<le> len'" "len' \<le> len + 1 + n"
      "if broke then len + 1 < len' \<and> agree inp r ip len' else len' = len + 1 + n \<and> agree inp r ip (len' + 1)" by blast
    have "match_run inp r ip (Suc n) len = Some (broke, len')" unfolding match_run.simps rds bind.bind_lunit using True m(1) by simp
    moreover have "if broke then len < len' \<and> agree inp r ip len' else len' = len + Suc n \<and> agree inp r ip (len' + 1)"
      using m(4) by (cases broke) auto
    ultimately show ?thesis using m(2,3) by (intro exI [of _ broke] exI [of _ len'] conjI) simp_all
  next
    case False
    then show ?thesis unfolding match_run.simps rds bind.bind_lunit using Suc.prems(3) by simp
  qed
qed simp

lemma match_do_ok:
  assumes "r < ip" "ip + maxlen \<le> length inp" "agree inp r ip (len + 1)"
  shows "\<exists>n. match_do inp r ip maxlen len = Some n \<and> len + 1 \<le> n \<and> n \<le> max (len + 1) maxlen \<and> agree inp r ip n"
  using assms
proof (induction "maxlen - len" arbitrary: len rule: less_induct)
  case less
  show ?case
  proof (cases "len + 1 < maxlen")
    case False
    then show ?thesis using less.prems by (subst match_do.simps) simp
  next
    case True
    have rds: "rd inp (r + (len + 1)) = Some (inp ! (r + (len + 1)))" "rd inp (ip + (len + 1)) = Some (inp ! (ip + (len + 1)))"
      using less.prems True by (simp_all add: rd_eq)
    show ?thesis
    proof (cases "inp ! (r + (len + 1)) = inp ! (ip + (len + 1))")
      case eq: True
      then have "agree inp r ip (len + 1 + 1)" using less.prems(3) agree_Suc [of inp r ip "len + 1"] by simp
      then have "\<exists>n. match_do inp r ip maxlen (len + 1) = Some n \<and> len + 1 + 1 \<le> n \<and> n \<le> max (len + 1 + 1) maxlen \<and> agree inp r ip n"
        using less.hyps [of "len + 1"] less.prems True by simp
      then show ?thesis unfolding match_do.simps [of inp r ip maxlen len] rds bind.bind_lunit using True eq by auto
    next
      case False
      then show ?thesis unfolding match_do.simps [of inp r ip maxlen len] rds bind.bind_lunit using True less.prems(3) by auto
    qed
  qed
qed

lemma match_len_ok:
  assumes "r < ip" "ip + 2 < length inp" "agree inp r ip 3"
    and m: "maxlen = (if length inp - ip - 2 > MAX_REF then MAX_REF else length inp - ip - 2)"
  shows "\<exists>n. match_len inp r ip maxlen = Some n \<and> 3 \<le> n \<and> n \<le> 264 \<and> ip + n \<le> length inp \<and> agree inp r ip n"
proof -
  have mx: "maxlen \<le> 264" "ip + maxlen + 2 \<le> length inp" using m assms(2) by auto
  obtain broke len where run: "(if maxlen > 16 then match_run inp r ip 16 2 else Some (False, 2)) = Some (broke, len)" "2 \<le> len"
    "len \<le> (if maxlen > 16 then 18 else 2)" "if broke then 2 < len \<and> agree inp r ip len else agree inp r ip (len + 1)"
  proof (cases "maxlen > 16")
    case True
    then show ?thesis using that match_run_ok [OF assms(1), of 2 16 inp] assms(3) mx by (auto split: if_splits)
  next
    case False
    then show ?thesis using that [of False 2] assms(3) by simp
  qed
  show ?thesis
  proof (cases broke)
    case True
    then show ?thesis using run mx by (auto simp: match_len_def split: if_splits)
  next
    case False
    obtain n where n: "match_do inp r ip maxlen len = Some n" "len + 1 \<le> n" "n \<le> max (len + 1) maxlen" "agree inp r ip n"
      using match_do_ok [OF assms(1), of maxlen inp len] run(4) False mx by auto
    have "match_len inp r ip maxlen = Some n" using run(1) False n(1) by (simp add: match_len_def)
    moreover have "ip + n \<le> length inp" "n \<le> 264" using n(3) run(3) mx assms(2) by (auto split: if_splits)
    ultimately show ?thesis using n run(2) by auto
  qed
qed

text \<open>Only a reference to an earlier byte of the input passes the tests, if the input does not lie in the first
  \<open>MAX_OFF\<close> bytes of the address space.\<close>

lemma is_match_ok:
  fixes base ref :: u64
  assumes base: "8192 \<le> unat base" "unat base + length inp \<le> 2 ^ 64" and ip: "ip + 2 < length inp" and off: "off = base + of_nat ip - ref - 1"
  shows "\<exists>b. is_match base inp ip ref off = Some b \<and>
    (b \<longrightarrow> unat (ref - base) < ip \<and> off = of_nat (ip - 1 - unat (ref - base)) \<and> ip - 1 - unat (ref - base) < 8192 \<and> agree inp (unat (ref - base)) ip 3)"
proof (cases "off < MAX_OFF \<and> ref > base")
  case False
  then show ?thesis by (auto simp: is_match_def)
next
  case True
  define r where "r = unat (ref - base)"
  have u: "unat off < 8192" "unat base < unat ref" using True by (simp_all add: word_less_nat_alt)
  have r: "unat base + r = unat ref" using u(2) by (simp add: r_def unat_sub word_le_nat_alt)
  have "ref + off + 1 = base + of_nat ip" by (simp add: off)
  then have "(of_nat (unat ref + unat off + 1) :: u64) = of_nat (unat base + ip)" by (simp add: ac_simps)
  then have "(unat ref + unat off + 1) mod 2 ^ 64 = (unat base + ip) mod 2 ^ 64"
    using unat_of_nat [of "unat ref + unat off + 1", where 'a = 64] unat_of_nat [of "unat base + ip", where 'a = 64] by simp
  moreover have "(unat base + ip) mod 2 ^ 64 = unat base + ip" using base(2) ip by (intro mod_less) simp
  moreover have "unat ref < 2 ^ 64" by (rule unat_less_64)
  ultimately have "unat ref + unat off + 1 = unat base + ip"
    using u(1) base(1) by (cases "unat ref + unat off + 1 < 2 ^ 64") (auto simp: le_mod_geq not_less)
  then have e: "r + unat off + 1 = ip" using r by simp
  then have of: "off = of_nat (ip - 1 - r)" "ip - 1 - r < 8192" "r < ip" using u(1) by auto
  have rds: "rd inp (r + 2) = Some (inp ! (r + 2))" "rd inp (ip + 2) = Some (inp ! (ip + 2))"
    "rd_n inp r 2 = Some [inp ! r, inp ! (r + 1)]" "rd_n inp ip 2 = Some [inp ! ip, inp ! (ip + 1)]"
    using ip of(3) by (simp_all add: rd_eq rd_n_eq_Some less_2_cases_iff nth_Cons')
  have "is_match base inp ip ref off = Some (inp ! (r + 2) = inp ! (ip + 2) \<and> inp ! r = inp ! ip \<and> inp ! (r + 1) = inp ! (ip + 1))"
    unfolding is_match_def r_def [symmetric] Let_def rds bind.bind_lunit using True by simp
  then show ?thesis using of unfolding r_def [symmetric] by (auto simp: agree_def less_Suc_eq numeral_3_eq_3)
qed


subsection \<open>Writing tokens\<close>

lemma ucast_8_of_nat: "n < 2 ^ 64 \<Longrightarrow> (ucast (of_nat n :: u64) :: u8) = of_nat n"
  by (rule word_unat_eq_iff [THEN iffD2]) (simp add: unsigned_ucast_eq unat_of_nat take_bit_eq_mod mod_mod_cancel)

lemma take_write: "p < length out \<Longrightarrow> take (p + 1 + n) (out[p := v]) = take p out @ v # take n (drop (p + 1) out)"
  by (simp add: upd_conv_take_nth_drop)

lemma emit_ref_ok:
  assumes o: "o' < 8192" and n: "3 \<le> n" "n \<le> 264" and op: "op + 3 \<le> length out"
  shows "\<exists>out'. emit_ref out op (of_nat o') (n - 2) = Some (out', op + length (tok_bytes (Ref o' n))) \<and> length out' = length out \<and>
    take (op + length (tok_bytes (Ref o' n))) out' = take op out @ tok_bytes (Ref o' n)"
proof -
  have d: "drop_bit 8 (of_nat o' :: u64) = of_nat (o' div 256)"
    by (rule word_unat_eq_iff [THEN iffD2]) (use o less_imp_diff_less in \<open>simp add: unsigned_drop_bit_eq unat_of_nat drop_bit_eq_div unat_div_distrib\<close>)
  have b: "(ucast (drop_bit 8 (of_nat o') + push_bit 5 (of_nat k) :: u64) :: u8) = of_nat (o' div 256 + 32 * k)" if "k < 256" for k
    unfolding d using ucast_8_of_nat [of "o' div 256 + 32 * k"] o that by (simp add: push_bit_eq_mult mult.commute)
  have c: "(ucast (of_nat o' :: u64) :: u8) = of_nat o'" using ucast_8_of_nat [of o'] o by simp
  have tk: "take (op + 2) (out[op := x, op + 1 := y]) = take op out @ [x, y]" "take (op + 3) (out[op := x, op + 1 := y, op + 2 := z]) = take op out @ [x, y, z]"
    for x y z :: u8
    by (rule nth_equalityI; use op in \<open>auto simp: nth_append nth_list_update nth_Cons' less_Suc_eq\<close>)+
  show ?thesis
  proof (cases "n < 9")
    case True
    let ?o = "out[op := of_nat (o' div 256 + 32 * (n - 2)), op + 1 := of_nat o']"
    have "emit_ref out op (of_nat o') (n - 2) = Some (?o, op + 2)"
      unfolding emit_ref_def c b [of "n - 2", OF less_trans [of _ 7]] using True op n b [of "n - 2"] by (simp add: wr_eq)
    then show ?thesis using True tk(1) by (intro exI [of _ ?o]) simp
  next
    case False
    let ?o = "out[op := of_nat (o' div 256 + 224), op + 1 := of_nat (n - 9), op + 2 := of_nat o']"
    have "emit_ref out op (of_nat o') (n - 2) = Some (?o, op + 3)"
      unfolding emit_ref_def c using False op n b [of 7] by (simp add: wr_eq)
    moreover have "length (tok_bytes (Ref o' n)) = 3" "tok_bytes (Ref o' n) = [of_nat (o' div 256 + 224), of_nat (n - 9), of_nat o']" using False by simp_all
    ultimately show ?thesis using tk(2) by (intro exI [of _ ?o]) (simp only: length_list_update)
  qed
qed

text \<open>The state of the compressor: the tokens \<open>ts\<close> written so far stand for the input before the current run, whose bytes
  follow the place of its header.\<close>

definition run_state :: "u8 list \<Rightarrow> nat \<Rightarrow> nat \<Rightarrow> nat \<Rightarrow> u8 list \<Rightarrow> lzf_tok list \<Rightarrow> bool" where
  "run_state inp ip op lit out ts \<longleftrightarrow> toks_at inp ts 0 \<and> toks_len ts + lit = ip \<and> ip \<le> length inp \<and> lit < 32 \<and> lit + 1 \<le> op \<and>
     op \<le> length out + 1 \<and> take (op - lit - 1) out = toks_bytes ts \<and> take lit (drop (op - lit) out) = take lit (drop (ip - lit) inp)"

lemma run_fits: "run_state inp ip op lit out ts \<Longrightarrow> lit = 0 \<or> op \<le> length out"
proof -
  assume *: "run_state inp ip op lit out ts"
  then have "length (take lit (drop (op - lit) out)) = lit" by (auto simp: run_state_def)
  then show ?thesis using * by (auto simp: run_state_def min_def split: if_splits)
qed

text \<open>\<open>op [- lit - 1] = lit - 1; op -= !lit\<close> ends the run.\<close>

lemma close_run:
  assumes st: "run_state inp ip op lit out ts" and w: "op - lit - 1 < length out"
    and out': "out' = out[op - lit - 1 := word_of_int (int lit - 1)]" and op': "op' = op - (if lit = 0 then 1 else 0)"
  shows "\<exists>ts'. toks_at inp ts' 0 \<and> toks_len ts' = ip \<and> take op' out' = toks_bytes ts'"
proof (cases "lit = 0")
  case True
  then show ?thesis using st out' op' by (intro exI [of _ ts]) (simp add: run_state_def)
next
  case False
  define bs where "bs = take lit (drop (ip - lit) inp)"
  have len: "length bs = lit" using st by (auto simp: run_state_def bs_def)
  have fit: "op \<le> length out" using run_fits [OF st] False by simp
  have at: "toks_at inp (ts @ [Lit bs]) 0"
    using st False len unfolding toks_at_append by (auto simp: run_state_def bs_def)
  have hd: "word_of_int (int lit - 1) = (of_nat (lit - 1) :: u8)" using False by (simp add: of_nat_diff)
  define p where "p = op - lit - 1"
  have p: "op = p + 1 + lit" using st by (simp add: p_def run_state_def)
  have o: "out' = out[p := of_nat (lit - 1)]" unfolding out' hd p_def ..
  have "take op out' = take p out @ of_nat (lit - 1) # take lit (drop (p + 1) out)"
    unfolding o p by (rule take_write) (use w [folded p_def] in simp)
  also have "take p out = toks_bytes ts" using st by (simp add: run_state_def p_def)
  also have "take lit (drop (p + 1) out) = bs" using st p by (simp add: run_state_def bs_def)
  finally have "take op out' = toks_bytes (ts @ [Lit bs])" using len by simp
  then show ?thesis using at st len False op' by (intro exI [of _ "ts @ [Lit bs]"]) (auto simp: run_state_def)
qed

lemma literal_step:
  assumes st: "run_state inp ip op lit out ts" and ip: "ip < length inp" and op: "op < length out"
  shows "\<exists>out' op' lit' ts'. do { out \<leftarrow> wr out op (inp ! ip); stop_full_run out (op + 1) (lit + 1) } = Some (out', op', lit') \<and>
    run_state inp (ip + 1) op' lit' out' ts' \<and> length out' = length out \<and> (op', lit') = (if lit = 31 then (op + 2, 0) else (op + 1, lit + 1))"
proof -
  define out1 where "out1 = out[op := inp ! ip]"
  have b: "lit + 1 \<le> op" "lit \<le> ip" "lit < 32" using st by (auto simp: run_state_def)
  have 1: "toks_at inp ts 0" "toks_len ts + (lit + 1) = ip + 1" "take (op + 1 - (lit + 1) - 1) out1 = toks_bytes ts"
    using st b by (simp_all add: run_state_def out1_def)
  have 2: "take (lit + 1) (drop (op + 1 - (lit + 1)) out1) = take (lit + 1) (drop (ip + 1 - (lit + 1)) inp)"
  proof -
    have "drop (op - lit) out1 = (drop (op - lit) out)[lit := inp ! ip]" using b by (simp add: out1_def drop_update_swap)
    moreover have "take (lit + 1) ((drop (op - lit) out)[lit := inp ! ip]) = take lit (drop (op - lit) out) @ [inp ! ip]"
      using b op by (simp add: take_Suc_conv_app_nth)
    moreover have "take (lit + 1) (drop (ip - lit) inp) = take lit (drop (ip - lit) inp) @ [inp ! ip]"
      using b ip by (simp add: take_Suc_conv_app_nth)
    ultimately show ?thesis using st by (simp add: run_state_def)
  qed
  show ?thesis
  proof (cases "lit = 31")
    case False
    then have "run_state inp (ip + 1) (op + 1) (lit + 1) out1 ts" using 1 2 b ip op by (simp add: run_state_def out1_def)
    then show ?thesis using False op by (intro exI [of _ out1] exI [of _ "op + 1"] exI [of _ "lit + 1"] exI [of _ ts])
      (simp add: stop_full_run_def wr_eq out1_def)
  next
    case True
    define bs where "bs = take 32 (drop (ip + 1 - 32) inp)"
    define p where "p = op - 32"
    have len: "length bs = 32" using b ip True by (simp add: bs_def)
    have p: "op + 1 = p + 1 + 32" using b True by (simp add: p_def)
    define out2 where "out2 = out1[p := 31]"
    have l1: "length out1 = length out" by (simp add: out1_def)
    have "take (op + 1) out2 = take p out1 @ 31 # take 32 (drop (p + 1) out1)"
      unfolding out2_def p by (rule take_write) (use op p l1 in simp)
    also have "take p out1 = toks_bytes ts" using 1(3) True p by simp
    also have "take 32 (drop (p + 1) out1) = bs" using 2 True p by (simp add: bs_def)
    finally have tb: "take (op + 1) out2 = toks_bytes (ts @ [Lit bs])" using len by simp
    have "toks_at inp (ts @ [Lit bs]) 0"
      using 1 b ip True len unfolding toks_at_append by (auto simp: bs_def)
    then have "run_state inp (ip + 1) (op + 2) 0 out2 (ts @ [Lit bs])"
      using tb 1(2) len True ip op l1 by (simp add: run_state_def out2_def)
    moreover have "do { out \<leftarrow> wr out op (inp ! ip); stop_full_run out (op + 1) (lit + 1) } = Some (out2, op + 2, 0)"
      using True op p l1 by (simp add: stop_full_run_def wr_eq out1_def [symmetric] out2_def p_def)
    ultimately show ?thesis using True l1 by (intro exI [of _ out2] exI [of _ "op + 2"] exI [of _ 0] exI [of _ "ts @ [Lit bs]"]) (simp add: out2_def)
  qed
qed


subsection \<open>The compressor\<close>

lemma enter_two_ok: "2 \<le> ip \<Longrightarrow> ip + 2 < length inp \<Longrightarrow> \<exists>h t. enter_two base inp ip htab = Some (h, t)"
  by (simp add: enter_two_def FRST_def NEXT_def rd_eq Let_def)

definition loop_result :: "u8 list \<Rightarrow> u8 list \<Rightarrow> u8 list + nat \<times> nat \<times> nat \<times> u8 list \<Rightarrow> bool" where
  "loop_result inp out r \<longleftrightarrow> (case r of Inl out' \<Rightarrow> length out' = length out
     | Inr (ip, op, lit, out') \<Rightarrow> length inp \<le> ip + 2 \<and> length out' = length out \<and> (\<exists>ts. run_state inp ip op lit out' ts))"

lemma loop_result_cong: "length out' = length out \<Longrightarrow> loop_result inp out' r = loop_result inp out r"
  by (auto simp: loop_result_def split: sum.splits)

text \<open>One turn of the loop that finds a match.\<close>

lemma match_step:
  assumes st: "run_state inp ip op lit out ts" and ip: "ip + 2 < length inp"
    and r: "r < ip" "o' = ip - 1 - r" "o' < 8192" "agree inp r ip 3"
    and op: "op - (if lit = 0 then 1 else 0) + 3 + 1 < length out"
    and m: "maxlen = (if length inp - ip - 2 > MAX_REF then MAX_REF else length inp - ip - 2)"
  shows "\<exists>n out1 out2 op2 ts'. wr out (op - lit - 1) (word_of_int (int lit - 1)) = Some out1 \<and> match_len inp r ip maxlen = Some n \<and> 3 \<le> n \<and>
    emit_ref out1 (op - (if lit = 0 then 1 else 0)) (of_nat o') (n - 2) = Some (out2, op2) \<and>
    run_state inp (ip + n) (op2 + 1) 0 out2 ts' \<and> length out2 = length out"
proof -
  define op1 where "op1 = op - (if lit = 0 then 1 else 0)"
  define out1 where "out1 = out[op - lit - 1 := word_of_int (int lit - 1)]"
  have w: "op - lit - 1 < length out" using op st by (auto simp: run_state_def split: if_splits)
  obtain ts1 where ts1: "toks_at inp ts1 0" "toks_len ts1 = ip" "take op1 out1 = toks_bytes ts1"
    using close_run [OF st w out1_def op1_def] by blast
  obtain n where n: "match_len inp r ip maxlen = Some n" "3 \<le> n" "n \<le> 264" "ip + n \<le> length inp" "agree inp r ip n"
    using match_len_ok [OF r(1) ip r(4) m] by blast
  define tb where "tb = tok_bytes (Ref o' n)"
  have "op1 + 3 \<le> length out1" using op by (simp add: op1_def out1_def)
  then obtain out2 where out2: "emit_ref out1 op1 (of_nat o') (n - 2) = Some (out2, op1 + length tb)" "length out2 = length out1"
    "take (op1 + length tb) out2 = take op1 out1 @ tb"
    using emit_ref_ok [OF r(3) n(2,3), of op1 out1] unfolding tb_def by blast
  have "o' + 1 = ip - r" using r(1,2) by simp
  then have "repeats (o' + 1) ip n inp" using agree_repeats [OF n(5) r(1)] by simp
  then have at: "toks_at inp (ts1 @ [Ref o' n]) 0" unfolding toks_at_append using ts1 n r by simp
  have ltb: "length tb \<le> 3" by (simp add: tb_def)
  have "run_state inp (ip + n) (op1 + length tb + 1) 0 out2 (ts1 @ [Ref o' n])"
    using at ts1 n(4) out2(2,3) op ltb by (simp add: run_state_def out1_def op1_def tb_def)
  then show ?thesis using w n(1,2) out2(1,2) unfolding op1_def [symmetric]
    by (intro exI [of _ n] exI [of _ out1] exI [of _ out2] exI [of _ "op1 + length tb"] exI [of _ "ts1 @ [Ref o' n]"])
      (simp add: wr_eq out1_def)
qed

lemma compress_loop_ok:
  assumes base: "8192 \<le> unat base" "unat base + length inp \<le> 2 ^ 64" and st: "run_state inp ip op lit out ts"
  shows "\<exists>r. lzf_compress_loop base inp ip op lit hval htab out = Some r \<and> loop_result inp out r"
  using st
proof (induction "length inp - ip" arbitrary: ip op lit hval htab out ts rule: less_induct)
  case less
  show ?case
  proof (cases "ip + 2 < length inp")
    case False
    then show ?thesis using less.prems by (subst lzf_compress_loop.simps) (auto simp: loop_result_def)
  next
    case True
    obtain h where h: "NEXT hval inp ip = Some h" using True by (simp add: NEXT_def rd_eq)
    define ref where "ref = htab (IDX h)"
    define htab' where "htab' = htab(IDX h := base + of_nat ip)"
    define off where "off = base + of_nat ip - ref - 1"
    obtain found where f: "is_match base inp ip ref off = Some found"
      "found \<longrightarrow> unat (ref - base) < ip \<and> off = of_nat (ip - 1 - unat (ref - base)) \<and> ip - 1 - unat (ref - base) < 8192 \<and> agree inp (unat (ref - base)) ip 3"
      using is_match_ok [OF base True off_def] by blast
    note U = lzf_compress_loop.simps [of base inp ip op lit hval htab out, unfolded Let_def h bind.bind_lunit, folded ref_def, folded htab'_def off_def,
        unfolded f(1) bind.bind_lunit]
    show ?thesis
    proof (cases found)
      case False
      show ?thesis
      proof (cases "op \<ge> length out")
        case True
        then show ?thesis unfolding U using \<open>ip + 2 < length inp\<close> False by (simp add: loop_result_def)
      next
        case op: False
        have ipl: "ip < length inp" using True by simp
        obtain out' op' lit' ts' where l: "do { out \<leftarrow> wr out op (inp ! ip); stop_full_run out (op + 1) (lit + 1) } = Some (out', op', lit')"
          "run_state inp (ip + 1) op' lit' out' ts'" "length out' = length out"
          using literal_step [OF less.prems ipl] op by (metis not_le)
        have "lzf_compress_loop base inp ip op lit hval htab out = lzf_compress_loop base inp (ip + 1) op' lit' h htab' out'"
          unfolding U using True False op l(1) ipl by (simp add: rd_eq wr_eq)
        moreover have "length inp - (ip + 1) < length inp - ip" using ipl by linarith
        ultimately show ?thesis using less.hyps [of "ip + 1" op' lit' out' ts' h htab'] l(2) loop_result_cong [OF l(3)] by simp
      qed
    next
      case found: True
      define maxlen where "maxlen = (if length inp - ip - 2 > MAX_REF then MAX_REF else length inp - ip - 2)"
      show ?thesis
      proof (cases "op + 3 + 1 \<ge> length out \<and> op - (if lit = 0 then 1 else 0) + 3 + 1 \<ge> length out")
        case full: True
        then show ?thesis unfolding U using True found by (simp add: loop_result_def)
      next
        case room: False
        then have room': "op - (if lit = 0 then 1 else 0) + 3 + 1 < length out" by auto
        define r where "r = unat (ref - base)"
        define o' where "o' = ip - 1 - r"
        have fr: "r < ip" "off = of_nat o'" "o' < 8192" "agree inp r ip 3" using f(2) found by (auto simp: r_def o'_def)
        obtain n out1 out2 op2 ts' where m: "wr out (op - lit - 1) (word_of_int (int lit - 1)) = Some out1" "match_len inp r ip maxlen = Some n" "3 \<le> n"
          "emit_ref out1 (op - (if lit = 0 then 1 else 0)) (of_nat o') (n - 2) = Some (out2, op2)"
          "run_state inp (ip + n) (op2 + 1) 0 out2 ts'" "length out2 = length out"
          using match_step [OF less.prems True fr(1) o'_def fr(3,4) room' maxlen_def] by blast
        have n: "ip + 1 + (n - 2 + 1) = ip + n" using m(3) by simp
        have E: "lzf_compress_loop base inp ip op lit hval htab out =
          (if ip + n + 2 \<ge> length inp then Some (Inr (ip + n, op2 + 1, 0, out2))
           else do { (hval, htab) \<leftarrow> enter_two base inp (ip + n) htab'; lzf_compress_loop base inp (ip + n) (op2 + 1) 0 hval htab out2 })"
          unfolding U maxlen_def [symmetric] r_def [symmetric] fr(2) using True found room
          by (simp only: if_True if_False simp_thms m(1,2,4) bind.bind_lunit prod.case n)
        show ?thesis
        proof (cases "ip + n + 2 \<ge> length inp")
          case True
          then show ?thesis unfolding E using m(5,6) by (auto simp: loop_result_def)
        next
          case False
          then obtain h2 t2 where "enter_two base inp (ip + n) htab' = Some (h2, t2)" using enter_two_ok [of "ip + n" inp base htab'] m(3) by auto
          moreover have "length inp - (ip + n) < length inp - ip" using m(3) True by linarith
          ultimately show ?thesis unfolding E using less.hyps [of "ip + n" "op2 + 1" 0 out2 ts' h2 t2] m(5) loop_result_cong [OF m(6)] False by simp
        qed
      qed
    qed
  qed
qed

lemma compress_tail_ok:
  assumes "run_state inp ip op lit out ts" "k = length inp - ip" "op + k + (if lit + k \<ge> 32 then 1 else 0) \<le> length out" "k \<le> 2"
  shows "\<exists>op' lit' out' ts'. compress_tail inp ip op lit out = Some (op', lit', out') \<and> run_state inp (length inp) op' lit' out' ts' \<and>
    op' \<le> length out \<and> length out' = length out"
  using assms
proof (induction k arbitrary: ip op lit out ts)
  case 0
  then have "ip = length inp" by (simp add: run_state_def)
  then show ?case using 0 by (subst compress_tail.simps) auto
next
  case (Suc k)
  have ip: "ip < length inp" using Suc.prems(2) by simp
  have op: "op < length out" using Suc.prems(3) by (simp split: if_splits)
  obtain out' op' lit' ts' where l: "do { out \<leftarrow> wr out op (inp ! ip); stop_full_run out (op + 1) (lit + 1) } = Some (out', op', lit')"
    "run_state inp (ip + 1) op' lit' out' ts'" "length out' = length out" "(op', lit') = (if lit = 31 then (op + 2, 0) else (op + 1, lit + 1))"
    using literal_step [OF Suc.prems(1) ip op] by blast
  have "compress_tail inp ip op lit out = compress_tail inp (ip + 1) op' lit' out'"
    using ip op l(1) by (subst compress_tail.simps) (simp add: rd_eq wr_eq)
  moreover have "op' + k + (if lit' + k \<ge> 32 then 1 else 0) \<le> length out'"
    using l(3,4) Suc.prems(1,3,4) by (auto simp: run_state_def split: if_splits)
  moreover have "k = length inp - (ip + 1)" "k \<le> 2" using Suc.prems(2,4) by linarith+
  ultimately show ?case using Suc.IH [OF l(2)] l(3) by simp
qed

text \<open>Either the function returns 0 or it has written the bytes of tokens that stand for the input.\<close>

lemma lzf_compress_ok:
  assumes inp: "2 \<le> length inp" and base: "8192 \<le> unat base" "unat base + length inp \<le> 2 ^ 64"
  shows "\<exists>n out'. lzf_compress base htab inp out = Some (n, out') \<and> length out' = length out \<and> n \<le> length out \<and>
    (n \<noteq> 0 \<longrightarrow> (\<exists>ts. toks_at inp ts 0 \<and> toks_len ts = length inp \<and> take n out' = toks_bytes ts))"
proof (cases "length out = 0")
  case True
  then show ?thesis by (simp add: lzf_compress_def)
next
  case False
  have rds: "rd inp 0 = Some (inp ! 0)" "rd inp (0 + 1) = Some (inp ! 1)" using inp by (auto simp: rd_def)
  obtain h where h: "FRST inp 0 = Some h" unfolding FRST_def rds bind.bind_lunit by blast
  have "run_state inp 0 1 0 out []" by (simp add: run_state_def)
  then obtain r where r: "lzf_compress_loop base inp 0 1 0 h htab out = Some r" "loop_result inp out r"
    using compress_loop_ok [OF base] by blast
  have E: "lzf_compress base htab inp out = (case r of Inl out \<Rightarrow> Some (0, out)
        | Inr (ip, op, lit, out) \<Rightarrow>
          if op + 3 > length out then Some (0, out)
          else do {
            (op, lit, out) \<leftarrow> compress_tail inp ip op lit out;
            out \<leftarrow> wr out (op - lit - 1) (word_of_int (int lit - 1));
            Some (op - (if lit = 0 then 1 else 0), out) })"
    using False inp h r(1) by (auto simp: lzf_compress_def)
  show ?thesis
  proof (cases r)
    case (Inl out')
    then show ?thesis using E r(2) by (simp add: loop_result_def)
  next
    case (Inr p)
    obtain ip op lit out1 where p: "r = Inr (ip, op, lit, out1)" using Inr by (cases p) auto
    obtain ts where st: "length inp \<le> ip + 2" "length out1 = length out" "run_state inp ip op lit out1 ts"
      using r(2) unfolding p loop_result_def by auto
    show ?thesis
    proof (cases "op + 3 > length out1")
      case True
      then show ?thesis using E p st(2) by simp
    next
      case False
      have k: "length inp - ip \<le> 2" "op + (length inp - ip) + (if 32 \<le> lit + (length inp - ip) then 1 else 0) \<le> length out1"
        using False st(1) by auto
      obtain op' lit' out2 ts' where t: "compress_tail inp ip op lit out1 = Some (op', lit', out2)" "run_state inp (length inp) op' lit' out2 ts'"
        "op' \<le> length out1" "length out2 = length out1"
        using compress_tail_ok [OF st(3) refl k(2,1)] by blast
      have w: "op' - lit' - 1 < length out2" using t(2,3,4) by (auto simp: run_state_def)
      define out3 where "out3 = out2[op' - lit' - 1 := word_of_int (int lit' - 1)]"
      obtain us where us: "toks_at inp us 0" "toks_len us = length inp" "take (op' - (if lit' = 0 then 1 else 0)) out3 = toks_bytes us"
        using close_run [OF t(2) w out3_def refl] by blast
      have "lzf_compress base htab inp out = Some (op' - (if lit' = 0 then 1 else 0), out3)"
        unfolding E p using False t(1) w by (simp add: wr_eq out3_def)
      moreover have "length out3 = length out" using t(4) st(2) by (simp add: out3_def)
      moreover have "op' - (if lit' = 0 then 1 else 0) \<le> length out" using t(3) st(2) by simp
      ultimately show ?thesis using us by blast
    qed
  qed
qed


section \<open>Properties\<close>

text \<open>C13: \<open>lzf_decompress\<close> is memory safe. On every input, also a corrupt one, and every output buffer it returns, reads and writes only inside the
  two buffers, and its result is not larger than the output buffer; it is 0 when an error is reported.\<close>

theorem lzf_decompress_safe:
  "\<exists>n out' e. lzf_decompress inp out = Some (n, out', e) \<and> length out' = length out \<and> n \<le> length out \<and> (e \<noteq> NoErr \<longrightarrow> n = 0)"
  unfolding lzf_decompress_def by (rule lzf_decompress_loop_safe) simp

theorem lzf_decompress_safe_witness:
  "\<exists>out' e. lzf_decompress [32, 0, 7] (replicate 8 0) = Some (0, out', e) \<and> e \<noteq> NoErr \<and> length out' = 8"
proof -
  obtain n out' e where r: "lzf_decompress [32, 0, 7] (replicate 8 0) = Some (n, out', e)" "length out' = length (replicate 8 (0 :: u8))"
    "e \<noteq> NoErr \<longrightarrow> n = 0"
    using lzf_decompress_safe [of "[32, 0, 7]" "replicate 8 0"] by blast
  have "e \<noteq> NoErr" using r(1) by (simp add: lzf_decompress_def lzf_decompress_loop.simps [of "[32, 0, 7]" 0] rd_def split: if_splits)
  then show ?thesis using r by simp
qed

text \<open>C3: compression loses nothing. For an input of at least two bytes, whatever the uninitialised hash table holds and however small the output
  buffer is, \<open>lzf_compress\<close> returns without leaving its buffers; unless it returns 0, the bytes it has written decompress to the input,
  in every buffer that has room for it.\<close>

theorem lzf_roundtrip:
  assumes "2 \<le> length inp" "MAX_OFF \<le> base" "unat base + length inp \<le> 2 ^ 64"
  shows "\<exists>n out'. lzf_compress base htab inp out = Some (n, out') \<and> length out' = length out \<and> n \<le> length out \<and>
    (n \<noteq> 0 \<longrightarrow> (\<forall>buf. length inp \<le> length buf \<longrightarrow>
       (\<exists>buf'. lzf_decompress (take n out') buf = Some (length inp, buf', NoErr) \<and> take (length inp) buf' = inp)))"
proof -
  have "8192 \<le> unat base" using assms(2) by (simp add: word_le_nat_alt)
  then obtain n out' where c: "lzf_compress base htab inp out = Some (n, out')" "length out' = length out" "n \<le> length out"
    "n \<noteq> 0 \<longrightarrow> (\<exists>ts. toks_at inp ts 0 \<and> toks_len ts = length inp \<and> take n out' = toks_bytes ts)"
    using lzf_compress_ok [OF assms(1) _ assms(3)] by blast
  have "\<exists>buf'. lzf_decompress (take n out') buf = Some (length inp, buf', NoErr) \<and> take (length inp) buf' = inp"
    if n: "n \<noteq> 0" and buf: "length inp \<le> length buf" for buf
  proof -
    obtain ts where ts: "toks_at inp ts 0" "toks_len ts = length inp" "take n out' = toks_bytes ts" using c(4) n by blast
    show ?thesis unfolding lzf_decompress_def using decompress_toks [OF ts(1), of 0 "take n out'" buf] ts buf by auto
  qed
  then show ?thesis using c by blast
qed

theorem lzf_roundtrip_witness:
  "\<exists>n out' buf'. lzf_compress 65536 (\<lambda>_. 65537) [7, 9] (replicate 5 0) = Some (n, out') \<and> n = 3 \<and>
     lzf_decompress (take n out') (replicate 4 0) = Some (2, buf', NoErr) \<and> take 2 buf' = [7, 9]"
proof -
  have c: "lzf_compress 65536 (\<lambda>_. 65537) [7, 9] (replicate 5 0) = Some (3, [1, 7, 9, 0, 0])"
    by (simp add: lzf_compress_def FRST_def lzf_compress_loop.simps [of _ "[7, 9]" 0] compress_tail.simps [of "[7, 9]" 0]
        compress_tail.simps [of "[7, 9]" "Suc 0"] compress_tail.simps [of "[7, 9]" "Suc (Suc 0)"] stop_full_run_def rd_def wr_def numeral_2_eq_2 eval_nat_numeral)
  obtain n out' where r: "lzf_compress 65536 (\<lambda>_. 65537) [7, 9] (replicate 5 0) = Some (n, out')"
    "n \<noteq> 0 \<longrightarrow> (\<forall>buf. length [7, 9 :: u8] \<le> length buf \<longrightarrow>
       (\<exists>buf'. lzf_decompress (take n out') buf = Some (length [7, 9 :: u8], buf', NoErr) \<and> take (length [7, 9 :: u8]) buf' = [7, 9]))"
    using lzf_roundtrip [of "[7, 9]" 65536 "\<lambda>_. 65537" "replicate 5 0"] by auto
  have "n = 3" using r(1) c by simp
  then obtain buf' where "lzf_decompress (take n out') (replicate 4 0) = Some (length [7, 9 :: u8], buf', NoErr)" "take (length [7, 9 :: u8]) buf' = [7, 9]"
    using r(2) [rule_format, of "replicate 4 0"] by auto
  then show ?thesis using r(1) \<open>n = 3\<close> by (auto simp: numeral_2_eq_2)
qed

text \<open>An input of one byte is the exception: \<open>FRST(ip)\<close> reads the byte after it.\<close>

lemma lzf_compress_overread: "out \<noteq> [] \<Longrightarrow> lzf_compress base htab [b] out = None"
  by (simp add: lzf_compress_def FRST_def rd_def)

end
