(* ===== verification/Adlist.thy ===== *)
theory Adlist
  imports Prelude
begin

text \<open>
  The doubly linked lists of \<^verbatim>\<open>adlist.c\<close> on an explicit heap. \<open>nodes\<close> maps the addresses of the allocated nodes to their
  contents, so that the use of a freed node or of NULL has no outcome; \<open>freed\<close> is the list of the values that were
  passed to the \<open>free\<close> method. A node pointer is an address or NULL. \<open>alloc\<close> stands for \<open>zmalloc\<close>: given the addresses
  in use it returns another one (it aborts the server when there is no memory). The methods of a list are part of it; the
  length is a natural number, as there are fewer nodes than bytes of memory.
\<close>

record 'v listNode =
  nd_prev :: "nat ptr"
  nd_next :: "nat ptr"
  nd_value :: 'v

record 'v mem =
  nodes :: "nat \<Rightarrow> 'v listNode option"
  freed :: "'v list"

record 'v adlist =
  l_head :: "nat ptr"
  l_tail :: "nat ptr"
  l_dup :: "('v \<Rightarrow> 'v ptr) ptr"
  l_free :: bool
  l_match :: "('v \<Rightarrow> 'v \<Rightarrow> bool) ptr"
  l_len :: nat

datatype direction = AL_START_HEAD | AL_START_TAIL

record listIter =
  iter_next :: "nat ptr"
  iter_direction :: direction


subsection \<open>Access to nodes\<close>

definition ld :: "'v mem \<Rightarrow> nat ptr \<Rightarrow> 'v listNode res" where
  "ld m p = do { a \<leftarrow> p; nodes m a }"

definition set_prev :: "'v mem \<Rightarrow> nat ptr \<Rightarrow> nat ptr \<Rightarrow> 'v mem res" where
  "set_prev m p q = do { a \<leftarrow> p; n \<leftarrow> nodes m a; Some (m\<lparr>nodes := (nodes m)(a \<mapsto> n\<lparr>nd_prev := q\<rparr>)\<rparr>) }"

definition set_next :: "'v mem \<Rightarrow> nat ptr \<Rightarrow> nat ptr \<Rightarrow> 'v mem res" where
  "set_next m p q = do { a \<leftarrow> p; n \<leftarrow> nodes m a; Some (m\<lparr>nodes := (nodes m)(a \<mapsto> n\<lparr>nd_next := q\<rparr>)\<rparr>) }"

text \<open>A new node with a value; its links are not set before the node is linked.\<close>

definition new_node :: "(nat set \<Rightarrow> nat) \<Rightarrow> 'v mem \<Rightarrow> 'v \<Rightarrow> 'v mem \<times> nat" where
  "new_node alloc m v =
     (let a = alloc (dom (nodes m))
      in (m\<lparr>nodes := (nodes m)(a \<mapsto> \<lparr>nd_prev = None, nd_next = None, nd_value = v\<rparr>)\<rparr>, a))"

definition zfree_node :: "'v mem \<Rightarrow> nat ptr \<Rightarrow> 'v mem res" where
  "zfree_node m p = do { a \<leftarrow> p; _ \<leftarrow> nodes m a; Some (m\<lparr>nodes := (nodes m)(a := None)\<rparr>) }"

definition free_value :: "'v adlist \<Rightarrow> 'v mem \<Rightarrow> 'v \<Rightarrow> 'v mem" where
  "free_value l m v = (if l_free l then m\<lparr>freed := freed m @ [v]\<rparr> else m)"


subsection \<open>Operations\<close>

definition listCreate :: "'v adlist" where
  "listCreate = \<lparr>l_head = None, l_tail = None, l_dup = None, l_free = False, l_match = None, l_len = 0\<rparr>"

fun listEmpty_loop :: "'v adlist \<Rightarrow> nat \<Rightarrow> 'v mem \<Rightarrow> nat ptr \<Rightarrow> 'v mem res" where
  "listEmpty_loop l 0 m current = Some m"
| "listEmpty_loop l (Suc len) m current = do {
     n \<leftarrow> ld m current;
     m \<leftarrow> zfree_node (free_value l m (nd_value n)) current;
     listEmpty_loop l len m (nd_next n) }"

definition listEmpty :: "'v mem \<Rightarrow> 'v adlist \<Rightarrow> ('v mem \<times> 'v adlist) res" where
  "listEmpty m l = do {
     m \<leftarrow> listEmpty_loop l (l_len l) m (l_head l);
     Some (m, l\<lparr>l_head := None, l_tail := None, l_len := 0\<rparr>) }"

definition listRelease :: "'v mem \<Rightarrow> 'v adlist ptr \<Rightarrow> 'v mem res" where
  "listRelease m l = (case l of None \<Rightarrow> Some m | Some l \<Rightarrow> do { (m, _) \<leftarrow> listEmpty m l; Some m })"

definition listReleaseGeneric :: "'v mem \<Rightarrow> 'v adlist ptr \<Rightarrow> 'v mem res" where
  "listReleaseGeneric m l = listRelease m l"

definition listLinkNodeHead :: "'v mem \<Rightarrow> 'v adlist \<Rightarrow> nat ptr \<Rightarrow> ('v mem \<times> 'v adlist) res" where
  "listLinkNodeHead m l node =
     (if l_len l = 0 then do {
        m \<leftarrow> set_next m node None;
        m \<leftarrow> set_prev m node None;
        Some (m, l\<lparr>l_head := node, l_tail := node, l_len := l_len l + 1\<rparr>) }
      else do {
        m \<leftarrow> set_prev m node None;
        m \<leftarrow> set_next m node (l_head l);
        m \<leftarrow> set_prev m (l_head l) node;
        Some (m, l\<lparr>l_head := node, l_len := l_len l + 1\<rparr>) })"

definition listAddNodeHead :: "(nat set \<Rightarrow> nat) \<Rightarrow> 'v mem \<Rightarrow> 'v adlist \<Rightarrow> 'v \<Rightarrow> ('v mem \<times> 'v adlist) res" where
  "listAddNodeHead alloc m l v = (let (m, a) = new_node alloc m v in listLinkNodeHead m l (Some a))"

definition listLinkNodeTail :: "'v mem \<Rightarrow> 'v adlist \<Rightarrow> nat ptr \<Rightarrow> ('v mem \<times> 'v adlist) res" where
  "listLinkNodeTail m l node =
     (if l_len l = 0 then do {
        m \<leftarrow> set_next m node None;
        m \<leftarrow> set_prev m node None;
        Some (m, l\<lparr>l_head := node, l_tail := node, l_len := l_len l + 1\<rparr>) }
      else do {
        m \<leftarrow> set_prev m node (l_tail l);
        m \<leftarrow> set_next m node None;
        m \<leftarrow> set_next m (l_tail l) node;
        Some (m, l\<lparr>l_tail := node, l_len := l_len l + 1\<rparr>) })"

definition listAddNodeTail :: "(nat set \<Rightarrow> nat) \<Rightarrow> 'v mem \<Rightarrow> 'v adlist \<Rightarrow> 'v \<Rightarrow> ('v mem \<times> 'v adlist) res" where
  "listAddNodeTail alloc m l v = (let (m, a) = new_node alloc m v in listLinkNodeTail m l (Some a))"

definition listInsertNode ::
  "(nat set \<Rightarrow> nat) \<Rightarrow> 'v mem \<Rightarrow> 'v adlist \<Rightarrow> nat ptr \<Rightarrow> 'v \<Rightarrow> bool \<Rightarrow> ('v mem \<times> 'v adlist) res" where
  "listInsertNode alloc m l old_node v after = do {
     let (m, a) = new_node alloc m v;
     (m, l) \<leftarrow> (if after then do {
          m \<leftarrow> set_prev m (Some a) old_node;
          o' \<leftarrow> ld m old_node;
          m \<leftarrow> set_next m (Some a) (nd_next o');
          Some (m, if l_tail l = old_node then l\<lparr>l_tail := Some a\<rparr> else l) }
        else do {
          m \<leftarrow> set_next m (Some a) old_node;
          o' \<leftarrow> ld m old_node;
          m \<leftarrow> set_prev m (Some a) (nd_prev o');
          Some (m, if l_head l = old_node then l\<lparr>l_head := Some a\<rparr> else l) });
     n \<leftarrow> ld m (Some a);
     m \<leftarrow> (if nd_prev n \<noteq> None then set_next m (nd_prev n) (Some a) else Some m);
     n \<leftarrow> ld m (Some a);
     m \<leftarrow> (if nd_next n \<noteq> None then set_prev m (nd_next n) (Some a) else Some m);
     Some (m, l\<lparr>l_len := l_len l + 1\<rparr>) }"

definition listUnlinkNode :: "'v mem \<Rightarrow> 'v adlist \<Rightarrow> nat ptr \<Rightarrow> ('v mem \<times> 'v adlist) res" where
  "listUnlinkNode m l node = do {
     n \<leftarrow> ld m node;
     (m, l) \<leftarrow> (if nd_prev n \<noteq> None then do { m \<leftarrow> set_next m (nd_prev n) (nd_next n); Some (m, l) }
        else Some (m, l\<lparr>l_head := nd_next n\<rparr>));
     n \<leftarrow> ld m node;
     (m, l) \<leftarrow> (if nd_next n \<noteq> None then do { m \<leftarrow> set_prev m (nd_next n) (nd_prev n); Some (m, l) }
        else Some (m, l\<lparr>l_tail := nd_prev n\<rparr>));
     m \<leftarrow> set_next m node None;
     m \<leftarrow> set_prev m node None;
     Some (m, l\<lparr>l_len := l_len l - 1\<rparr>) }"

definition listDelNode :: "'v mem \<Rightarrow> 'v adlist \<Rightarrow> nat ptr \<Rightarrow> ('v mem \<times> 'v adlist) res" where
  "listDelNode m l node = do {
     (m, l) \<leftarrow> listUnlinkNode m l node;
     n \<leftarrow> ld m node;
     m \<leftarrow> zfree_node (free_value l m (nd_value n)) node;
     Some (m, l) }"

definition listInitIterator :: "'v adlist \<Rightarrow> direction \<Rightarrow> listIter" where
  "listInitIterator l dir = \<lparr>iter_next = (if dir = AL_START_HEAD then l_head l else l_tail l), iter_direction = dir\<rparr>"

definition listRewind :: "'v adlist \<Rightarrow> listIter" where
  "listRewind l = \<lparr>iter_next = l_head l, iter_direction = AL_START_HEAD\<rparr>"

definition listRewindTail :: "'v adlist \<Rightarrow> listIter" where
  "listRewindTail l = \<lparr>iter_next = l_tail l, iter_direction = AL_START_TAIL\<rparr>"

definition listNext :: "'v mem \<Rightarrow> listIter \<Rightarrow> (listIter \<times> nat ptr) res" where
  "listNext m it = (let current = iter_next it in
     if current \<noteq> None then do {
       n \<leftarrow> ld m current;
       Some (it\<lparr>iter_next := (if iter_direction it = AL_START_HEAD then nd_next n else nd_prev n)\<rparr>, current) }
     else Some (it, current))"

partial_function (option) listSearchKey_loop :: "'v mem \<Rightarrow> 'v adlist \<Rightarrow> 'v \<Rightarrow> listIter \<Rightarrow> nat ptr res" where
  "listSearchKey_loop m l key it = do {
     (it, node) \<leftarrow> listNext m it;
     if node = None then Some None
     else do {
       n \<leftarrow> ld m node;
       if (case l_match l of Some f \<Rightarrow> f (nd_value n) key | None \<Rightarrow> key = nd_value n) then Some node
       else listSearchKey_loop m l key it } }"

definition listSearchKey :: "'v mem \<Rightarrow> 'v adlist \<Rightarrow> 'v \<Rightarrow> nat ptr res" where
  "listSearchKey m l key = listSearchKey_loop m l key (listRewind l)"

partial_function (option) listDup_loop ::
  "(nat set \<Rightarrow> nat) \<Rightarrow> 'v mem \<Rightarrow> 'v adlist \<Rightarrow> listIter \<Rightarrow> ('v mem \<times> 'v adlist ptr) res" where
  "listDup_loop alloc m copy it = do {
     (it, node) \<leftarrow> listNext m it;
     if node = None then Some (m, Some copy)
     else do {
       n \<leftarrow> ld m node;
       case (case l_dup copy of Some f \<Rightarrow> f (nd_value n) | None \<Rightarrow> Some (nd_value n)) of
         None \<Rightarrow> do { m \<leftarrow> listRelease m (Some copy); Some (m, None) }
       | Some v \<Rightarrow> do { (m, copy) \<leftarrow> listAddNodeTail alloc m copy v; listDup_loop alloc m copy it } } }"

definition listDup :: "(nat set \<Rightarrow> nat) \<Rightarrow> 'v mem \<Rightarrow> 'v adlist \<Rightarrow> ('v mem \<times> 'v adlist ptr) res" where
  "listDup alloc m orig =
     listDup_loop alloc m (listCreate\<lparr>l_dup := l_dup orig, l_free := l_free orig, l_match := l_match orig\<rparr>) (listRewind orig)"

fun listIndex_loop :: "direction \<Rightarrow> 'v mem \<Rightarrow> nat \<Rightarrow> nat ptr \<Rightarrow> nat ptr res" where
  "listIndex_loop dir m 0 p = Some p"
| "listIndex_loop dir m (Suc k) p =
     (if p = None then Some None
      else do { n \<leftarrow> ld m p; listIndex_loop dir m k (if dir = AL_START_HEAD then nd_next n else nd_prev n) })"

text \<open>\<open>index\<close> is a \<open>long\<close>; negating the least one overflows.\<close>

definition listIndex :: "'v mem \<Rightarrow> 'v adlist \<Rightarrow> int \<Rightarrow> nat ptr res" where
  "listIndex m l index =
     (if index = - (2 ^ 63) then None
      else if index < 0 then listIndex_loop AL_START_TAIL m (nat (- index - 1)) (l_tail l)
      else listIndex_loop AL_START_HEAD m (nat index) (l_head l))"

definition listRotateTailToHead :: "'v mem \<Rightarrow> 'v adlist \<Rightarrow> ('v mem \<times> 'v adlist) res" where
  "listRotateTailToHead m l =
     (if l_len l \<le> 1 then Some (m, l)
      else do {
        let tail = l_tail l;
        n \<leftarrow> ld m tail;
        let l = l\<lparr>l_tail := nd_prev n\<rparr>;
        m \<leftarrow> set_next m (l_tail l) None;
        m \<leftarrow> set_prev m (l_head l) tail;
        m \<leftarrow> set_prev m tail None;
        m \<leftarrow> set_next m tail (l_head l);
        Some (m, l\<lparr>l_head := tail\<rparr>) })"

definition listRotateHeadToTail :: "'v mem \<Rightarrow> 'v adlist \<Rightarrow> ('v mem \<times> 'v adlist) res" where
  "listRotateHeadToTail m l =
     (if l_len l \<le> 1 then Some (m, l)
      else do {
        let head = l_head l;
        n \<leftarrow> ld m head;
        let l = l\<lparr>l_head := nd_next n\<rparr>;
        m \<leftarrow> set_prev m (l_head l) None;
        m \<leftarrow> set_next m (l_tail l) head;
        m \<leftarrow> set_next m head None;
        m \<leftarrow> set_prev m head (l_tail l);
        Some (m, l\<lparr>l_tail := head\<rparr>) })"

definition listJoin :: "'v mem \<Rightarrow> 'v adlist \<Rightarrow> 'v adlist \<Rightarrow> ('v mem \<times> 'v adlist \<times> 'v adlist) res" where
  "listJoin m l o' =
     (if l_len o' = 0 then Some (m, l, o')
      else do {
        m \<leftarrow> set_prev m (l_head o') (l_tail l);
        (m, l) \<leftarrow> (if l_tail l \<noteq> None then do { m \<leftarrow> set_next m (l_tail l) (l_head o'); Some (m, l) }
           else Some (m, l\<lparr>l_head := l_head o'\<rparr>));
        Some (m, l\<lparr>l_tail := l_tail o', l_len := l_len l + l_len o'\<rparr>, o'\<lparr>l_head := None, l_tail := None, l_len := 0\<rparr>) })"

definition listInitNode :: "'v mem \<Rightarrow> nat ptr \<Rightarrow> 'v \<Rightarrow> 'v mem res" where
  "listInitNode m p v = do {
     a \<leftarrow> p;
     _ \<leftarrow> nodes m a;
     Some (m\<lparr>nodes := (nodes m)(a \<mapsto> \<lparr>nd_prev = None, nd_next = None, nd_value = v\<rparr>)\<rparr>) }"

end
