(* ===== verification/Adlist_Rep.thy ===== *)
theory Adlist_Rep
  imports Adlist
begin

text \<open>
  When a heap holds a list. \<open>chain h pr p as q nx\<close> says that the nodes at the addresses \<open>as\<close> are linked in both directions,
  from the node \<open>p\<close>, whose \<open>prev\<close> is \<open>pr\<close>, to the node \<open>q\<close>, whose \<open>next\<close> is \<open>nx\<close>. All the operations that change links are
  instances of one lemma, \<open>relink\<close>: linking the last node of one chain with the first node of another one
  that is disjoint from it joins them.
\<close>

subsection \<open>Chains\<close>

type_synonym 'v heap = "nat \<Rightarrow> 'v listNode option"

fun chain :: "'v heap \<Rightarrow> nat ptr \<Rightarrow> nat ptr \<Rightarrow> nat list \<Rightarrow> nat ptr \<Rightarrow> nat ptr \<Rightarrow> bool" where
  "chain h pr p [] q nx \<longleftrightarrow> p = nx \<and> q = pr"
| "chain h pr p (a # as) q nx \<longleftrightarrow>
     p = Some a \<and> (case h a of None \<Rightarrow> False | Some n \<Rightarrow> nd_prev n = pr \<and> chain h (Some a) (nd_next n) as q nx)"

declare chain.simps(2) [simp del]

lemma chain_Cons [simp]:
  "chain h pr p (a # as) q nx \<longleftrightarrow> p = Some a \<and> (\<exists>n. h a = Some n \<and> nd_prev n = pr \<and> chain h (Some a) (nd_next n) as q nx)"
  by (auto simp: chain.simps(2) split: option.splits)

definition vals :: "'v heap \<Rightarrow> nat list \<Rightarrow> 'v list" where
  "vals h as = map (\<lambda>a. nd_value (the (h a))) as"

definition lnk_next :: "nat ptr \<Rightarrow> nat ptr \<Rightarrow> 'v heap \<Rightarrow> 'v heap" where
  "lnk_next p x h = (case p of None \<Rightarrow> h | Some a \<Rightarrow> h(a := map_option (\<lambda>n. n\<lparr>nd_next := x\<rparr>) (h a)))"

definition lnk_prev :: "nat ptr \<Rightarrow> nat ptr \<Rightarrow> 'v heap \<Rightarrow> 'v heap" where
  "lnk_prev p x h = (case p of None \<Rightarrow> h | Some a \<Rightarrow> h(a := map_option (\<lambda>n. n\<lparr>nd_prev := x\<rparr>) (h a)))"

lemma lnk_None [simp]: "lnk_next None x h = h" "lnk_prev None x h = h"
  by (simp_all add: lnk_next_def lnk_prev_def)

lemma lnk_other [simp]: "p \<noteq> Some b \<Longrightarrow> lnk_next p x h b = h b" "p \<noteq> Some b \<Longrightarrow> lnk_prev p x h b = h b"
  by (auto simp: lnk_next_def lnk_prev_def split: option.split)

lemma lnk_same [simp]:
  "lnk_next (Some a) x h a = map_option (\<lambda>n. n\<lparr>nd_next := x\<rparr>) (h a)"
  "lnk_prev (Some a) x h a = map_option (\<lambda>n. n\<lparr>nd_prev := x\<rparr>) (h a)"
  by (simp_all add: lnk_next_def lnk_prev_def)

lemma lnk_dom [simp]: "dom (lnk_next p x h) = dom h" "dom (lnk_prev p x h) = dom h"
  by (auto simp: lnk_next_def lnk_prev_def dom_def split: option.split)

lemma lnk_value [simp]:
  "map_option nd_value (lnk_next p x h b) = map_option nd_value (h b)"
  "map_option nd_value (lnk_prev p x h b) = map_option nd_value (h b)"
  by (auto simp: lnk_next_def lnk_prev_def option.map_comp comp_def split: option.split)

lemma lnk_commute:
  "lnk_next p x (lnk_prev q y h) = lnk_prev q y (lnk_next p x h)"
  "p \<noteq> q \<Longrightarrow> lnk_next p x (lnk_next q y h) = lnk_next q y (lnk_next p x h)"
  "p \<noteq> q \<Longrightarrow> lnk_prev p x (lnk_prev q y h) = lnk_prev q y (lnk_prev p x h)"
  by (auto simp: lnk_next_def lnk_prev_def fun_eq_iff map_option_case split: option.splits)

lemma chain_dom: "chain h pr p as q nx \<Longrightarrow> set as \<subseteq> dom h"
  by (induction as arbitrary: pr p) (auto split: option.splits)

lemma chain_cong: "(\<And>a. a \<in> set as \<Longrightarrow> h' a = h a) \<Longrightarrow> chain h' pr p as q nx = chain h pr p as q nx"
  by (induction as arbitrary: pr p) (auto split: option.splits)

lemma chain_first: "chain h pr p as q nx \<Longrightarrow> p = (if as = [] then nx else Some (hd as))"
  by (cases as) auto

lemma chain_last: "chain h pr p as q nx \<Longrightarrow> q = (if as = [] then pr else Some (last as))"
  by (induction as arbitrary: pr p) (auto split: option.splits)

lemma chain_append: "chain h pr p (as @ bs) q nx \<longleftrightarrow> (\<exists>m s. chain h pr p as m s \<and> chain h m s bs q nx)"
  by (induction as arbitrary: pr p) (auto split: option.splits)

lemma chain_snoc:
  "chain h pr p (as @ [a]) q nx \<longleftrightarrow>
     q = Some a \<and> (\<exists>m. chain h pr p as m (Some a) \<and> (\<exists>n. h a = Some n \<and> nd_prev n = m \<and> nd_next n = nx))"
  by (auto simp: chain_append split: option.splits)

lemma vals_cong: "(\<And>a. a \<in> set as \<Longrightarrow> map_option nd_value (h' a) = map_option nd_value (h a)) \<Longrightarrow> set as \<subseteq> dom h \<Longrightarrow> vals h' as = vals h as"
  unfolding vals_def
proof (rule map_cong)
  fix a
  assume *: "\<And>a. a \<in> set as \<Longrightarrow> map_option nd_value (h' a) = map_option nd_value (h a)" "set as \<subseteq> dom h" "a \<in> set as"
  then obtain n where "h a = Some n" by blast
  then show "nd_value (the (h' a)) = nd_value (the (h a))" using *(1) [OF *(3)] by auto
qed simp

lemma vals_append [simp]: "vals h (as @ bs) = vals h as @ vals h bs"
  by (simp add: vals_def)

lemma vals_Cons [simp]: "vals h (a # as) = nd_value (the (h a)) # vals h as" and vals_Nil [simp]: "vals h [] = []"
  by (simp_all add: vals_def)

lemma length_vals [simp]: "length (vals h as) = length as"
  by (simp add: vals_def)

lemma set_last_next:
  assumes "chain h pr p as q nx" "as \<noteq> []" "distinct as"
  shows "chain (lnk_next q x h) pr p as q x"
proof -
  obtain bs b where as: "as = bs @ [b]" using assms(2) by (cases as rule: rev_cases) auto
  then have "chain (lnk_next (Some b) x h) pr p bs m s = chain h pr p bs m s" for m s
    using assms(3) by (intro chain_cong lnk_other) auto
  then show ?thesis using assms(1) by (auto simp: as chain_snoc)
qed

lemma set_first_prev:
  assumes "chain h pr p as q nx" "as \<noteq> []" "distinct as"
  shows "chain (lnk_prev p x h) x p as q nx"
proof -
  obtain b bs where as: "as = b # bs" using assms(2) by (cases as) auto
  then have "chain (lnk_prev (Some b) x h) pr p bs m s = chain h pr p bs m s" for pr p m s
    using assms(3) by (intro chain_cong lnk_other) auto
  then show ?thesis using assms(1) by (auto simp: as split: option.splits)
qed

lemma relink:
  assumes xs: "chain h pr p xs q nx" and ys: "chain h r s ys t ny" and d: "distinct (xs @ ys)"
  shows "chain (lnk_prev (if ys = [] then None else s) q (lnk_next (if xs = [] then None else q) s h))
     pr (if xs = [] then s else p) (xs @ ys) (if ys = [] then q else t) ny"
proof -
  let ?h1 = "lnk_next (if xs = [] then None else q) s h" and ?h2 = "lnk_prev (if ys = [] then None else s) q"
  have x1: "chain ?h1 pr (if xs = [] then s else p) xs q s"
    using set_last_next [OF xs, of s] xs d by auto
  have l: "last xs \<notin> set ys" if "xs \<noteq> []" using last_in_set [OF that] d by auto
  have y1: "chain ?h1 r s ys t ny"
    using ys chain_last [OF xs] l by (subst chain_cong [of ys _ h]) (auto intro!: lnk_other)
  have x2: "chain (?h2 ?h1) pr (if xs = [] then s else p) xs q s"
    using x1 chain_first [OF ys] d by (subst chain_cong [of xs _ ?h1]) (auto intro!: lnk_other)
  have y2: "chain (?h2 ?h1) q s ys (if ys = [] then q else t) ny"
    using set_first_prev [OF y1, of q] y1 d by auto
  show ?thesis unfolding chain_append using x2 y2 by blast
qed

end
