(* ===== verification/Adlist_Ops.thy ===== *)
theory Adlist_Ops
  imports Adlist_Rep
begin

text \<open>What every operation of \<^verbatim>\<open>adlist.c\<close> does to a heap that holds a list, and that it leaves the rest of the heap alone.\<close>

subsection \<open>Lists in memory\<close>

definition holds :: "'v mem \<Rightarrow> 'v adlist \<Rightarrow> nat list \<Rightarrow> bool" where
  "holds m l as \<longleftrightarrow> chain (nodes m) None (l_head l) as (l_tail l) None \<and> distinct as \<and> l_len l = length as"

definition methods :: "'v adlist \<Rightarrow> ('v \<Rightarrow> 'v ptr) ptr \<times> bool \<times> ('v \<Rightarrow> 'v \<Rightarrow> bool) ptr" where
  "methods l = (l_dup l, l_free l, l_match l)"

lemma methods_upd [simp]:
  "methods (l\<lparr>l_head := p\<rparr>) = methods l" "methods (l\<lparr>l_tail := p\<rparr>) = methods l" "methods (l\<lparr>l_len := n\<rparr>) = methods l"
  by (simp_all add: methods_def)

text \<open>Only links change, and only those of the nodes in \<open>S\<close>.\<close>

definition links_only :: "nat set \<Rightarrow> 'v mem \<Rightarrow> 'v mem \<Rightarrow> bool" where
  "links_only S m m' \<longleftrightarrow> (\<forall>b. map_option nd_value (nodes m' b) = map_option nd_value (nodes m b)) \<and>
     (\<forall>b. b \<notin> S \<longrightarrow> nodes m' b = nodes m b) \<and> freed m' = freed m"

lemma links_only_refl [simp]: "links_only S m m"
  by (simp add: links_only_def)

lemma links_only_trans: "links_only S m m' \<Longrightarrow> links_only S m' m'' \<Longrightarrow> links_only S m m''"
  by (simp add: links_only_def)

lemma links_only_mono: "links_only S m m' \<Longrightarrow> S \<subseteq> T \<Longrightarrow> links_only T m m'"
  by (auto simp: links_only_def)

lemma links_only_lnk:
  "links_only S m (m'\<lparr>nodes := h\<rparr>) \<Longrightarrow> set_option p \<subseteq> S \<Longrightarrow> links_only S m (m'\<lparr>nodes := lnk_next p x h\<rparr>)"
  "links_only S m (m'\<lparr>nodes := h\<rparr>) \<Longrightarrow> set_option p \<subseteq> S \<Longrightarrow> links_only S m (m'\<lparr>nodes := lnk_prev p x h\<rparr>)"
proof -
  assume *: "links_only S m (m'\<lparr>nodes := h\<rparr>)" "set_option p \<subseteq> S"
  then have "b \<notin> S \<Longrightarrow> p \<noteq> Some b" for b by auto
  then show "links_only S m (m'\<lparr>nodes := lnk_next p x h\<rparr>)" "links_only S m (m'\<lparr>nodes := lnk_prev p x h\<rparr>)"
    using *(1) by (auto simp: links_only_def)
qed

lemma links_only_self [simp]: "links_only S m (m\<lparr>nodes := nodes m\<rparr>)"
  by (simp add: links_only_def)

lemma links_only_dom: "links_only S m m' \<Longrightarrow> dom (nodes m') = dom (nodes m)"
proof -
  assume "links_only S m m'"
  then have "nodes m' b = None \<longleftrightarrow> nodes m b = None" for b
    unfolding links_only_def by (metis option.map_disc_iff)
  then show ?thesis by (auto simp: dom_def)
qed

lemma links_only_vals: "links_only S m m' \<Longrightarrow> set as \<subseteq> dom (nodes m) \<Longrightarrow> vals (nodes m') as = vals (nodes m) as"
  by (rule vals_cong) (auto simp: links_only_def)

lemma holds_frame: "holds m l as \<Longrightarrow> links_only S m m' \<Longrightarrow> S \<inter> set as = {} \<Longrightarrow> holds m' l as"
  unfolding holds_def links_only_def using chain_cong [of as "nodes m'" "nodes m"] by (metis disjoint_iff)

lemma holds_dom: "holds m l as \<Longrightarrow> set as \<subseteq> dom (nodes m)"
  by (auto simp: holds_def dest: chain_dom)

lemma set_link_eq:
  "a \<in> dom (nodes m) \<Longrightarrow> set_next m (Some a) x = Some (m\<lparr>nodes := lnk_next (Some a) x (nodes m)\<rparr>)"
  "a \<in> dom (nodes m) \<Longrightarrow> set_prev m (Some a) x = Some (m\<lparr>nodes := lnk_prev (Some a) x (nodes m)\<rparr>)"
  by (auto simp: set_next_def set_prev_def lnk_next_def lnk_prev_def)

lemma ld_eq [simp]: "ld m (Some a) = nodes m a" "ld m None = None"
  by (simp_all add: ld_def)

lemma holds_ends:
  assumes "holds m l as"
  shows "l_head l = (if as = [] then None else Some (hd as))" "l_tail l = (if as = [] then None else Some (last as))"
  using assms chain_first chain_last unfolding holds_def by fastforce+

lemma holds_hd: "holds m l as \<Longrightarrow> as \<noteq> [] \<Longrightarrow> l_head l = Some (hd as) \<and> hd as \<in> dom (nodes m) \<and> hd as \<in> set as"
  using holds_ends(1) holds_dom hd_in_set by (metis subsetD)

lemma holds_last: "holds m l as \<Longrightarrow> as \<noteq> [] \<Longrightarrow> l_tail l = Some (last as) \<and> last as \<in> dom (nodes m) \<and> last as \<in> set as"
  using holds_ends(2) holds_dom last_in_set by (metis subsetD)

lemma mem_upd_upd [simp]: "m\<lparr>nodes := h, nodes := h'\<rparr> = m\<lparr>nodes := h'\<rparr>"
  by simp

lemma single_chain: "h a = Some n \<Longrightarrow> nd_prev n = pr \<Longrightarrow> chain h pr (Some a) [a] (Some a) (nd_next n)"
  by simp


subsection \<open>Linking a node\<close>

lemma listLinkNodeHead_ok:
  assumes l: "holds m l as" and a: "a \<notin> set as" "nodes m a = Some n"
  shows "\<exists>m' l'. listLinkNodeHead m l (Some a) = Some (m', l') \<and> holds m' l' (a # as) \<and> links_only (set (a # as)) m m' \<and> methods l' = methods l"
proof (cases "as = []")
  case True
  then show ?thesis using assms
    by (simp add: listLinkNodeHead_def holds_def set_link_eq domIff links_only_lnk)
next
  case False
  let ?h = "lnk_prev (Some a) None (nodes m)"
  have c: "chain ?h None (l_head l) as (l_tail l) None"
    using l a(1) by (subst chain_cong [of as _ "nodes m"]) (auto simp: holds_def intro!: lnk_other)
  have h: "l_head l = Some (hd as)" "hd as \<in> dom (nodes m)" "hd as \<in> set as"
    using holds_hd [OF l False] by blast+
  have d: "a \<in> dom (nodes m)" using a(2) by blast
  have "chain ?h None (Some a) [a] (Some a) (nd_next n)" using a(2) by simp
  from relink [OF this c] have "chain (lnk_prev (l_head l) (Some a) (lnk_next (Some a) (l_head l) ?h)) None (Some a) (a # as) (l_tail l) None"
    using False a(1) l by (simp add: holds_def)
  then show ?thesis using False l a(1) d h
    by (simp add: listLinkNodeHead_def holds_def set_link_eq links_only_lnk)
qed

lemma listLinkNodeTail_ok:
  assumes l: "holds m l as" and a: "a \<notin> set as" "nodes m a = Some n"
  shows "\<exists>m' l'. listLinkNodeTail m l (Some a) = Some (m', l') \<and> holds m' l' (as @ [a]) \<and> links_only (set (a # as)) m m' \<and> methods l' = methods l"
proof (cases "as = []")
  case True
  then show ?thesis using assms
    by (simp add: listLinkNodeTail_def holds_def set_link_eq domIff links_only_lnk)
next
  case False
  let ?h = "lnk_next (Some a) None (nodes m)"
  have c: "chain ?h None (l_head l) as (l_tail l) None"
    using l a(1) by (subst chain_cong [of as _ "nodes m"]) (auto simp: holds_def intro!: lnk_other)
  have h: "l_tail l = Some (last as)" "last as \<in> dom (nodes m)" "last as \<in> set as"
    using holds_last [OF l False] by blast+
  have d: "a \<in> dom (nodes m)" using a(2) by blast
  have "chain ?h (nd_prev n) (Some a) [a] (Some a) None" using a(2) by simp
  from relink [OF c this] have "chain (lnk_prev (Some a) (l_tail l) (lnk_next (l_tail l) (Some a) ?h)) None (l_head l) (as @ [a]) (Some a) None"
    using False a(1) l by (simp add: holds_def)
  then show ?thesis using False l a(1) d h
    by (simp add: listLinkNodeTail_def holds_def set_link_eq links_only_lnk lnk_commute(1))
qed

subsection \<open>New nodes\<close>

text \<open>The node \<open>a\<close> with the value \<open>v\<close> is new; apart from it only links of the nodes in \<open>S\<close> change.\<close>

definition added :: "nat \<Rightarrow> 'v \<Rightarrow> nat set \<Rightarrow> 'v mem \<Rightarrow> 'v mem \<Rightarrow> bool" where
  "added a v S m m' \<longleftrightarrow> nodes m a = None \<and> map_option nd_value (nodes m' a) = Some v \<and>
     (\<forall>b. b \<noteq> a \<longrightarrow> map_option nd_value (nodes m' b) = map_option nd_value (nodes m b)) \<and>
     (\<forall>b. b \<notin> insert a S \<longrightarrow> nodes m' b = nodes m b) \<and> freed m' = freed m"

definition fresh_alloc :: "(nat set \<Rightarrow> nat) \<Rightarrow> bool" where
  "fresh_alloc alloc \<longleftrightarrow> (\<forall>S. finite S \<longrightarrow> alloc S \<notin> S)"

lemma new_node_ok:
  assumes "fresh_alloc alloc" "finite (dom (nodes m))"
  obtains m0 a n where "new_node alloc m v = (m0, a)" "nodes m a = None" "nodes m0 a = Some n"
    "\<And>l as. holds m l as \<Longrightarrow> holds m0 l as \<and> a \<notin> set as"
    "\<And>S m'. links_only (insert a S) m0 m' \<Longrightarrow> added a v S m m'"
proof -
  define a where "a = alloc (dom (nodes m))"
  let ?n = "\<lparr>nd_prev = None, nd_next = None, nd_value = v\<rparr>"
  let ?m = "m\<lparr>nodes := (nodes m)(a \<mapsto> ?n)\<rparr>"
  have f: "nodes m a = None" using assms unfolding a_def fresh_alloc_def by blast
  have "holds ?m l as \<and> a \<notin> set as" if "holds m l as" for l as
  proof -
    have "a \<notin> set as" using holds_dom [OF that] f by auto
    moreover from this have "chain (nodes ?m) pr p as q nx = chain (nodes m) pr p as q nx" for pr p q nx
      by (intro chain_cong) auto
    ultimately show ?thesis using that by (simp add: holds_def)
  qed
  moreover have "added a v S m m'" if "links_only (insert a S) ?m m'" for S m'
    using that f by (auto simp: added_def links_only_def)
  ultimately show thesis using f by (intro that [of ?m a ?n]) (auto simp: new_node_def a_def Let_def)
qed

lemma added_dom: "added a v S m m' \<Longrightarrow> dom (nodes m') = insert a (dom (nodes m))"
proof -
  assume *: "added a v S m m'"
  then have "nodes m' b = None \<longleftrightarrow> nodes m b = None" if "b \<noteq> a" for b
    using that unfolding added_def by (metis option.map_disc_iff)
  moreover have "nodes m' a \<noteq> None" using * by (auto simp: added_def)
  ultimately show ?thesis by (intro set_eqI) (metis domIff insert_iff)
qed

lemma added_vals:
  assumes "added a v S m m'" "set as \<subseteq> dom (nodes m)"
  shows "vals (nodes m') as = vals (nodes m) as" "nd_value (the (nodes m' a)) = v"
proof -
  have "a \<notin> set as" using assms by (auto simp: added_def)
  then show "vals (nodes m') as = vals (nodes m) as" using assms by (intro vals_cong) (auto simp: added_def)
  show "nd_value (the (nodes m' a)) = v" using assms(1) by (auto simp: added_def)
qed

lemma listAddNodeHead_ok:
  assumes "fresh_alloc alloc" "finite (dom (nodes m))" "holds m l as"
  shows "\<exists>m' l' a. listAddNodeHead alloc m l v = Some (m', l') \<and> holds m' l' (a # as) \<and> added a v (set as) m m' \<and> methods l' = methods l"
proof -
  obtain m0 a n where n: "new_node alloc m v = (m0, a)" "nodes m0 a = Some n" "holds m0 l as" "a \<notin> set as"
    "\<And>S m'. links_only (insert a S) m0 m' \<Longrightarrow> added a v S m m'"
    using new_node_ok [OF assms(1, 2)] assms(3) by metis
  show ?thesis using listLinkNodeHead_ok [OF n(3, 4, 2)] n(1) n(5) [of "set as"] by (auto simp: listAddNodeHead_def)
qed

lemma listAddNodeTail_ok:
  assumes "fresh_alloc alloc" "finite (dom (nodes m))" "holds m l as"
  shows "\<exists>m' l' a. listAddNodeTail alloc m l v = Some (m', l') \<and> holds m' l' (as @ [a]) \<and> added a v (set as) m m' \<and> methods l' = methods l"
proof -
  obtain m0 a n where n: "new_node alloc m v = (m0, a)" "nodes m0 a = Some n" "holds m0 l as" "a \<notin> set as"
    "\<And>S m'. links_only (insert a S) m0 m' \<Longrightarrow> added a v S m m'"
    using new_node_ok [OF assms(1, 2)] assms(3) by metis
  show ?thesis using listLinkNodeTail_ok [OF n(3, 4, 2)] n(1) n(5) [of "set as"] by (auto simp: listAddNodeTail_def)
qed

lemma splice:
  assumes xs: "chain h None p xs q nx" and ys: "chain h r s ys t None" and d: "distinct (xs @ a # ys)" and a: "h a = Some n"
    and q: "xs = [] \<Longrightarrow> q = None"
  shows "chain (lnk_prev s (Some a) (lnk_next q (Some a) (lnk_next (Some a) s (lnk_prev (Some a) q h)))) None
     (if xs = [] then Some a else p) (xs @ a # ys) (if ys = [] then Some a else t) None"
proof -
  let ?h = "lnk_prev (Some a) q (lnk_next q (Some a) h)"
  have qa: "q \<noteq> Some a" using chain_last [OF xs] q d by (cases xs rule: rev_cases) auto
  have s0: "ys = [] \<Longrightarrow> s = None" using ys by simp
  have "chain h (nd_prev n) (Some a) [a] (Some a) (nd_next n)" using a by simp
  from relink [OF xs this] have c: "chain ?h None (if xs = [] then Some a else p) (xs @ [a]) (Some a) (nd_next n)"
    using d q by (simp split: if_splits)
  have "b \<in> set ys \<Longrightarrow> q \<noteq> Some b \<and> a \<noteq> b" for b
    using chain_last [OF xs] q d by (cases xs rule: rev_cases) auto
  then have "chain ?h r s ys t None" using ys by (subst chain_cong [of ys _ h]) auto
  from relink [OF c this] have "chain (lnk_prev s (Some a) (lnk_next (Some a) s ?h)) None
     (if xs = [] then Some a else p) (xs @ a # ys) (if ys = [] then Some a else t) None"
    using d s0 by (simp split: if_splits)
  moreover have "lnk_next (Some a) s ?h = lnk_next q (Some a) (lnk_next (Some a) s (lnk_prev (Some a) q h))"
    by (simp only: lnk_commute(1) lnk_commute(2) [OF qa])
  ultimately show ?thesis by (simp only:)
qed

lemma holds_split:
  assumes "holds m l (xs @ b # ys)"
  obtains n where "nodes m b = Some n" "chain (nodes m) None (l_head l) xs (nd_prev n) (Some b)"
    "chain (nodes m) (Some b) (nd_next n) ys (l_tail l) None"
    "nd_prev n = (if xs = [] then None else Some (last xs))" "nd_next n = (if ys = [] then None else Some (hd ys))"
  using assms chain_last chain_first unfolding holds_def chain_append chain_Cons by blast

lemma listInsertNode_ok:
  assumes alloc: "fresh_alloc alloc" "finite (dom (nodes m))" and l: "holds m l (xs @ b # ys)"
  shows "\<exists>m' l' a. listInsertNode alloc m l (Some b) v after = Some (m', l') \<and>
    holds m' l' (if after then xs @ b # a # ys else xs @ a # b # ys) \<and> added a v (set (xs @ b # ys)) m m' \<and> methods l' = methods l"
proof -
  obtain m0 a n0 where n: "new_node alloc m v = (m0, a)" "nodes m0 a = Some n0" "holds m0 l (xs @ b # ys)" "a \<notin> set (xs @ b # ys)"
    "\<And>S m'. links_only (insert a S) m0 m' \<Longrightarrow> added a v S m m'"
    using new_node_ok [OF alloc] l by metis
  obtain n where c: "nodes m0 b = Some n" "chain (nodes m0) None (l_head l) xs (nd_prev n) (Some b)"
    "chain (nodes m0) (Some b) (nd_next n) ys (l_tail l) None"
    "nd_prev n = (if xs = [] then None else Some (last xs))" "nd_next n = (if ys = [] then None else Some (hd ys))"
    using n(3) by (rule holds_split)
  have d: "distinct (xs @ b # ys)" "l_len l = length (xs @ b # ys)" using n(3) by (auto simp: holds_def)
  have na: "a \<noteq> b" "xs \<noteq> [] \<Longrightarrow> last xs \<noteq> a" "ys \<noteq> [] \<Longrightarrow> hd ys \<noteq> a"
    using n(4) by (auto dest: hd_in_set last_in_set)
  have dm: "xs \<noteq> [] \<Longrightarrow> last xs \<in> dom (nodes m0)" "ys \<noteq> [] \<Longrightarrow> hd ys \<in> dom (nodes m0)"
    using holds_dom [OF n(3)] hd_in_set [of ys] last_in_set [of xs] by (simp_all add: subset_iff)
  have ends: "l_tail l = Some b \<longleftrightarrow> ys = []" "l_head l = Some b \<longleftrightarrow> xs = []"
    using chain_last [OF c(3)] chain_first [OF c(2)] d by (cases ys rule: rev_cases; cases xs; auto)+
  show ?thesis
  proof (cases after)
    case True
    let ?h = "lnk_prev (nd_next n) (Some a) (lnk_next (Some b) (Some a) (lnk_next (Some a) (nd_next n) (lnk_prev (Some a) (Some b) (nodes m0))))"
    have "chain (nodes m0) None (l_head l) (xs @ [b]) (Some b) (nd_next n)" using c by (simp add: chain_snoc)
    from splice [OF this c(3) _ n(2)] have "chain ?h None (l_head l) (xs @ b # a # ys) (if ys = [] then Some a else l_tail l) None"
      using d n(4) by simp
    moreover have "listInsertNode alloc m l (Some b) v after =
        Some (m0\<lparr>nodes := ?h\<rparr>, l\<lparr>l_tail := (if ys = [] then Some a else l_tail l), l_len := l_len l + 1\<rparr>)"
      using True n(1, 2) c(1, 5) na dm ends by (simp add: listInsertNode_def set_link_eq domIff)
    moreover have "links_only (insert a (set (xs @ b # ys))) m0 (m0\<lparr>nodes := ?h\<rparr>)"
      using c(5) by (intro links_only_lnk links_only_self) auto
    ultimately show ?thesis using True d n(4) n(5) by (auto simp: holds_def)
  next
    case False
    let ?h = "lnk_prev (Some b) (Some a) (lnk_next (nd_prev n) (Some a) (lnk_next (Some a) (Some b) (lnk_prev (Some a) (nd_prev n) (nodes m0))))"
    have "chain (nodes m0) (nd_prev n) (Some b) (b # ys) (l_tail l) None" using c by simp
    from splice [OF c(2) this _ n(2)] have "chain ?h None (if xs = [] then Some a else l_head l) (xs @ a # b # ys) (l_tail l) None"
      using d n(4) c(4) by simp
    moreover have "listInsertNode alloc m l (Some b) v after =
        Some (m0\<lparr>nodes := ?h\<rparr>, l\<lparr>l_head := (if xs = [] then Some a else l_head l), l_len := l_len l + 1\<rparr>)"
      using False n(1, 2) c(1, 4) na dm ends by (simp add: listInsertNode_def set_link_eq domIff lnk_commute(1))
    moreover have "links_only (insert a (set (xs @ b # ys))) m0 (m0\<lparr>nodes := ?h\<rparr>)"
      using c(4) by (intro links_only_lnk links_only_self) auto
    ultimately show ?thesis using False d n(4) n(5) by (auto simp: holds_def)
  qed
qed


subsection \<open>Removal, rotation and joining\<close>

lemma listUnlinkNode_ok:
  assumes l: "holds m l (xs @ b # ys)"
  shows "\<exists>m' l'. listUnlinkNode m l (Some b) = Some (m', l') \<and> holds m' l' (xs @ ys) \<and> links_only (set (xs @ b # ys)) m m' \<and> methods l' = methods l"
proof -
  obtain n where c: "nodes m b = Some n" "chain (nodes m) None (l_head l) xs (nd_prev n) (Some b)"
    "chain (nodes m) (Some b) (nd_next n) ys (l_tail l) None"
    "nd_prev n = (if xs = [] then None else Some (last xs))" "nd_next n = (if ys = [] then None else Some (hd ys))"
    using l by (rule holds_split)
  have d: "distinct (xs @ b # ys)" "l_len l = length (xs @ b # ys)" using l by (auto simp: holds_def)
  have nb: "xs \<noteq> [] \<Longrightarrow> last xs \<noteq> b" "ys \<noteq> [] \<Longrightarrow> hd ys \<noteq> b" using d by (auto dest: hd_in_set last_in_set)
  have dm: "xs \<noteq> [] \<Longrightarrow> last xs \<in> dom (nodes m)" "ys \<noteq> [] \<Longrightarrow> hd ys \<in> dom (nodes m)"
    using holds_dom [OF l] hd_in_set [of ys] last_in_set [of xs] by (simp_all add: subset_iff)
  let ?h = "lnk_prev (nd_next n) (nd_prev n) (lnk_next (nd_prev n) (nd_next n) (nodes m))"
  let ?h' = "lnk_prev (Some b) None (lnk_next (Some b) None ?h)"
  let ?l = "l\<lparr>l_head := (if xs = [] then nd_next n else l_head l), l_tail := (if ys = [] then nd_prev n else l_tail l), l_len := l_len l - 1\<rparr>"
  have "chain ?h None (if xs = [] then nd_next n else l_head l) (xs @ ys) (if ys = [] then nd_prev n else l_tail l) None"
    using relink [OF c(2, 3)] c(4, 5) d by (simp split: if_splits)
  moreover have "chain ?h' pr p (xs @ ys) q nx = chain ?h pr p (xs @ ys) q nx" for pr p q nx
    using d by (intro chain_cong trans [OF lnk_other(2) lnk_other(1)]) auto
  moreover have "listUnlinkNode m l (Some b) = Some (m\<lparr>nodes := ?h'\<rparr>, ?l)"
    using c nb dm by (simp add: listUnlinkNode_def set_link_eq domIff)
  moreover have "links_only (set (xs @ b # ys)) m (m\<lparr>nodes := ?h'\<rparr>)"
    using c(4, 5) by (intro links_only_lnk links_only_self) auto
  ultimately show ?thesis using d by (auto simp: holds_def)
qed

text \<open>The nodes \<open>D\<close> are freed, with their values if the list has a \<open>free\<close> method; apart from them only links of the nodes in \<open>S\<close> change.\<close>

definition removed :: "bool \<Rightarrow> nat list \<Rightarrow> nat set \<Rightarrow> 'v mem \<Rightarrow> 'v mem \<Rightarrow> bool" where
  "removed fr D S m m' \<longleftrightarrow> (\<forall>b \<in> set D. nodes m' b = None) \<and>
     (\<forall>b. b \<notin> set D \<longrightarrow> map_option nd_value (nodes m' b) = map_option nd_value (nodes m b)) \<and>
     (\<forall>b. b \<notin> S \<longrightarrow> nodes m' b = nodes m b) \<and> freed m' = freed m @ (if fr then vals (nodes m) D else [])"

lemma removed_dom: "removed fr D S m m' \<Longrightarrow> dom (nodes m') = dom (nodes m) - set D"
proof -
  assume *: "removed fr D S m m'"
  then have "nodes m' b = None \<longleftrightarrow> nodes m b = None" if "b \<notin> set D" for b
    using that unfolding removed_def by (metis option.map_disc_iff)
  moreover have "b \<in> set D \<Longrightarrow> nodes m' b = None" for b using * by (auto simp: removed_def)
  ultimately show ?thesis by (intro set_eqI) (metis domIff Diff_iff)
qed

lemma removed_vals: "removed fr D S m m' \<Longrightarrow> set as \<subseteq> dom (nodes m) - set D \<Longrightarrow> vals (nodes m') as = vals (nodes m) as"
  by (rule vals_cong) (auto simp: removed_def)

lemma listDelNode_ok:
  assumes l: "holds m l (xs @ b # ys)"
  shows "\<exists>m' l'. listDelNode m l (Some b) = Some (m', l') \<and> holds m' l' (xs @ ys) \<and>
    removed (l_free l) [b] (set (xs @ b # ys)) m m' \<and> methods l' = methods l"
proof -
  obtain m1 l1 where u: "listUnlinkNode m l (Some b) = Some (m1, l1)" "holds m1 l1 (xs @ ys)" "links_only (set (xs @ b # ys)) m m1"
    "methods l1 = methods l" using listUnlinkNode_ok [OF l] by blast
  obtain n0 where "nodes m b = Some n0" using l by (rule holds_split)
  then obtain n where n: "nodes m1 b = Some n" "nd_value n = nd_value (the (nodes m b))"
    using u(3) unfolding links_only_def by (metis (no_types, lifting) map_option_eq_Some option.sel)
  let ?m = "(free_value l1 m1 (nd_value n))\<lparr>nodes := (nodes m1)(b := None)\<rparr>"
  have f: "l_free l1 = l_free l" "nodes (free_value l1 m1 v) = nodes m1" for v using u(4) by (simp_all add: methods_def free_value_def)
  have "listDelNode m l (Some b) = Some (?m, l1)" using u(1) n(1) by (simp add: listDelNode_def zfree_node_def f)
  moreover have "chain ((nodes m1)(b := None)) pr p (xs @ ys) q nx = chain (nodes m1) pr p (xs @ ys) q nx" for pr p q nx
    using l by (intro chain_cong) (auto simp: holds_def)
  moreover have "removed (l_free l) [b] (set (xs @ b # ys)) m ?m"
    using u(3) n(2) by (auto simp: removed_def links_only_def free_value_def f)
  ultimately show ?thesis using u(2, 4) by (simp add: holds_def)
qed

lemma listEmpty_loop_ok:
  assumes "chain (nodes m) pr p as q None" "distinct as"
  shows "\<exists>m'. listEmpty_loop l (length as) m p = Some m' \<and> removed (l_free l) as (set as) m m'"
  using assms
proof (induction as arbitrary: m pr p)
  case Nil
  then show ?case by (simp add: removed_def)
next
  case (Cons a as)
  then obtain n where n: "p = Some a" "nodes m a = Some n" "chain (nodes m) (Some a) (nd_next n) as q None" by auto
  let ?m = "(free_value l m (nd_value n))\<lparr>nodes := (nodes m)(a := None)\<rparr>"
  have "chain (nodes ?m) (Some a) (nd_next n) as q None"
    using n(3) Cons.prems(2) by (subst chain_cong [of as _ "nodes m"]) auto
  from Cons.IH [OF this] obtain m' where m': "listEmpty_loop l (length as) ?m (nd_next n) = Some m'" "removed (l_free l) as (set as) ?m m'"
    using Cons.prems(2) by auto
  have "vals (nodes ?m) as = vals (nodes m) as" using Cons.prems(2) by (auto simp: vals_def)
  then have "removed (l_free l) (a # as) (set (a # as)) m m'" using m'(2) n(2) Cons.prems(2) by (auto simp: removed_def free_value_def)
  moreover have "zfree_node (free_value l m (nd_value n)) (Some a) = Some ?m" using n(2) by (simp add: zfree_node_def free_value_def)
  ultimately show ?case using n m'(1) by simp
qed

lemma listEmpty_ok:
  assumes l: "holds m l as"
  shows "\<exists>m' l'. listEmpty m l = Some (m', l') \<and> holds m' l' [] \<and> removed (l_free l) as (set as) m m' \<and> methods l' = methods l"
  using listEmpty_loop_ok [of m None "l_head l" as "l_tail l" l] l by (auto simp: listEmpty_def holds_def)

lemma listRotateTailToHead_ok:
  assumes l: "holds m l (xs @ [t])"
  shows "\<exists>m' l'. listRotateTailToHead m l = Some (m', l') \<and> holds m' l' (t # xs) \<and> links_only (set (t # xs)) m m' \<and> methods l' = methods l"
proof (cases "xs = []")
  case True
  then show ?thesis using l by (auto simp: listRotateTailToHead_def holds_def)
next
  case False
  obtain n where c: "nodes m t = Some n" "chain (nodes m) None (l_head l) xs (nd_prev n) (Some t)" "nd_prev n = Some (last xs)" "nd_next n = None"
    using l False by (rule_tac holds_split [of m l xs t "[]"]) auto
  have d: "distinct (xs @ [t])" "l_len l = length (xs @ [t])" using l by (auto simp: holds_def)
  have h: "l_head l = Some (hd xs)" "l_tail l = Some t" "hd xs \<in> dom (nodes m)" "last xs \<in> dom (nodes m)" "hd xs \<noteq> t"
    using holds_ends [OF l] holds_dom [OF l] False hd_in_set [OF False] last_in_set [OF False] d by (auto simp: subset_iff hd_append)
  let ?h1 = "lnk_next (Some (last xs)) None (nodes m)" and ?l = "l\<lparr>l_tail := Some (last xs), l_head := Some t\<rparr>"
  let ?h = "lnk_next (Some t) (Some (hd xs)) (lnk_prev (Some t) None (lnk_prev (Some (hd xs)) (Some t) ?h1))"
  have "chain ?h1 None (l_head l) xs (Some (last xs)) None" using set_last_next [OF c(2) False] c(3) d by simp
  then have x: "chain (lnk_prev (Some t) None ?h1) None (l_head l) xs (Some (last xs)) None"
    using d by (subst chain_cong [of xs _ ?h1]) (auto intro!: lnk_other)
  have "last xs \<noteq> t" using d last_in_set [OF False] by auto
  then have "chain (lnk_prev (Some t) None ?h1) None (Some t) [t] (Some t) None" using c by simp
  from relink [OF this x] have "chain (lnk_prev (Some (hd xs)) (Some t) (lnk_next (Some t) (Some (hd xs)) (lnk_prev (Some t) None ?h1))) None
      (Some t) (t # xs) (Some (last xs)) None"
    using d False h by (simp del: chain_Cons)
  moreover have "lnk_prev (Some (hd xs)) (Some t) (lnk_next (Some t) (Some (hd xs)) (lnk_prev (Some t) None ?h1)) = ?h"
    using h(5) lnk_commute(3) [of "Some (hd xs)" "Some t"] by (simp only: lnk_commute(1)) simp
  ultimately have "chain ?h None (Some t) (t # xs) (Some (last xs)) None" by (simp only:)
  moreover have "listRotateTailToHead m l = Some (m\<lparr>nodes := ?h\<rparr>, ?l)"
    using c h d False by (simp add: Let_def listRotateTailToHead_def set_link_eq domIff Suc_le_eq)
  moreover have "links_only (set (t # xs)) m (m\<lparr>nodes := ?h\<rparr>)"
    using False by (intro links_only_lnk links_only_self) auto
  ultimately show ?thesis using d by (simp add: holds_def del: chain_Cons)
qed

lemma listRotateHeadToTail_ok:
  assumes l: "holds m l (t # ys)"
  shows "\<exists>m' l'. listRotateHeadToTail m l = Some (m', l') \<and> holds m' l' (ys @ [t]) \<and> links_only (set (t # ys)) m m' \<and> methods l' = methods l"
proof (cases "ys = []")
  case True
  then show ?thesis using l by (auto simp: listRotateHeadToTail_def holds_def)
next
  case False
  obtain n where c: "nodes m t = Some n" "chain (nodes m) (Some t) (nd_next n) ys (l_tail l) None" "nd_prev n = None" "nd_next n = Some (hd ys)"
    using l False by (rule_tac holds_split [of m l "[]" t ys]) auto
  have d: "distinct (t # ys)" "l_len l = length (t # ys)" using l by (auto simp: holds_def)
  have h: "l_tail l = Some (last ys)" "l_head l = Some t" "hd ys \<in> dom (nodes m)" "last ys \<in> dom (nodes m)" "last ys \<noteq> t" "hd ys \<noteq> t"
    using holds_ends [OF l] holds_dom [OF l] False hd_in_set [OF False] last_in_set [OF False] d by (auto simp: subset_iff)
  let ?h1 = "lnk_prev (Some (hd ys)) None (nodes m)" and ?l = "l\<lparr>l_head := Some (hd ys), l_tail := Some t\<rparr>"
  let ?h = "lnk_prev (Some t) (l_tail l) (lnk_next (Some t) None (lnk_next (l_tail l) (Some t) ?h1))"
  have "chain ?h1 None (Some (hd ys)) ys (l_tail l) None" using set_first_prev [OF c(2) False] c(4) d by simp
  then have y: "chain (lnk_next (Some t) None ?h1) None (Some (hd ys)) ys (l_tail l) None"
    using d by (subst chain_cong [of ys _ ?h1]) (auto intro!: lnk_other)
  have "chain (lnk_next (Some t) None ?h1) None (Some t) [t] (Some t) None" using c h by simp
  from relink [OF y this] have "chain (lnk_prev (Some t) (l_tail l) (lnk_next (l_tail l) (Some t) (lnk_next (Some t) None ?h1))) None
      (Some (hd ys)) (ys @ [t]) (Some t) None"
    using d False h by simp
  moreover have "lnk_next (l_tail l) (Some t) (lnk_next (Some t) None ?h1) = lnk_next (Some t) None (lnk_next (l_tail l) (Some t) ?h1)"
    using h by (intro lnk_commute(2)) simp
  ultimately have "chain ?h None (Some (hd ys)) (ys @ [t]) (Some t) None" by (simp only:)
  moreover have "listRotateHeadToTail m l = Some (m\<lparr>nodes := ?h\<rparr>, ?l)"
    using c h d False by (simp add: Let_def listRotateHeadToTail_def set_link_eq domIff Suc_le_eq)
  moreover have "links_only (set (t # ys)) m (m\<lparr>nodes := ?h\<rparr>)"
    using False h by (intro links_only_lnk links_only_self) auto
  ultimately show ?thesis using d by (simp add: holds_def)
qed

lemma listJoin_ok:
  assumes l: "holds m l as" and o': "holds m o' bs" and d: "set as \<inter> set bs = {}"
  shows "\<exists>m' l' o''. listJoin m l o' = Some (m', l', o'') \<and> holds m' l' (as @ bs) \<and> holds m' o'' [] \<and> links_only (set as \<union> set bs) m m' \<and>
    methods l' = methods l \<and> methods o'' = methods o'"
proof (cases "bs = []")
  case True
  then show ?thesis using l o' by (auto simp: listJoin_def holds_def)
next
  case False
  note b = holds_hd [OF o' False] and a = holds_last [OF l] and e = holds_ends [OF l]
  let ?h = "lnk_next (l_tail l) (l_head o') (lnk_prev (l_head o') (l_tail l) (nodes m))"
  let ?l = "l\<lparr>l_head := (if as = [] then l_head o' else l_head l), l_tail := l_tail o', l_len := l_len l + l_len o'\<rparr>"
  have "chain ?h None (if as = [] then l_head o' else l_head l) (as @ bs) (l_tail o') None"
    using relink [of "nodes m" None "l_head l" as "l_tail l" None None "l_head o'" bs "l_tail o'" None] l o' d False e
    by (auto simp: holds_def lnk_commute(1))
  moreover have "listJoin m l o' = Some (m\<lparr>nodes := ?h\<rparr>, ?l, o'\<lparr>l_head := None, l_tail := None, l_len := 0\<rparr>)"
    using False a b e o' by (auto simp: listJoin_def set_link_eq holds_def)
  moreover have "links_only (set as \<union> set bs) m (m\<lparr>nodes := ?h\<rparr>)"
    using a b e by (intro links_only_lnk links_only_self) auto
  ultimately show ?thesis using l o' d by (auto simp: holds_def)
qed


subsection \<open>Access and search\<close>

lemma listIndex_loop_head:
  "chain (nodes m) pr p as q None \<Longrightarrow> listIndex_loop AL_START_HEAD m k p = Some (if k < length as then Some (as ! k) else None)"
proof (induction as arbitrary: pr p k)
  case Nil
  then show ?case by (cases k) auto
next
  case (Cons a as)
  then show ?case by (cases k) auto
qed

lemma listIndex_loop_tail:
  "chain (nodes m) None p as q nx \<Longrightarrow>
   listIndex_loop AL_START_TAIL m k q = Some (if k < length as then Some (as ! (length as - 1 - k)) else None)"
proof (induction as arbitrary: q nx k rule: rev_induct)
  case Nil
  then show ?case by (cases k) auto
next
  case (snoc a as)
  then show ?case by (cases k) (auto simp: chain_snoc nth_append)
qed

text \<open>The position of an index, which counts from the end when it is negative.\<close>

definition position :: "int \<Rightarrow> nat \<Rightarrow> nat option" where
  "position i n = (if 0 \<le> i \<and> i < int n then Some (nat i) else if i < 0 \<and> - i \<le> int n then Some (nat (int n + i)) else None)"

lemma position_less: "position i n = Some k \<Longrightarrow> k < n"
  by (auto simp: position_def split: if_splits)

lemma listIndex_ok:
  assumes l: "holds m l as" and i: "i \<noteq> - (2 ^ 63)"
  shows "listIndex m l i = Some (map_option (nth as) (position i (length as)))"
proof -
  have "length as - 1 - nat (- i - 1) = nat (int (length as) + i)" if "i < 0" using that by (simp add: nat_diff_distrib' nat_add_distrib)
  moreover have "nat (- i - 1) < length as \<longleftrightarrow> - i \<le> int (length as)" if "i < 0" using that by linarith
  ultimately show ?thesis
    using l i listIndex_loop_head [of m None "l_head l" as "l_tail l"] listIndex_loop_tail [of m "l_head l" as "l_tail l" None]
    by (auto simp: holds_def listIndex_def position_def)
qed

definition matches :: "('v \<Rightarrow> 'v \<Rightarrow> bool) ptr \<Rightarrow> 'v \<Rightarrow> 'v \<Rightarrow> bool" where
  "matches f key v = (case f of Some f \<Rightarrow> f v key | None \<Rightarrow> key = v)"

lemma listSearchKey_loop_ok:
  "chain (nodes m) pr p as q None \<Longrightarrow> listSearchKey_loop m l key \<lparr>iter_next = p, iter_direction = AL_START_HEAD\<rparr> =
     Some (find (\<lambda>a. matches (l_match l) key (nd_value (the (nodes m a)))) as)"
proof (induction as arbitrary: pr p)
  case Nil
  then show ?case by (simp add: listSearchKey_loop.simps listNext_def)
next
  case (Cons a as)
  then show ?case
    by (subst listSearchKey_loop.simps) (auto simp: listNext_def matches_def split: option.splits)
qed

lemma listSearchKey_ok:
  "holds m l as \<Longrightarrow> listSearchKey m l key = Some (find (\<lambda>a. matches (l_match l) key (nd_value (the (nodes m a)))) as)"
  unfolding listSearchKey_def listRewind_def holds_def by (blast intro: listSearchKey_loop_ok)


subsection \<open>Duplication\<close>

text \<open>The copies of the values, up to the first that cannot be copied.\<close>

fun dups :: "('v \<Rightarrow> 'v ptr) \<Rightarrow> 'v list \<Rightarrow> 'v list \<times> bool" where
  "dups f [] = ([], True)"
| "dups f (x # xs) = (case f x of None \<Rightarrow> ([], False) | Some w \<Rightarrow> (case dups f xs of (ws, b) \<Rightarrow> (w # ws, b)))"

definition dup_value :: "('v \<Rightarrow> 'v ptr) ptr \<Rightarrow> 'v \<Rightarrow> 'v ptr" where
  "dup_value f v = (case f of Some f \<Rightarrow> f v | None \<Rightarrow> Some v)"

definition dup_result :: "'v mem \<Rightarrow> 'v adlist \<Rightarrow> nat list \<Rightarrow> 'v list \<Rightarrow> bool \<Rightarrow> 'v mem \<Rightarrow> 'v adlist ptr \<Rightarrow> bool" where
  "dup_result m copy cs ws b m' r \<longleftrightarrow>
     (if b then \<exists>copy' ds. r = Some copy' \<and> holds m' copy' (cs @ ds) \<and> methods copy' = methods copy \<and> vals (nodes m') (cs @ ds) = vals (nodes m) cs @ ws \<and>
        freed m' = freed m \<and> (\<forall>c. c \<notin> set (cs @ ds) \<longrightarrow> nodes m' c = nodes m c) \<and> set ds \<inter> dom (nodes m) = {}
      else r = None \<and> (\<forall>c. nodes m' c = (if c \<in> set cs then None else nodes m c)) \<and>
        freed m' = freed m @ (if l_free copy then vals (nodes m) cs @ ws else []))"

lemma dup_result_step:
  assumes r: "dup_result m1 copy1 (cs @ [a]) ws b m' r" and a: "added a w (set cs) m m1" and h: "holds m copy cs" and me: "methods copy1 = methods copy"
  shows "dup_result m copy cs (w # ws) b m' r"
proof -
  have v: "vals (nodes m1) cs = vals (nodes m) cs" "nd_value (the (nodes m1 a)) = w"
    using added_vals [OF a holds_dom [OF h]] by auto
  have f: "l_free copy1 = l_free copy" using me by (simp add: methods_def)
  show ?thesis
  proof (cases b)
    case True
    then obtain copy' ds where d: "r = Some copy'" "holds m' copy' (cs @ a # ds)" "methods copy' = methods copy1"
      "vals (nodes m') (cs @ a # ds) = vals (nodes m1) (cs @ [a]) @ ws" "freed m' = freed m1" "\<forall>c. c \<notin> set (cs @ a # ds) \<longrightarrow> nodes m' c = nodes m1 c"
      "set ds \<inter> dom (nodes m1) = {}"
      using r by (auto simp: dup_result_def)
    have "set (a # ds) \<inter> dom (nodes m) = {}" using d(7) a added_dom [OF a] by (auto simp: added_def)
    moreover have "\<forall>c. c \<notin> set (cs @ a # ds) \<longrightarrow> nodes m' c = nodes m c" using d(6) a by (simp add: added_def)
    moreover have "vals (nodes m') (cs @ a # ds) = vals (nodes m) cs @ w # ws" using d(4) v by simp
    moreover have "freed m' = freed m" using d(5) a by (simp add: added_def)
    ultimately show ?thesis using True d(1-3) me by (simp add: dup_result_def) (rule exI [of _ "a # ds"], simp)
  next
    case False
    then show ?thesis using r a v f by (auto simp: dup_result_def added_def)
  qed
qed

lemma listDup_loop_ok:
  assumes alloc: "fresh_alloc alloc"
  shows "chain (nodes m) pr p as q None \<Longrightarrow> holds m copy cs \<Longrightarrow> set cs \<inter> set as = {} \<Longrightarrow> finite (dom (nodes m)) \<Longrightarrow>
    dups (dup_value (l_dup copy)) (vals (nodes m) as) = (ws, b) \<Longrightarrow>
    \<exists>m' r. listDup_loop alloc m copy \<lparr>iter_next = p, iter_direction = AL_START_HEAD\<rparr> = Some (m', r) \<and> dup_result m copy cs ws b m' r"
proof (induction as arbitrary: m pr p copy cs ws)
  case Nil
  then show ?case
    by (intro exI [of _ m] exI [of _ "Some copy"]) (auto simp: listDup_loop.simps [of _ m] listNext_def dup_result_def intro!: exI [of _ "[]"])
next
  case (Cons a as)
  then obtain n where n: "p = Some a" "nodes m a = Some n" "chain (nodes m) (Some a) (nd_next n) as q None" by auto
  show ?case
  proof (cases "dup_value (l_dup copy) (nd_value n)")
    case None
    obtain m1 l1 where e: "listEmpty m copy = Some (m1, l1)" "removed (l_free copy) cs (set cs) m m1" using listEmpty_ok [OF Cons.prems(2)] by blast
    have "dup_result m copy cs ws b m1 None" using None n Cons.prems(5) e(2) by (auto simp: dup_result_def removed_def)
    then show ?thesis using None n e(1)
      by (intro exI [of _ m1] exI [of _ None]) (subst listDup_loop.simps, simp add: listNext_def dup_value_def listRelease_def)
  next
    case (Some w)
    obtain ws' where ws: "dups (dup_value (l_dup copy)) (vals (nodes m) as) = (ws', b)" "ws = w # ws'"
      using Some n Cons.prems(5) by (auto split: prod.splits)
    obtain m1 copy1 a1 where t: "listAddNodeTail alloc m copy w = Some (m1, copy1)" "holds m1 copy1 (cs @ [a1])" "added a1 w (set cs) m m1"
      "methods copy1 = methods copy"
      using listAddNodeTail_ok [OF alloc Cons.prems(4, 2)] by blast
    have as: "set as \<subseteq> dom (nodes m)" using chain_dom [OF n(3)] .
    have "a1 \<notin> set as" using as t(3) by (auto simp: added_def)
    then have same: "c \<in> set as \<Longrightarrow> nodes m1 c = nodes m c" for c using t(3) Cons.prems(3) by (auto simp: added_def)
    have c: "chain (nodes m1) (Some a) (nd_next n) as q None" using n(3) same by (subst chain_cong [of as _ "nodes m"]) auto
    have "\<exists>m' r. listDup_loop alloc m1 copy1 \<lparr>iter_next = nd_next n, iter_direction = AL_START_HEAD\<rparr> = Some (m', r) \<and>
        dup_result m1 copy1 (cs @ [a1]) ws' b m' r"
    proof (rule Cons.IH [OF c t(2)])
      show "set (cs @ [a1]) \<inter> set as = {}" using Cons.prems(3) \<open>a1 \<notin> set as\<close> by auto
      show "finite (dom (nodes m1))" using Cons.prems(4) added_dom [OF t(3)] by simp
      show "dups (dup_value (l_dup copy1)) (vals (nodes m1) as) = (ws', b)"
        using ws(1) t(4) added_vals(1) [OF t(3) as] by (simp add: methods_def)
    qed
    then obtain m' r where r: "listDup_loop alloc m1 copy1 \<lparr>iter_next = nd_next n, iter_direction = AL_START_HEAD\<rparr> = Some (m', r)"
      "dup_result m1 copy1 (cs @ [a1]) ws' b m' r" by blast
    have "listDup_loop alloc m copy \<lparr>iter_next = p, iter_direction = AL_START_HEAD\<rparr> = Some (m', r)"
      using Some n t(1) r(1) by (subst listDup_loop.simps) (simp add: listNext_def dup_value_def)
    then show ?thesis using dup_result_step [OF r(2) t(3) Cons.prems(2) t(4)] ws(2) by blast
  qed
qed

lemma listDup_ok:
  assumes "fresh_alloc alloc" "holds m l as" "finite (dom (nodes m))" "dups (dup_value (l_dup l)) (vals (nodes m) as) = (ws, b)"
  shows "\<exists>m' r. listDup alloc m l = Some (m', r) \<and> dup_result m l [] ws b m' r"
proof -
  let ?c = "listCreate\<lparr>l_dup := l_dup l, l_free := l_free l, l_match := l_match l\<rparr>"
  have "chain (nodes m) None (l_head l) as (l_tail l) None" using assms(2) by (simp add: holds_def)
  from listDup_loop_ok [OF assms(1) this, of ?c "[]"] assms(3, 4)
  obtain m' r where "listDup alloc m l = Some (m', r)" "dup_result m ?c [] ws b m' r"
    by (auto simp: listDup_def listRewind_def holds_def listCreate_def)
  moreover have "dup_result m ?c [] ws b m' r = dup_result m l [] ws b m' r" by (simp add: dup_result_def methods_def)
  ultimately show ?thesis by blast
qed

end
