(* ===== verification/Adlist_Props.thy ===== *)
theory Adlist_Props
  imports Adlist_Ops
begin

text \<open>
  Two lists in one heap, changed by any sequence of operations on either of them, by joining them and by duplicating one:
  the lists behave as values, no operation on one of them touches the other, no node is used after it was freed and none is lost.
\<close>

subsection \<open>The values of a list\<close>

fun walk :: "'v heap \<Rightarrow> nat \<Rightarrow> nat ptr \<Rightarrow> nat list" where
  "walk h 0 p = []"
| "walk h (Suc k) p = (case p of None \<Rightarrow> [] | Some a \<Rightarrow> a # (case h a of None \<Rightarrow> [] | Some n \<Rightarrow> walk h k (nd_next n)))"

definition list_nodes :: "'v mem \<Rightarrow> 'v adlist \<Rightarrow> nat list" where
  "list_nodes m l = walk (nodes m) (l_len l) (l_head l)"

lemma walk_chain: "chain h pr p as q nx \<Longrightarrow> walk h (length as) p = as"
  by (induction as arbitrary: pr p) auto

lemma holds_nodes: "holds m l as \<Longrightarrow> list_nodes m l = as"
  by (auto simp: holds_def list_nodes_def walk_chain)


subsection \<open>Operations on one list\<close>

datatype 'v adl_op = AddHead 'v | AddTail 'v | InsertAt int 'v bool | DelAt int | IndexOf int | SearchFor 'v
  | RotateTail | RotateHead | Clear

definition at_index :: "'v mem \<Rightarrow> 'v adlist \<Rightarrow> int \<Rightarrow> (nat ptr \<Rightarrow> ('v mem \<times> 'v adlist) res) \<Rightarrow> ('v mem \<times> 'v adlist) res" where
  "at_index m l i f = do { p \<leftarrow> listIndex m l i; if p = None then Some (m, l) else f p }"

definition node_value :: "'v mem \<Rightarrow> nat ptr \<Rightarrow> 'v option res" where
  "node_value m p = (if p = None then Some None else do { n \<leftarrow> ld m p; Some (Some (nd_value n)) })"

fun adl_update :: "(nat set \<Rightarrow> nat) \<Rightarrow> 'v adl_op \<Rightarrow> 'v mem \<Rightarrow> 'v adlist \<Rightarrow> ('v mem \<times> 'v adlist) res" where
  "adl_update alloc (AddHead v) m l = listAddNodeHead alloc m l v"
| "adl_update alloc (AddTail v) m l = listAddNodeTail alloc m l v"
| "adl_update alloc (InsertAt i v after) m l = at_index m l i (\<lambda>p. listInsertNode alloc m l p v after)"
| "adl_update alloc (DelAt i) m l = at_index m l i (listDelNode m l)"
| "adl_update alloc (IndexOf i) m l = Some (m, l)"
| "adl_update alloc (SearchFor key) m l = Some (m, l)"
| "adl_update alloc RotateTail m l = listRotateTailToHead m l"
| "adl_update alloc RotateHead m l = listRotateHeadToTail m l"
| "adl_update alloc Clear m l = listEmpty m l"

fun adl_reply :: "'v adl_op \<Rightarrow> 'v mem \<Rightarrow> 'v adlist \<Rightarrow> 'v option res" where
  "adl_reply (IndexOf i) m l = do { p \<leftarrow> listIndex m l i; node_value m p }"
| "adl_reply (SearchFor key) m l = do { p \<leftarrow> listSearchKey m l key; node_value m p }"
| "adl_reply _ m l = Some None"

text \<open>What the operation does to the list of values and which values are passed to the \<open>free\<close> method.\<close>

fun seq_update :: "'v adl_op \<Rightarrow> 'v list \<Rightarrow> 'v list \<times> 'v list" where
  "seq_update (AddHead v) xs = (v # xs, [])"
| "seq_update (AddTail v) xs = (xs @ [v], [])"
| "seq_update (InsertAt i v after) xs =
     (case position i (length xs) of None \<Rightarrow> (xs, [])
      | Some k \<Rightarrow> let k = (if after then k + 1 else k) in (take k xs @ v # drop k xs, []))"
| "seq_update (DelAt i) xs =
     (case position i (length xs) of None \<Rightarrow> (xs, []) | Some k \<Rightarrow> (take k xs @ drop (k + 1) xs, [xs ! k]))"
| "seq_update RotateTail xs = (if xs = [] then [] else last xs # butlast xs, [])"
| "seq_update RotateHead xs = (rotate1 xs, [])"
| "seq_update Clear xs = ([], xs)"
| "seq_update _ xs = (xs, [])"

fun seq_reply :: "('v \<Rightarrow> 'v \<Rightarrow> bool) ptr \<Rightarrow> 'v adl_op \<Rightarrow> 'v list \<Rightarrow> 'v option" where
  "seq_reply mt (IndexOf i) xs = map_option (nth xs) (position i (length xs))"
| "seq_reply mt (SearchFor key) xs = find (matches mt key) xs"
| "seq_reply mt _ xs = None"

fun adl_allowed :: "'v adl_op \<Rightarrow> bool" where
  "adl_allowed (InsertAt i _ _) = (i \<noteq> - (2 ^ 63))"
| "adl_allowed (DelAt i) = (i \<noteq> - (2 ^ 63))"
| "adl_allowed (IndexOf i) = (i \<noteq> - (2 ^ 63))"
| "adl_allowed _ = True"

text \<open>The nodes of the list were \<open>A\<close> and are \<open>A'\<close>: those that left it are freed, those that came are new, no other node is touched.\<close>

definition within :: "nat set \<Rightarrow> nat set \<Rightarrow> 'v mem \<Rightarrow> 'v mem \<Rightarrow> bool" where
  "within A A' m m' \<longleftrightarrow> (\<forall>b. b \<notin> A \<union> A' \<longrightarrow> nodes m' b = nodes m b) \<and> (A' - A) \<inter> dom (nodes m) = {} \<and> (\<forall>b \<in> A - A'. nodes m' b = None)"

lemma within_links: "links_only A m m' \<Longrightarrow> within A A m m'"
  by (simp add: within_def links_only_def)

lemma within_added: "added a v A m m' \<Longrightarrow> within A (insert a A) m m'"
  by (auto simp: within_def added_def)

lemma within_removed: "removed fr D A m m' \<Longrightarrow> set D \<subseteq> A \<Longrightarrow> within A (A - set D) m m'"
  by (auto simp: within_def removed_def)

definition updated :: "'v adl_op \<Rightarrow> 'v mem \<Rightarrow> 'v adlist \<Rightarrow> nat list \<Rightarrow> 'v mem \<Rightarrow> 'v adlist \<Rightarrow> nat list \<Rightarrow> bool" where
  "updated opr m l as m' l' as' \<longleftrightarrow> holds m' l' as' \<and> methods l' = methods l \<and> within (set as) (set as') m m' \<and>
     vals (nodes m') as' = fst (seq_update opr (vals (nodes m) as)) \<and>
     freed m' = freed m @ (if l_free l then snd (seq_update opr (vals (nodes m) as)) else [])"

lemma updatedI_links:
  assumes "holds m l as" "holds m' l' as'" "methods l' = methods l" "links_only (set as) m m'" "set as' = set as"
    "seq_update opr (vals (nodes m) as) = (vals (nodes m) as', [])"
  shows "updated opr m l as m' l' as'"
  using assms within_links [OF assms(4)] links_only_vals [OF assms(4), of as'] holds_dom [OF assms(1)]
  by (simp add: updated_def links_only_def)

lemma updatedI_added:
  assumes "holds m l (xs @ ys)" "holds m' l' (xs @ a # ys)" "methods l' = methods l" "added a v (set (xs @ ys)) m m'"
    "seq_update opr (vals (nodes m) (xs @ ys)) = (vals (nodes m) xs @ v # vals (nodes m) ys, [])"
  shows "updated opr m l (xs @ ys) m' l' (xs @ a # ys)"
proof -
  have "vals (nodes m') xs = vals (nodes m) xs" "vals (nodes m') ys = vals (nodes m) ys" "nd_value (the (nodes m' a)) = v"
    using added_vals [OF assms(4)] holds_dom [OF assms(1)] by (metis le_sup_iff set_append)+
  moreover have "within (set (xs @ ys)) (set (xs @ a # ys)) m m'" using within_added [OF assms(4)] by simp
  ultimately show ?thesis using assms by (simp add: updated_def added_def)
qed

lemma updated_refl: "holds m l as \<Longrightarrow> seq_update opr (vals (nodes m) as) = (vals (nodes m) as, []) \<Longrightarrow> updated opr m l as m l as"
  by (rule updatedI_links) simp_all

lemma at_index_ok:
  assumes l: "holds m l as" and i: "i \<noteq> - (2 ^ 63)"
    and none: "position i (length as) = None \<Longrightarrow> seq_update opr (vals (nodes m) as) = (vals (nodes m) as, [])"
    and some: "\<And>k. position i (length as) = Some k \<Longrightarrow> k < length as \<Longrightarrow>
      \<exists>m' l' as'. f (Some (as ! k)) = Some (m', l') \<and> updated opr m l as m' l' as'"
  shows "\<exists>m' l' as'. at_index m l i f = Some (m', l') \<and> updated opr m l as m' l' as'"
proof (cases "position i (length as)")
  case None
  then show ?thesis using listIndex_ok [OF l i] updated_refl [OF l none [OF None]] by (auto simp: at_index_def)
next
  case (Some k)
  then show ?thesis using listIndex_ok [OF l i] some [OF Some position_less [OF Some]] by (auto simp: at_index_def)
qed

lemma insert_updated:
  assumes alloc: "fresh_alloc alloc" "finite (dom (nodes m))" and l: "holds m l as" and p: "position i (length as) = Some k" "k < length as"
  shows "\<exists>m' l' as'. listInsertNode alloc m l (Some (as ! k)) v after = Some (m', l') \<and> updated (InsertAt i v after) m l as m' l' as'"
proof -
  define xs ys where "xs = take k as" and "ys = drop (Suc k) as"
  have as: "xs @ as ! k # ys = as" unfolding xs_def ys_def by (rule id_take_nth_drop [OF p(2), symmetric])
  have len: "length (vals (nodes m) xs) = k" using p(2) by (simp add: xs_def)
  obtain m' l' a where r: "listInsertNode alloc m l (Some (as ! k)) v after = Some (m', l')"
    "holds m' l' (if after then xs @ as ! k # a # ys else xs @ a # as ! k # ys)" "added a v (set as) m m'" "methods l' = methods l"
    using listInsertNode_ok [OF alloc, of l xs "as ! k" ys v after] l as by auto
  define us ws where "us = (if after then xs @ [as ! k] else xs)" and "ws = (if after then ys else as ! k # ys)"
  have u: "us @ ws = as" using as by (simp add: us_def ws_def)
  have "length us = (if after then k + 1 else k)" "length as = length us + length ws"
    using len arg_cong [OF u, of length] by (simp_all add: us_def)
  then have "seq_update (InsertAt i v after) (vals (nodes m) (us @ ws)) = (vals (nodes m) us @ v # vals (nodes m) ws, [])"
    using p(1) by (simp add: Let_def)
  moreover have "holds m' l' (us @ a # ws)" using r(2) by (simp add: us_def ws_def split: if_splits)
  ultimately have "updated (InsertAt i v after) m l as m' l' (us @ a # ws)"
    using updatedI_added [of m l us ws m' l' a v "InsertAt i v after"] l r(3, 4) unfolding u by blast
  then show ?thesis using r(1) by blast
qed

lemma delete_updated:
  assumes l: "holds m l as" and p: "position i (length as) = Some k" "k < length as"
  shows "\<exists>m' l' as'. listDelNode m l (Some (as ! k)) = Some (m', l') \<and> updated (DelAt i) m l as m' l' as'"
proof -
  define xs ys where "xs = take k as" and "ys = drop (Suc k) as"
  have as: "xs @ as ! k # ys = as" unfolding xs_def ys_def by (rule id_take_nth_drop [OF p(2), symmetric])
  have len: "length (vals (nodes m) xs) = k" "length as = Suc (k + length ys)" using p(2) by (auto simp: xs_def ys_def)
  obtain m' l' where r: "listDelNode m l (Some (as ! k)) = Some (m', l')" "holds m' l' (xs @ ys)" "removed (l_free l) [as ! k] (set as) m m'"
    "methods l' = methods l"
    using listDelNode_ok [of m l xs "as ! k" ys] l as by auto
  have d: "distinct (xs @ as ! k # ys)" using l as by (simp add: holds_def)
  have "set as = insert (as ! k) (set (xs @ ys))" using arg_cong [OF as, of set] by simp
  then have S: "set as - {as ! k} = set (xs @ ys)" using d by auto
  have "vals (nodes m') (xs @ ys) = vals (nodes m) (xs @ ys)"
    using removed_vals [OF r(3), of "xs @ ys"] holds_dom [OF l] S by auto
  moreover have "within (set as) (set (xs @ ys)) m m'" using within_removed [OF r(3)] S p(2) by simp
  moreover have "seq_update (DelAt i) (vals (nodes m) (xs @ as ! k # ys)) = (vals (nodes m) (xs @ ys), vals (nodes m) [as ! k])"
    using p(1) len by (simp add: nth_append)
  ultimately have "updated (DelAt i) m l as m' l' (xs @ ys)" using r as by (simp add: updated_def removed_def)
  then show ?thesis using r(1) by blast
qed

lemma adl_update_ok:
  assumes alloc: "fresh_alloc alloc" and fin: "finite (dom (nodes m))" and l: "holds m l as" and ok: "adl_allowed opr"
  shows "\<exists>m' l' as'. adl_update alloc opr m l = Some (m', l') \<and> updated opr m l as m' l' as'"
proof (cases opr)
  case (AddHead v)
  obtain m' l' a where r: "listAddNodeHead alloc m l v = Some (m', l')" "holds m' l' (a # as)" "added a v (set as) m m'" "methods l' = methods l"
    using listAddNodeHead_ok [OF alloc fin l] by blast
  then have "updated opr m l as m' l' (a # as)" using updatedI_added [of m l "[]" as m' l' a v opr] l AddHead by simp
  then show ?thesis using r(1) AddHead by auto
next
  case (AddTail v)
  obtain m' l' a where r: "listAddNodeTail alloc m l v = Some (m', l')" "holds m' l' (as @ [a])" "added a v (set as) m m'" "methods l' = methods l"
    using listAddNodeTail_ok [OF alloc fin l] by blast
  then have "updated opr m l as m' l' (as @ [a])" using updatedI_added [of m l as "[]" m' l' a v opr] l AddTail by simp
  then show ?thesis using r(1) AddTail by auto
next
  case (InsertAt i v after)
  have "\<exists>m' l' as'. listInsertNode alloc m l (Some (as ! k)) v after = Some (m', l') \<and> updated opr m l as m' l' as'"
    if "position i (length as) = Some k" "k < length as" for k
    using insert_updated [OF alloc fin l that] InsertAt by simp
  then show ?thesis using at_index_ok [OF l, of i opr "\<lambda>p. listInsertNode alloc m l p v after"] ok InsertAt by auto
next
  case (DelAt i)
  have "\<exists>m' l' as'. listDelNode m l (Some (as ! k)) = Some (m', l') \<and> updated opr m l as m' l' as'"
    if "position i (length as) = Some k" "k < length as" for k
    using delete_updated [OF l that] DelAt by simp
  then show ?thesis using at_index_ok [OF l, of i opr "listDelNode m l"] ok DelAt by auto
next
  case (IndexOf i)
  then show ?thesis using updated_refl [OF l, of opr] by auto
next
  case (SearchFor key)
  then show ?thesis using updated_refl [OF l, of opr] by auto
next
  case RotateTail
  show ?thesis
  proof (cases as rule: rev_cases)
    case Nil
    then show ?thesis using RotateTail updated_refl [OF l, of opr] l by (auto simp: listRotateTailToHead_def holds_def)
  next
    case (snoc xs t)
    then obtain m' l' where "listRotateTailToHead m l = Some (m', l')" "holds m' l' (t # xs)" "links_only (set (t # xs)) m m'" "methods l' = methods l"
      using listRotateTailToHead_ok l by blast
    then show ?thesis using updatedI_links [OF l, of m' l' "t # xs" opr] RotateTail snoc by auto
  qed
next
  case RotateHead
  show ?thesis
  proof (cases as)
    case Nil
    then show ?thesis using RotateHead updated_refl [OF l, of opr] l by (auto simp: listRotateHeadToTail_def holds_def)
  next
    case (Cons t ys)
    then obtain m' l' where "listRotateHeadToTail m l = Some (m', l')" "holds m' l' (ys @ [t])" "links_only (set (t # ys)) m m'" "methods l' = methods l"
      using listRotateHeadToTail_ok l by blast
    then show ?thesis using updatedI_links [OF l, of m' l' "ys @ [t]" opr] RotateHead Cons by auto
  qed
next
  case Clear
  then show ?thesis using listEmpty_ok [OF l] within_removed [of "l_free l" as "set as" m]
    by (fastforce simp: updated_def removed_def)
qed

lemma find_vals: "find P (map f as) = map_option f (find (\<lambda>a. P (f a)) as)"
  by (induction as) auto

lemma node_value_ok: "set_option p \<subseteq> dom (nodes m) \<Longrightarrow> node_value m p = Some (map_option (\<lambda>a. nd_value (the (nodes m a))) p)"
  by (cases p) (auto simp: node_value_def)

lemma adl_reply_ok:
  assumes l: "holds m l as" and ok: "adl_allowed opr"
  shows "adl_reply opr m l = Some (seq_reply (l_match l) opr (vals (nodes m) as))"
proof (cases opr)
  case (IndexOf i)
  have "as ! k \<in> dom (nodes m)" if "position i (length as) = Some k" for k
    using holds_dom [OF l] nth_mem [OF position_less [OF that]] by blast
  then have "set_option (map_option (nth as) (position i (length as))) \<subseteq> dom (nodes m)" by (cases "position i (length as)") auto
  then show ?thesis using IndexOf ok listIndex_ok [OF l, of i] position_less [of i "length as"]
    by (auto simp: node_value_ok vals_def option.map_comp intro!: map_option_cong)
next
  case (SearchFor key)
  have "set_option (find P as) \<subseteq> dom (nodes m)" for P
    using holds_dom [OF l] by (auto simp: subset_iff find_Some_iff in_set_conv_nth)
  then show ?thesis using SearchFor listSearchKey_ok [OF l] by (simp add: node_value_ok vals_def find_vals)
qed auto


subsection \<open>Two lists\<close>

type_synonym 'v two_lists = "'v mem \<times> 'v adlist \<times> 'v adlist"

datatype 'v pair_op = OnFirst "'v adl_op" | OnSecond "'v adl_op" | Join | DupFirst

definition new_list :: "('v \<Rightarrow> 'v ptr) ptr \<Rightarrow> bool \<Rightarrow> ('v \<Rightarrow> 'v \<Rightarrow> bool) ptr \<Rightarrow> 'v adlist" where
  "new_list dp fr mt = listCreate\<lparr>l_dup := dp, l_free := fr, l_match := mt\<rparr>"

text \<open>Joining moves the nodes of the second list to the first; duplicating releases the second list and makes it a copy of the first, or
  an empty list if a value cannot be copied.\<close>

fun pair_step :: "(nat set \<Rightarrow> nat) \<Rightarrow> 'v pair_op \<Rightarrow> 'v two_lists \<Rightarrow> ('v two_lists \<times> 'v option) res" where
  "pair_step alloc (OnFirst opr) (m, l, o') = do {
     r \<leftarrow> adl_reply opr m l;
     (m, l) \<leftarrow> adl_update alloc opr m l;
     Some ((m, l, o'), r) }"
| "pair_step alloc (OnSecond opr) (m, l, o') = do {
     r \<leftarrow> adl_reply opr m o';
     (m, o') \<leftarrow> adl_update alloc opr m o';
     Some ((m, l, o'), r) }"
| "pair_step alloc Join (m, l, o') = do { (m, l, o') \<leftarrow> listJoin m l o'; Some ((m, l, o'), None) }"
| "pair_step alloc DupFirst (m, l, o') = do {
     m \<leftarrow> listRelease m (Some o');
     (m, c) \<leftarrow> listDup alloc m l;
     Some ((m, l, case c of Some c \<Rightarrow> c | None \<Rightarrow> new_list (l_dup l) (l_free l) (l_match l)), None) }"

fun pair_spec :: "('v \<Rightarrow> 'v ptr) ptr \<Rightarrow> bool \<Rightarrow> ('v \<Rightarrow> 'v \<Rightarrow> bool) ptr \<Rightarrow> 'v pair_op \<Rightarrow> 'v list \<times> 'v list \<times> 'v list \<Rightarrow>
    ('v list \<times> 'v list \<times> 'v list) \<times> 'v option" where
  "pair_spec dp fr mt (OnFirst opr) (xs, ys, f) =
     (case seq_update opr xs of (xs', d) \<Rightarrow> ((xs', ys, f @ (if fr then d else [])), seq_reply mt opr xs))"
| "pair_spec dp fr mt (OnSecond opr) (xs, ys, f) =
     (case seq_update opr ys of (ys', d) \<Rightarrow> ((xs, ys', f @ (if fr then d else [])), seq_reply mt opr ys))"
| "pair_spec dp fr mt Join (xs, ys, f) = ((xs @ ys, [], f), None)"
| "pair_spec dp fr mt DupFirst (xs, ys, f) =
     (case dups (dup_value dp) xs of (ws, b) \<Rightarrow>
        if b then ((xs, ws, f @ (if fr then ys else [])), None)
        else ((xs, [], f @ (if fr then ys @ ws else [])), None))"

fun pair_allowed :: "'v pair_op \<Rightarrow> bool" where
  "pair_allowed (OnFirst opr) = adl_allowed opr"
| "pair_allowed (OnSecond opr) = adl_allowed opr"
| "pair_allowed _ = True"

definition pair_view :: "'v two_lists \<Rightarrow> 'v list \<times> 'v list \<times> 'v list" where
  "pair_view d = (case d of (m, l, o') \<Rightarrow> (vals (nodes m) (list_nodes m l), vals (nodes m) (list_nodes m o'), freed m))"

definition two_in_heap :: "'v mem \<Rightarrow> 'v adlist \<Rightarrow> 'v adlist \<Rightarrow> nat list \<Rightarrow> nat list \<Rightarrow> bool" where
  "two_in_heap m l o' as bs \<longleftrightarrow> holds m l as \<and> holds m o' bs \<and> set as \<inter> set bs = {} \<and> dom (nodes m) = set as \<union> set bs"

definition pair_ok :: "('v \<Rightarrow> 'v ptr) ptr \<Rightarrow> bool \<Rightarrow> ('v \<Rightarrow> 'v \<Rightarrow> bool) ptr \<Rightarrow> 'v two_lists \<Rightarrow> bool" where
  "pair_ok dp fr mt d \<longleftrightarrow> (case d of (m, l, o') \<Rightarrow> two_in_heap m l o' (list_nodes m l) (list_nodes m o') \<and>
     methods l = (dp, fr, mt) \<and> methods o' = (dp, fr, mt))"

lemma two_sym: "two_in_heap m l o' as bs \<Longrightarrow> two_in_heap m o' l bs as"
  by (auto simp: two_in_heap_def)

lemma pair_okI:
  assumes "two_in_heap m l o' as bs" "methods l = (dp, fr, mt)" "methods o' = (dp, fr, mt)"
  shows "pair_ok dp fr mt (m, l, o')" "pair_view (m, l, o') = (vals (nodes m) as, vals (nodes m) bs, freed m)"
  using assms holds_nodes by (auto simp: pair_ok_def pair_view_def two_in_heap_def)

lemma within_two:
  assumes t: "two_in_heap m l o' as bs" and w: "within (set as) (set as') m m'" and h: "holds m' l' as'"
  shows "two_in_heap m' l' o' as' bs \<and> vals (nodes m') bs = vals (nodes m) bs"
proof -
  have d: "set as' \<inter> set bs = {}" using t w by (auto simp: two_in_heap_def within_def)
  then have same: "b \<in> set bs \<Longrightarrow> nodes m' b = nodes m b" for b using t w by (auto simp: two_in_heap_def within_def)
  then have "chain (nodes m') pr p bs q nx = chain (nodes m) pr p bs q nx" for pr p q nx by (intro chain_cong) auto
  then have "holds m' o' bs" using t by (simp add: two_in_heap_def holds_def)
  moreover have "vals (nodes m') bs = vals (nodes m) bs" using same by (simp add: vals_def)
  moreover have "dom (nodes m') = set as' \<union> set bs"
  proof (rule set_eqI)
    fix b
    show "b \<in> dom (nodes m') \<longleftrightarrow> b \<in> set as' \<union> set bs"
    proof (cases "b \<in> set as' \<union> set bs")
      case True
      then show ?thesis using holds_dom [OF h] holds_dom [OF \<open>holds m' o' bs\<close>] by auto
    next
      case False
      then have "nodes m' b = None" using t w unfolding two_in_heap_def within_def by (cases "b \<in> set as") (auto simp: dom_def)
      then show ?thesis using False by auto
    qed
  qed
  ultimately show ?thesis using h d by (simp add: two_in_heap_def)
qed

lemma one_list_step:
  assumes alloc: "fresh_alloc alloc" and t: "two_in_heap m l o' as bs" and ok: "adl_allowed opr"
  shows "\<exists>m' l' as'. adl_reply opr m l = Some (seq_reply (l_match l) opr (vals (nodes m) as)) \<and> adl_update alloc opr m l = Some (m', l') \<and>
    two_in_heap m' l' o' as' bs \<and> methods l' = methods l \<and> vals (nodes m') bs = vals (nodes m) bs \<and>
    vals (nodes m') as' = fst (seq_update opr (vals (nodes m) as)) \<and>
    freed m' = freed m @ (if l_free l then snd (seq_update opr (vals (nodes m) as)) else [])"
proof -
  have l: "holds m l as" and fin: "finite (dom (nodes m))" using t by (auto simp: two_in_heap_def)
  obtain m' l' as' where u: "adl_update alloc opr m l = Some (m', l')" "updated opr m l as m' l' as'" using adl_update_ok [OF alloc fin l ok] by blast
  then have "two_in_heap m' l' o' as' bs \<and> vals (nodes m') bs = vals (nodes m) bs" by (intro within_two [OF t]) (auto simp: updated_def)
  then show ?thesis using u adl_reply_ok [OF l ok] by (auto simp: updated_def)
qed

lemma join_step:
  assumes t: "two_in_heap m l o' as bs"
  shows "\<exists>m' l' o''. listJoin m l o' = Some (m', l', o'') \<and> two_in_heap m' l' o'' (as @ bs) [] \<and> methods l' = methods l \<and> methods o'' = methods o' \<and>
    vals (nodes m') (as @ bs) = vals (nodes m) as @ vals (nodes m) bs \<and> freed m' = freed m"
proof -
  have h: "holds m l as" "holds m o' bs" "set as \<inter> set bs = {}" "dom (nodes m) = set as \<union> set bs" using t by (auto simp: two_in_heap_def)
  obtain m' l' o'' where j: "listJoin m l o' = Some (m', l', o'')" "holds m' l' (as @ bs)" "holds m' o'' []" "links_only (set as \<union> set bs) m m'"
    "methods l' = methods l" "methods o'' = methods o'" using listJoin_ok [OF h(1-3)] by blast
  have "two_in_heap m' l' o'' (as @ bs) []" using j h(4) links_only_dom [OF j(4)] by (simp add: two_in_heap_def)
  moreover have "vals (nodes m') (as @ bs) = vals (nodes m) (as @ bs)" using links_only_vals [OF j(4)] h(4) by simp
  ultimately show ?thesis using j by (auto simp: links_only_def)
qed

lemma release_second:
  assumes t: "two_in_heap m l o' as bs"
  shows "\<exists>m'. listRelease m (Some o') = Some m' \<and> holds m' l as \<and> dom (nodes m') = set as \<and> vals (nodes m') as = vals (nodes m) as \<and>
    freed m' = freed m @ (if l_free o' then vals (nodes m) bs else [])"
proof -
  have h: "holds m l as" "holds m o' bs" "set as \<inter> set bs = {}" "dom (nodes m) = set as \<union> set bs" using t by (auto simp: two_in_heap_def)
  obtain m' o'' where r: "listEmpty m o' = Some (m', o'')" "removed (l_free o') bs (set bs) m m'" using listEmpty_ok [OF h(2)] by blast
  have "dom (nodes m') = set as" using removed_dom [OF r(2)] h(3, 4) by auto
  moreover have "chain (nodes m') pr p as q nx = chain (nodes m) pr p as q nx" for pr p q nx
    using r(2) h(3) by (intro chain_cong) (auto simp: removed_def)
  moreover have "vals (nodes m') as = vals (nodes m) as" using removed_vals [OF r(2), of as] h(3, 4) by auto
  ultimately show ?thesis using r h(1) by (simp add: listRelease_def holds_def removed_def)
qed

lemma dup_step:
  assumes alloc: "fresh_alloc alloc" and t: "two_in_heap m l o' as bs" and me: "l_free o' = l_free l"
    and d: "dups (dup_value (l_dup l)) (vals (nodes m) as) = (ws, b)"
  shows "\<exists>m1 m' c cs. listRelease m (Some o') = Some m1 \<and> listDup alloc m1 l = Some (m', c) \<and>
    (let o'' = (case c of Some c \<Rightarrow> c | None \<Rightarrow> new_list (l_dup l) (l_free l) (l_match l)) in two_in_heap m' l o'' as cs \<and> methods o'' = methods l) \<and>
    vals (nodes m') as = vals (nodes m) as \<and> vals (nodes m') cs = (if b then ws else []) \<and>
    freed m' = freed m @ (if l_free l then vals (nodes m) bs @ (if b then [] else ws) else [])"
proof -
  obtain m1 where m1: "listRelease m (Some o') = Some m1" "holds m1 l as" "dom (nodes m1) = set as" "vals (nodes m1) as = vals (nodes m) as"
    "freed m1 = freed m @ (if l_free o' then vals (nodes m) bs else [])"
    using release_second [OF t] by blast
  obtain m' r where r: "listDup alloc m1 l = Some (m', r)" "dup_result m1 l [] ws b m' r"
    using listDup_ok [OF alloc m1(2), of ws b] m1(3, 4) d by auto
  show ?thesis
  proof (cases b)
    case True
    then obtain copy ds where c: "r = Some copy" "holds m' copy ds" "methods copy = methods l" "vals (nodes m') ds = ws" "freed m' = freed m1"
      "\<forall>c. c \<notin> set ds \<longrightarrow> nodes m' c = nodes m1 c" "set ds \<inter> set as = {}"
      using r(2) m1(3) by (auto simp: dup_result_def)
    have n: "two_in_heap m1 l (new_list None False None) as []"
      using m1 by (simp add: two_in_heap_def holds_def new_list_def listCreate_def)
    have "within (set []) (set ds) m1 m'" using c(6, 7) m1(3) by (auto simp: within_def)
    from within_two [OF two_sym [OF n] this c(2)] have "two_in_heap m' l copy as ds" "vals (nodes m') as = vals (nodes m1) as"
      by (auto dest: two_sym)
    then show ?thesis using True m1 r(1) c me by (auto simp: Let_def intro!: exI [of _ ds])
  next
    case False
    then have f: "r = None" "nodes m' = nodes m1" "freed m' = freed m1 @ (if l_free l then ws else [])" using r(2) by (auto simp: dup_result_def)
    have "two_in_heap m' l (new_list (l_dup l) (l_free l) (l_match l)) as []"
      using m1 f(2) by (simp add: two_in_heap_def holds_def new_list_def listCreate_def)
    then show ?thesis using False m1 r(1) f me by (auto simp: Let_def methods_def new_list_def intro!: exI [of _ "[]"])
  qed
qed

lemma pair_step_ok:
  assumes alloc: "fresh_alloc alloc" and p: "pair_ok dp fr mt d" and ok: "pair_allowed opr"
  shows "\<exists>d' r. pair_step alloc opr d = Some (d', r) \<and> pair_ok dp fr mt d' \<and> pair_spec dp fr mt opr (pair_view d) = (pair_view d', r)"
proof -
  obtain m l o' where d: "d = (m, l, o')" by (cases d)
  obtain as bs where t: "two_in_heap m l o' as bs" and me: "methods l = (dp, fr, mt)" "methods o' = (dp, fr, mt)"
    using p by (auto simp: pair_ok_def d)
  note v = pair_okI(2) [OF t me]
  have mm: "l_dup l = dp" "l_free l = fr" "l_match l = mt" "l_free o' = fr" "l_match o' = mt" using me by (auto simp: methods_def)
  show ?thesis
  proof (cases opr)
    case (OnFirst op1)
    then obtain m' l' as' where u: "adl_reply op1 m l = Some (seq_reply mt op1 (vals (nodes m) as))" "adl_update alloc op1 m l = Some (m', l')"
      "two_in_heap m' l' o' as' bs" "methods l' = methods l" "vals (nodes m') bs = vals (nodes m) bs"
      "vals (nodes m') as' = fst (seq_update op1 (vals (nodes m) as))"
      "freed m' = freed m @ (if fr then snd (seq_update op1 (vals (nodes m) as)) else [])"
      using one_list_step [OF alloc t, of op1] ok mm by auto
    have "methods l' = (dp, fr, mt)" using u(4) me(1) by simp
    note w = pair_okI [OF u(3) this me(2)]
    show ?thesis using OnFirst u w(1) unfolding d v by (simp add: w(2) split: prod.split)
  next
    case (OnSecond op1)
    then obtain m' l' bs' where u: "adl_reply op1 m o' = Some (seq_reply mt op1 (vals (nodes m) bs))" "adl_update alloc op1 m o' = Some (m', l')"
      "two_in_heap m' l' l bs' as" "methods l' = methods o'" "vals (nodes m') as = vals (nodes m) as"
      "vals (nodes m') bs' = fst (seq_update op1 (vals (nodes m) bs))"
      "freed m' = freed m @ (if fr then snd (seq_update op1 (vals (nodes m) bs)) else [])"
      using one_list_step [OF alloc two_sym [OF t], of op1] ok mm by auto
    have "methods l' = (dp, fr, mt)" using u(4) me(2) by simp
    note w = pair_okI [OF two_sym [OF u(3)] me(1) this]
    show ?thesis using OnSecond u w(1) unfolding d v by (simp add: w(2) split: prod.split)
  next
    case Join
    obtain m' l' o'' where j: "listJoin m l o' = Some (m', l', o'')" "two_in_heap m' l' o'' (as @ bs) []" "methods l' = methods l" "methods o'' = methods o'"
      "vals (nodes m') (as @ bs) = vals (nodes m) as @ vals (nodes m) bs" "freed m' = freed m"
      using join_step [OF t] by blast
    have "methods l' = (dp, fr, mt)" "methods o'' = (dp, fr, mt)" using j(3, 4) me by simp_all
    note w = pair_okI [OF j(2) this]
    show ?thesis using Join j w(1) unfolding d v by (simp add: w(2))
  next
    case DupFirst
    obtain ws b where ws: "dups (dup_value dp) (vals (nodes m) as) = (ws, b)" by (cases "dups (dup_value dp) (vals (nodes m) as)")
    obtain m1 m' c cs where u: "listRelease m (Some o') = Some m1" "listDup alloc m1 l = Some (m', c)"
      "two_in_heap m' l (case c of Some c \<Rightarrow> c | None \<Rightarrow> new_list (l_dup l) (l_free l) (l_match l)) as cs"
      "methods (case c of Some c \<Rightarrow> c | None \<Rightarrow> new_list (l_dup l) (l_free l) (l_match l)) = methods l"
      "vals (nodes m') as = vals (nodes m) as" "vals (nodes m') cs = (if b then ws else [])"
      "freed m' = freed m @ (if l_free l then vals (nodes m) bs @ (if b then [] else ws) else [])"
      using dup_step [OF alloc t _ ws [folded mm(1)]] mm by (auto simp: Let_def)
    note w = pair_okI [OF u(3) me(1) u(4) [unfolded me(1)]]
    show ?thesis using DupFirst u(1, 2, 5-7) w(1) ws mm(2) unfolding d v by (simp add: w(2))
  qed
qed

interpretation adl: bounded_impl b "\<lambda>opr. fresh_alloc alloc \<and> pair_allowed opr" "\<lambda>_. pair_ok dp fr mt" pair_view "pair_step alloc" "pair_spec dp fr mt"
  for b and alloc :: "nat set \<Rightarrow> nat" and dp :: "('v \<Rightarrow> 'v ptr) ptr" and fr and mt
  by unfold_locales (blast intro: pair_step_ok)


subsection \<open>Properties\<close>

text \<open>C4: the doubly linked lists are sequences of values. Start from two empty lists with the same methods in an empty heap and apply any sequence of
  insertions, deletions, rotations, lookups and searches to either of them, joins, and duplications: nothing reads or writes a node that is not
  allocated, every reply and the values passed to the \<open>free\<close> method are those of the corresponding operations on two sequences, also when a
  duplication fails half way, and in the end the heap consists of exactly the nodes of the two lists, each well linked in both directions
  and of the recorded length.\<close>

theorem adlist_refines_lists:
  assumes "fresh_alloc alloc" "list_all pair_allowed oprs"
  shows "\<exists>m l o' rs. run_steps (pair_step alloc) oprs (\<lparr>nodes = (\<lambda>_. None), freed = []\<rparr>, new_list dp fr mt, new_list dp fr mt) = Some ((m, l, o'), rs) \<and>
    two_in_heap m l o' (list_nodes m l) (list_nodes m o') \<and>
    run_spec (pair_spec dp fr mt) oprs ([], [], []) = ((vals (nodes m) (list_nodes m l), vals (nodes m) (list_nodes m o'), freed m), rs)"
proof -
  let ?m = "\<lparr>nodes = (\<lambda>_. None), freed = []\<rparr>" and ?l = "new_list dp fr mt"
  have "two_in_heap ?m ?l ?l [] []" "methods ?l = (dp, fr, mt)"
    by (auto simp: two_in_heap_def holds_def new_list_def listCreate_def methods_def)
  note 0 = pair_okI [OF this this(2)]
  have "list_all (\<lambda>opr. fresh_alloc alloc \<and> pair_allowed opr) oprs" using assms by (simp add: list_all_iff)
  then obtain d rs where "run_steps (pair_step alloc) oprs (?m, ?l, ?l) = Some (d, rs)" "pair_ok dp fr mt d"
    "run_spec (pair_spec dp fr mt) oprs (pair_view (?m, ?l, ?l)) = (pair_view d, rs)"
    using adl.bounded_run [where n = 0, OF 0(1), of oprs "length oprs" alloc] by auto
  then show ?thesis unfolding 0(2) by (cases d) (auto simp: pair_ok_def pair_view_def)
qed

definition sample_alloc :: "nat set \<Rightarrow> nat" where
  "sample_alloc S = (if S = {} then 0 else Suc (Max S))"

lemma sample_alloc_fresh: "fresh_alloc sample_alloc"
  unfolding fresh_alloc_def sample_alloc_def by (metis Max_ge Suc_n_not_le_n empty_iff)

theorem adlist_refines_lists_witness:
  "\<exists>m l o'. run_steps (pair_step sample_alloc)
      [OnFirst (AddTail 1), OnFirst (AddHead 2), OnFirst (InsertAt (- 1) 3 False), DupFirst, OnSecond RotateTail, Join, OnFirst (DelAt 0),
       OnFirst (IndexOf (- 1)), OnFirst (SearchFor 9)]
      (\<lparr>nodes = (\<lambda>_. None), freed = []\<rparr>, new_list None True None, new_list None True None) =
      Some ((m, l, o'), [None, None, None, None, None, None, None, Some (3 :: nat), None]) \<and>
    vals (nodes m) (list_nodes m l) = [3, 1, 1, 2, 3] \<and> vals (nodes m) (list_nodes m o') = [] \<and> freed m = [2]"
proof -
  let ?ops = "[OnFirst (AddTail (1 :: nat)), OnFirst (AddHead 2), OnFirst (InsertAt (- 1) 3 False), DupFirst, OnSecond RotateTail, Join, OnFirst (DelAt 0),
       OnFirst (IndexOf (- 1)), OnFirst (SearchFor 9)]"
  have "run_spec (pair_spec None True None) ?ops ([], [], []) =
      (([3, 1, 1, 2, 3], [], [2]), [None, None, None, None, None, None, None, Some (3 :: nat), None])"
    by (simp add: position_def dup_value_def matches_def Let_def)
  moreover have "list_all pair_allowed ?ops" by simp
  from adlist_refines_lists [OF sample_alloc_fresh this, of None True None] obtain m l o' rs where
    "run_steps (pair_step sample_alloc) ?ops (\<lparr>nodes = (\<lambda>_. None), freed = []\<rparr>, new_list None True None, new_list None True None) = Some ((m, l, o'), rs)"
    "run_spec (pair_spec None True None) ?ops ([], [], []) = ((vals (nodes m) (list_nodes m l), vals (nodes m) (list_nodes m o'), freed m), rs)"
    by blast
  ultimately have "run_steps (pair_step sample_alloc) ?ops (\<lparr>nodes = (\<lambda>_. None), freed = []\<rparr>, new_list None True None, new_list None True None) =
      Some ((m, l, o'), [None, None, None, None, None, None, None, Some 3, None])" "vals (nodes m) (list_nodes m l) = [3, 1, 1, 2, 3]"
    "vals (nodes m) (list_nodes m o') = []" "freed m = [2]"
    by (simp_all del: run_steps.simps run_spec.simps)
  then show ?thesis by blast
qed

end
