(* ===== verification/Spec2Isabelle.thy ===== *)
theory Spec2Isabelle
  imports Prelude Fwtree Intset Numconv Glob Listpack_Props Dict_Props Kvstore_Props Lzf_Props Adlist_Props
begin

text \<open>
  Verification of the data structures of the Redis server that the repository carries under
  \<^verbatim>\<open>src/local-redis/redis-stable/src\<close>. File names below are relative to that directory.

  \<^bold>\<open>The parts and how they interact.\<close> The keys of a database live in a key-value store
  (\<^verbatim>\<open>kvstore.c\<close>): an array of hash tables (\<^verbatim>\<open>dict.c\<close>), one for each cluster slot, with counters and a
  Fenwick tree over their sizes (\<^verbatim>\<open>fwtree.c\<close>). Small values are kept in packed blocks: listpacks
  (\<^verbatim>\<open>listpack.c\<close>) for lists, hashes and sorted sets, integer sets (\<^verbatim>\<open>intset.c\<close>) for sets. Listpacks use the number
  conversions of \<^verbatim>\<open>util.c\<close>, which also has the glob matcher of KEYS, SCAN and the publish/subscribe patterns.
  Long strings and list nodes are compressed with LZF (\<^verbatim>\<open>lzf_c.c\<close>, \<^verbatim>\<open>lzf_d.c\<close>). Doubly linked lists
  (\<^verbatim>\<open>adlist.c\<close>) hold clients, replies and jobs.

  \<^bold>\<open>Conventions\<close> (\<open>Prelude\<close>). A buffer or an array is a list, and every access goes through \<open>rd\<close>, \<open>wr\<close>,
  \<open>rd_n\<close>, \<open>wr_n\<close> or \<open>mem_move\<close>. The result type \<open>'a res\<close> is \<open>None\<close> for an access outside the object, a
  failed assertion or other undefined behaviour, so a theorem that an operation returns \<open>Some\<close> is a theorem of
  memory safety. NULL is \<open>None\<close> of \<open>'a ptr\<close>. A C function keeps its name, or loses a leading underscore; its loops are
  \<open><function>_loop\<close>; out-parameters are part of the result. There is no fuel: a recursion
  is proved to terminate, or, where the end of the loop depends on an invariant (the searches and copies of a linked list, full rehashing,
  the buckets of one scan step, the next entry of an iterator), it is a partial function with \<open>None\<close> for an endless loop, so that the theorems that
  an operation returns \<open>Some\<close> include that its loops end. Bytes, cursors, hashes, counters that may wrap and the accumulators of the parsers
  are words; the texts of the theories say where a number is unbounded instead and why it makes no difference.
  Allocation succeeds; the content of fresh memory is the parameter \<open>junk\<close>, and \<open>alloc\<close> the address it gets. Code
  behind function pointers is a parameter: the hash function and the key conversion of a dict type, \<open>canFreeDict\<close> and the skip callback of a store,
  the methods of a list. \<open>Prelude\<close> also has the locales \<open>bounded_impl\<close> and \<open>implements\<close>: a step function on
  concrete states that answers as an abstract step function does, one step at a time, does so for every sequence
  of steps. They are interpreted for dicts (\<open>dm\<close>), stores (\<open>kvm\<close>) and lists (\<open>adl\<close>).

  \<^bold>\<open>Theories.\<close>

  \<^item> \<open>Fwtree\<close> (\<^verbatim>\<open>fwtree.c\<close>): record \<open>fenwickTree\<close>, update, prefix sums and searches over the 64-bit cells. The
    locale \<open>slot_index\<close> is what a store relies on: the n-th key, the first and the next non-empty slot are those
    a linear search finds. It is interpreted for the tree (\<open>fwi\<close>) and for the store itself (\<open>kvi\<close>). On an empty tree the search for
    the first slot leaves the array.

  \<^item> \<open>Intset\<close> (\<^verbatim>\<open>intset.c\<close>): record \<open>intset\<close> with the encoded bytes. The locale \<open>int_set\<close> states that the
    operations are those of a finite set; its interpretation \<open>isx\<close> covers every upgrade of the encoding. Valid sets have
    fewer than \<open>2 ^ 29\<close> elements, where the 32-bit byte count of \<open>intsetMoveTail\<close> does not wrap; at \<open>2 ^ 29\<close>
    it does. The validation of a serialized set is characterised on every byte string, including the
    blobs of more than \<open>2 ^ 31\<close> records on which it reads before the blob, since a \<open>uint32_t\<close> index becomes an \<open>int\<close>.

  \<^item> \<open>Numconv\<close> (\<^verbatim>\<open>util.c\<close>): \<open>ll2string\<close> and \<open>string2ll\<close> against canonical decimal numerals, with the
    64-bit accumulator and its two overflow tests, and the signal-safe hexadecimal parser, which reads one byte past its
    input if all characters are digits and the value fits in an \<open>unsigned long\<close>.

  \<^item> \<open>Glob\<close> (\<^verbatim>\<open>util.c\<close>): \<open>stringmatchlen\<close> with its nesting limit of 1000 and its early exit is equivalent to
    a matcher on tokens (\<open>tokens\<close>, \<open>gmatch\<close>) on non-empty strings and patterns of at most 1000 stars; without
    the bound a reported match is still right. \<open>prefixmatch\<close> is right about all extensions of a
    prefix if bracket expressions are closed (\<open>brackets_closed\<close>) and wrong for unclosed ones.

  \<^item> \<open>Listpack\<close> (\<^verbatim>\<open>listpack.c\<close>) has the operations on bytes; \<open>Listpack_Repr\<close> says which list a block represents,
    \<open>Listpack_Values\<close> what encoders and getters do, \<open>Listpack_Edit\<close> and \<open>Listpack_Search\<close> have the refinement of each
    operation and the validation; \<open>Listpack_Props\<close> has the locale \<open>packed_seq\<close>, its interpretation \<open>lps\<close> and the
    properties. A listpack has fewer than \<open>2 ^ 32\<close> bytes; an insertion returns NULL exactly when the result would not.

  \<^item> \<open>Dict\<close> (\<^verbatim>\<open>dict.c\<close>, \<^verbatim>\<open>dict.h\<close>) has the two tables with chained entries of every kind, incremental
    rehashing, iterators and the scan cursor; \<open>Dict_Inv\<close> the invariant, \<open>Dict_Map\<close> the operations as those of a
    finite map, \<open>Dict_Scan\<close> the order of the reversed cursors; \<open>Dict_Props\<close> shows that every sequence of operations
    refines a map under every resize policy, that rehashing ends, that a scan ends and misses no key that stays.

  \<^item> \<open>Kvstore\<close> (\<^verbatim>\<open>kvstore.c\<close>): the store with the callbacks its dicts make. \<open>Kvstore_Inv\<close> says that
    its counters are the sums over the dicts, \<open>Kvstore_Ops\<close> that operations keep this, \<open>Kvstore_Props\<close> that sequences of
    fewer than \<open>2 ^ 64\<close> operations refine one map from slots and keys to entries, that the counters are exact and that a
    scan with tables of at most \<open>2 ^ 48\<close> buckets (the bits left in the cursor beside the slot) misses no key; and that
    \<open>kvstoreMoveDict\<close> miscounts the non-empty dicts.

  \<^item> \<open>Lzf\<close> (\<^verbatim>\<open>lzf_c.c\<close>, \<^verbatim>\<open>lzf_d.c\<close>, \<^verbatim>\<open>lzfP.h\<close>): compressor and decompressor; \<open>Lzf_Format\<close> has the tokens of the
    format and that the decompressor is safe on every input; \<open>Lzf_Props\<close> that what is compressed, with any
    content of the uninitialised hash table, decompresses to the input.

  \<^item> \<open>Adlist\<close> (\<^verbatim>\<open>adlist.c\<close>): nodes in an explicit heap; \<open>Adlist_Rep\<close> says when a heap holds a list,
    \<open>Adlist_Ops\<close> what each operation does and that it touches no other node, \<open>Adlist_Props\<close> that two lists in
    one heap behave as two sequences under every sequence of operations, joins and duplications included.

  \<^bold>\<open>Simplifications.\<close> The host is little-endian and has 64-bit longs and pointers. \<open>fwTreeCreate\<close> takes \<open>1 << sizeBits\<close> as
    an unbounded number: as an \<open>int\<close> it overflows from 31 bits on, but a store has at most 16.
    \<open>dictRehash\<close> takes \<open>n*10\<close> as a natural number: as an \<open>int\<close> it overflows for \<open>n\<close> above 214748364, but the callers pass at most 1000.
    \<open>kvstoreCreate\<close> keeps the assertion on the number of bits; those on the callbacks and the metadata of the
    given dict type and store type have no counterpart, since the model of a dict type has no such fields.
    The iterators of dicts and stores are modelled, but no property is about them.

  \<^bold>\<open>Not modelled.\<close> Of the files above: random sampling of dict entries and listpack pairs, defragmentation, rehashing for a
  time span, statistics and memory reports, printing and the self-tests. Of the server: the event
  loop, networking, persistence, replication, cluster, modules and scripting, whose behaviour is that of the operating system or of other
  processes; the command handlers, which work on client and object structures; the strings of \<^verbatim>\<open>sds.c\<close>, the
  quicklists and the radix trees, whose pointer arithmetic needs a heap of bytes; the hash functions and
  checksums; the libraries under \<^verbatim>\<open>deps\<close>. The web application of the repository uses Redis as a service only.
\<close>

end
